(* ===== verification/Airnet_Prelude.thy ===== *)
theory Airnet_Prelude
  imports Main "HOL-Library.Word"
begin

text \<open>
  Shared vocabulary of the airnet development: bytes and \<^verbatim>\<open>size_t\<close>, the ways a C++
  operation can stop abnormally, sequencing of operations that may stop, byte strings
  read out of memory blocks, and the generic lemmas on lists and words that every
  component uses.
\<close>

section \<open>Machine types\<close>

text \<open>
  \<^verbatim>\<open>char\<close> values are bytes, \<^verbatim>\<open>size_t\<close> is 64 bits wide and wraps around,
  \<^verbatim>\<open>int\<close> and \<^verbatim>\<open>int32_t\<close> are 32 bits wide and read with \<^const>\<open>sint\<close>.
\<close>

type_synonym byte = "8 word"
type_synonym size_t = "64 word"
type_synonym int32 = "32 word"

definition INT_MAX :: int where
  "INT_MAX = 2 ^ 31 - 1"

section \<open>Abnormal termination as a value\<close>

text \<open>
  The default build type of the repository is Debug, so \<^verbatim>\<open>assert\<close> is live: a failing
  assertion aborts. An access outside a memory block is undefined behaviour in C++ and a
  fault of its own here, so that a proof that an operation returns normally is a proof of
  its memory safety.
\<close>

datatype fault =
    AssertFailed      \<comment> \<open>\<^verbatim>\<open>assert\<close> or \<^verbatim>\<open>MCHECK\<close> failed: the process aborts\<close>
  | OutOfBounds       \<comment> \<open>a read or write outside the memory block\<close>
  | LengthError       \<comment> \<open>\<^verbatim>\<open>std::length_error\<close> from \<^verbatim>\<open>std::vector::resize\<close>\<close>
  | UndefinedBehaviour \<comment> \<open>a call outside its contract, such as unlocking a mutex one does not hold\<close>
  | FatalCheck        \<comment> \<open>a \<^verbatim>\<open>GOOGLE_CHECK\<close>, \<^verbatim>\<open>GOOGLE_DCHECK\<close> or \<^verbatim>\<open>GOOGLE_LOG(FATAL)\<close>\<close>
  | NullDeref         \<comment> \<open>a null pointer was dereferenced\<close>
  | BadWeakPtr        \<comment> \<open>\<^verbatim>\<open>boost::bad_weak_ptr\<close> from \<^verbatim>\<open>shared_from_this\<close>\<close>
  | NonTermination    \<comment> \<open>a loop that never returns\<close>

type_synonym 'a result = "fault + 'a"

fun rbind :: "'a result \<Rightarrow> ('a \<Rightarrow> 'b result) \<Rightarrow> 'b result" where
  "rbind (Inl e) f = Inl e"
| "rbind (Inr x) f = f x"

definition ensure :: "bool \<Rightarrow> fault \<Rightarrow> unit result" where
  "ensure b e = (if b then Inr () else Inl e)"

lemma ensure_simps [simp]:
  "ensure True e = Inr ()"
  "ensure False e = Inl e"
  by (simp_all add: ensure_def)

lemma ensure_eq_Inr [simp]: "ensure b e = Inr u \<longleftrightarrow> b"
  by (simp add: ensure_def)

lemma ensure_eq_Inl [simp]: "ensure b e = Inl e' \<longleftrightarrow> \<not> b \<and> e = e'"
  by (auto simp: ensure_def)

lemma rbind_eq_Inr: "rbind m f = Inr y \<longleftrightarrow> (\<exists>x. m = Inr x \<and> f x = Inr y)"
  by (cases m) auto

lemma rbind_eq_Inl: "rbind m f = Inl e \<longleftrightarrow> m = Inl e \<or> (\<exists>x. m = Inr x \<and> f x = Inl e)"
  by (cases m) auto

lemma rbind_InrI [intro]: "m = Inr x \<Longrightarrow> f x = Inr y \<Longrightarrow> rbind m f = Inr y"
  by simp

lemma rbind_cong [fundef_cong]:
  "m = m' \<Longrightarrow> (\<And>x. m' = Inr x \<Longrightarrow> f x = g x) \<Longrightarrow> rbind m f = rbind m' g"
  by (cases m') auto

lemma rbind_assoc [simp]: "rbind (rbind m f) g = rbind m (\<lambda>x. rbind (f x) g)"
  by (cases m) auto

lemma rbind_Inr_right [simp]: "rbind m Inr = m"
  by (cases m) auto

lemma rbind_ensure [simp]:
  "rbind (ensure b e) f = (if b then f () else Inl e)"
  by (simp add: ensure_def)

section \<open>Reading and writing a block of memory\<close>

text \<open>
  A block is a list of bytes. \<^term>\<open>read_block blk off n\<close> is what \<^verbatim>\<open>memcpy\<close> or
  \<^verbatim>\<open>std::string(p, n)\<close> copies from offset \<open>off\<close>; \<^term>\<open>write_block blk off data\<close> is what
  \<^verbatim>\<open>std::copy\<close> leaves behind. Both fault when they would leave the block.
\<close>

definition read_block :: "byte list \<Rightarrow> nat \<Rightarrow> nat \<Rightarrow> byte list result" where
  "read_block blk off n =
     (if off + n \<le> length blk then Inr (take n (drop off blk)) else Inl OutOfBounds)"

definition overwrite :: "'a list \<Rightarrow> nat \<Rightarrow> 'a list \<Rightarrow> 'a list" where
  "overwrite blk off data = take off blk @ data @ drop (off + length data) blk"

definition write_block :: "byte list \<Rightarrow> nat \<Rightarrow> byte list \<Rightarrow> byte list result" where
  "write_block blk off data =
     (if off + length data \<le> length blk then Inr (overwrite blk off data)
      else Inl OutOfBounds)"

lemma read_block_Inr:
  "off + n \<le> length blk \<Longrightarrow> read_block blk off n = Inr (take n (drop off blk))"
  by (simp add: read_block_def)

lemma write_block_Inr:
  "off + length data \<le> length blk \<Longrightarrow> write_block blk off data = Inr (overwrite blk off data)"
  by (simp add: write_block_def)

lemma length_overwrite [simp]:
  "off + length data \<le> length blk \<Longrightarrow> length (overwrite blk off data) = length blk"
  by (simp add: overwrite_def)

text \<open>The same through \<^verbatim>\<open>int\<close> offsets and sizes, as the protocol buffer streams use them.\<close>

definition mem_read :: "byte list \<Rightarrow> int \<Rightarrow> int \<Rightarrow> byte list result" where
  "mem_read blk off n = (if 0 \<le> off \<and> 0 \<le> n then read_block blk (nat off) (nat n) else Inl OutOfBounds)"

definition mem_write :: "byte list \<Rightarrow> int \<Rightarrow> byte list \<Rightarrow> byte list result" where
  "mem_write blk off data = (if 0 \<le> off then write_block blk (nat off) data else Inl OutOfBounds)"

lemma mem_read_Inr:
  "0 \<le> off \<Longrightarrow> 0 \<le> n \<Longrightarrow> off + n \<le> int (length blk) \<Longrightarrow>
     mem_read blk off n = Inr (take (nat n) (drop (nat off) blk))"
  by (simp add: mem_read_def read_block_def)

lemma mem_write_Inr:
  "0 \<le> off \<Longrightarrow> off + int (length data) \<le> int (length blk) \<Longrightarrow>
     mem_write blk off data = Inr (overwrite blk (nat off) data)"
  by (simp add: mem_write_def write_block_def)

text \<open>The window of a block between two offsets, the part a buffer holds.\<close>

definition window :: "'a list \<Rightarrow> nat \<Rightarrow> nat \<Rightarrow> 'a list" where
  "window blk i j = take (j - i) (drop i blk)"

lemma length_window [simp]: "j \<le> length blk \<Longrightarrow> length (window blk i j) = j - i"
  by (simp add: window_def)

lemma window_empty [simp]: "window blk i i = []"
  by (simp add: window_def)

lemma window_whole: "window blk 0 (length blk) = blk"
  by (simp add: window_def)

lemma window_split:
  "i \<le> k \<Longrightarrow> k \<le> j \<Longrightarrow> window blk i j = window blk i k @ window blk k j"
proof -
  assume "i \<le> k" and "k \<le> j"
  then obtain a b where "k = i + a" and "j = i + (a + b)"
    by (metis add.assoc le_iff_add)
  then show ?thesis
    by (simp add: window_def take_add add.commute)
qed

lemma drop_window: "drop n (window blk i j) = window blk (i + n) j"
  by (simp add: window_def drop_take add.commute)

lemma take_window: "i + n \<le> j \<Longrightarrow> take n (window blk i j) = window blk i (i + n)"
  by (simp add: window_def min_def)

lemma window_drop: "i \<le> j \<Longrightarrow> window blk i j @ drop j blk = drop i blk"
  unfolding window_def by (metis append_take_drop_id drop_drop le_add_diff_inverse2)

lemma window_append_left [simp]: "j \<le> length xs \<Longrightarrow> window (xs @ ys) i j = window xs i j"
  by (cases "i \<le> length xs") (simp_all add: window_def)

lemma window_overwrite_at:
  "off + length data \<le> length blk \<Longrightarrow>
     window (overwrite blk off data) off (off + length data) = data"
  by (simp add: window_def overwrite_def)

lemma window_overwrite_below:
  assumes "j \<le> off" and "off \<le> length blk"
  shows "window (overwrite blk off data) i j = window blk i j"
proof -
  have "window (overwrite blk off data) i j = window (take off blk) i j"
    using assms by (simp add: overwrite_def)
  also have "\<dots> = window blk i j"
    using assms by (simp add: window_def drop_take min_def)
  finally show ?thesis .
qed

lemma window_overwrite_above:
  assumes "off + length data \<le> i" and "off + length data \<le> length blk"
  shows "window (overwrite blk off data) i j = window blk i j"
  using assms by (simp add: window_def overwrite_def min_def)

section \<open>Sizes as words\<close>

lemma unat_size_less: "unat (a :: size_t) < 2 ^ 64"
  by (rule order_less_le_trans [OF unsigned_less]) simp

lemma unat_size_sub: "b \<le> a \<Longrightarrow> unat (a - b) = unat a - unat (b :: 'a::len word)"
  by (rule unat_sub)

lemma unat_size_add:
  "unat a + unat b < 2 ^ 64 \<Longrightarrow> unat (a + b :: size_t) = unat a + unat b"
  by (simp add: unat_word_ariths)

lemma unat_of_length [simp]: "n < 2 ^ 64 \<Longrightarrow> unat (of_nat n :: size_t) = n"
  by (simp add: unat_of_nat)

lemma unat_size_numeral: "numeral k < (2 ^ 64 :: nat) \<Longrightarrow> unat (numeral k :: size_t) = numeral k"
  using unat_of_length [of "numeral k"] by (simp del: unat_of_length unsigned_numeral)

section \<open>Signed 32-bit values\<close>

lemma sint_word_of_int32:
  "- (2 ^ 31) \<le> k \<Longrightarrow> k < 2 ^ 31 \<Longrightarrow> sint (word_of_int k :: int32) = k"
  by (simp add: sint_sbintrunc' signed_take_bit_int_eq_self)

lemma sint_add_int32:
  assumes "- (2 ^ 31) \<le> sint a + sint b" and "sint a + sint b < 2 ^ 31"
  shows "sint (a + b :: int32) = sint a + sint b"
proof -
  have "a + b = word_of_int (sint a + sint b)" by simp
  then show ?thesis using sint_word_of_int32 [OF assms] by simp
qed

lemma sint_diff_int32:
  assumes "- (2 ^ 31) \<le> sint a - sint b" and "sint a - sint b < 2 ^ 31"
  shows "sint (a - b :: int32) = sint a - sint b"
proof -
  have "a - b = word_of_int (sint a - sint b)" by simp
  then show ?thesis using sint_word_of_int32 [OF assms] by simp
qed

lemma sint_int32_bounds:
  "- 2147483648 \<le> sint (a :: int32)"
  "sint (a :: int32) < 2147483648"
  using sint_ge [of a] sint_lt [of a] by simp_all

lemma sint_of_nat_int32: "n < 2 ^ 31 \<Longrightarrow> sint (of_nat n :: int32) = int n"
  using sint_word_of_int32 [of "int n"] by simp

text \<open>\<^verbatim>\<open>static_cast<int>\<close> of a \<^verbatim>\<open>size_t\<close> keeps the low 32 bits.\<close>

lemma sint_ucast_size: "unat n < 2 ^ 31 \<Longrightarrow> sint (ucast (n :: size_t) :: int32) = int (unat n)"
  using sint_of_nat_int32 [of "unat n"] by simp

lemma sint_of_nat_int32_wraps:
  assumes "2 ^ 31 \<le> m" and "m < 2 ^ 32"
  shows "sint (of_nat m :: int32) = int m - 2 ^ 32"
proof -
  have "(of_nat m :: int32) = word_of_int (int m - 2 ^ 32)"
    by simp
  moreover have "sint (word_of_int (int m - 2 ^ 32) :: int32) = int m - 2 ^ 32"
    using assms by (intro sint_word_of_int32) simp_all
  ultimately show ?thesis by (simp only:)
qed

lemma sint_ucast_size_wraps:
  "2 ^ 31 \<le> unat n \<Longrightarrow> unat n < 2 ^ 32 \<Longrightarrow>
     sint (ucast (n :: size_t) :: int32) = int (unat n) - 2 ^ 32"
  using sint_of_nat_int32_wraps [of "unat n"] by simp

text \<open>The implicit conversion of an \<^verbatim>\<open>int\<close> argument to \<^verbatim>\<open>size_t\<close> extends the sign.\<close>

definition int_to_size :: "int32 \<Rightarrow> size_t" where
  "int_to_size n = scast n"

lemma uint_int_to_size: "uint (int_to_size n) = sint n mod 2 ^ 64"
  by (simp only: int_to_size_def scast_eq uint_word_of_int) simp

lemma unat_int_to_size: "0 \<le> sint n \<Longrightarrow> unat (int_to_size n) = nat (sint n)"
proof -
  assume "0 \<le> sint n"
  moreover have "sint n < 2 ^ 64"
    using sint_int32_bounds(2) [of n] by simp
  ultimately have "uint (int_to_size n) = sint n"
    by (simp add: uint_int_to_size)
  then show ?thesis
    by (metis nat_uint_eq)
qed

lemma unat_int_to_size_neg:
  assumes "sint n < 0"
  shows "unat (int_to_size n) = nat (2 ^ 64 + sint n)"
proof -
  have "uint (int_to_size n) = (2 ^ 64 + sint n) mod 2 ^ 64"
    by (simp add: uint_int_to_size)
  also have "\<dots> = 2 ^ 64 + sint n"
    using assms sint_int32_bounds(1) [of n] by (intro mod_pos_pos_trivial) simp_all
  finally show ?thesis
    by (metis nat_uint_eq)
qed

section \<open>Counting in lists\<close>

text \<open>How many threads of a list satisfy a predicate, and how the number moves when one changes.\<close>

definition count_if :: "('a \<Rightarrow> bool) \<Rightarrow> 'a list \<Rightarrow> nat" where
  "count_if P xs = length (filter P xs)"

lemma count_if_update:
  assumes "i < length xs"
  shows "count_if P (xs[i := v]) + (if P (xs ! i) then 1 else 0) = count_if P xs + (if P v then 1 else 0)"
  using assms
proof (induction xs arbitrary: i)
  case (Cons x xs)
  then show ?case
    by (cases i) (auto simp: count_if_def)
qed simp

lemma count_if_pos: "i < length xs \<Longrightarrow> P (xs ! i) \<Longrightarrow> 0 < count_if P xs"
  by (force simp: count_if_def filter_empty_conv)

lemma count_if_zero: "count_if P xs = 0 \<longleftrightarrow> (\<forall>i < length xs. \<not> P (xs ! i))"
  by (auto simp: count_if_def filter_empty_conv all_set_conv_all_nth)

lemma ball_update: "\<forall>x \<in> set xs. P x \<Longrightarrow> P v \<Longrightarrow> \<forall>x \<in> set (xs[i := v]). P x"
  using set_update_subset_insert [of xs i v] by auto

end
