(* ===== verification/Endian_Ex.thy ===== *)
theory Endian_Ex
  imports Airnet_Prelude
begin

text \<open>
  Byte order conversion (\<^verbatim>\<open>src/common/base/endian_ex.h\<close>). The conversions are stated for
  a host of either byte order: the value \<^verbatim>\<open>htobe32(x)\<close> is itself an integer of the host, and
  what goes on the wire is that integer's representation in the host's memory.
\<close>

unbundle bit_operations_syntax

datatype endian = LittleEndian | BigEndian

section \<open>The bytes of an integer object\<close>

definition le_bytes :: "nat \<Rightarrow> 'a::len word \<Rightarrow> byte list" where
  "le_bytes n w = map (\<lambda>i. ucast (drop_bit (8 * i) w)) [0..<n]"

fun le_word :: "byte list \<Rightarrow> 'a::len word" where
  "le_word [] = 0"
| "le_word (b # bs) = ucast b OR push_bit 8 (le_word bs)"

text \<open>\<^verbatim>\<open>sizeof\<close> of an integer type, and the representation of an integer object.\<close>

definition sizeof_word :: "'a::len word itself \<Rightarrow> nat" where
  "sizeof_word _ = LENGTH('a) div 8"

definition object_bytes :: "endian \<Rightarrow> 'a::len word \<Rightarrow> byte list" where
  "object_bytes e w =
     (case e of LittleEndian \<Rightarrow> le_bytes (LENGTH('a) div 8) w
      | BigEndian \<Rightarrow> rev (le_bytes (LENGTH('a) div 8) w))"

definition object_word :: "endian \<Rightarrow> byte list \<Rightarrow> 'a::len word" where
  "object_word e bs = (case e of LittleEndian \<Rightarrow> le_word bs | BigEndian \<Rightarrow> le_word (rev bs))"

section \<open>The conversions of the source\<close>

text \<open>\<^verbatim>\<open>htobe16\<close>, \<^verbatim>\<open>htobe32\<close>, \<^verbatim>\<open>htobe64\<close> of \<^verbatim>\<open><endian.h>\<close>: a byte swap on a little-endian host.\<close>

definition bswap :: "'a::len word \<Rightarrow> 'a word" where
  "bswap w = le_word (rev (le_bytes (LENGTH('a) div 8) w))"

definition htobe :: "endian \<Rightarrow> 'a::len word \<Rightarrow> 'a word" where
  "htobe e w = (case e of LittleEndian \<Rightarrow> bswap w | BigEndian \<Rightarrow> w)"

definition HostToNetwork64 :: "endian \<Rightarrow> 64 word \<Rightarrow> 64 word" where
  "HostToNetwork64 e host64 = htobe e host64"

definition HostToNetwork32 :: "endian \<Rightarrow> 32 word \<Rightarrow> 32 word" where
  "HostToNetwork32 e host32 = htobe e host32"

definition HostToNetwork16 :: "endian \<Rightarrow> 16 word \<Rightarrow> 16 word" where
  "HostToNetwork16 e host16 = htobe e host16"

definition NetworkToHost64 :: "endian \<Rightarrow> 64 word \<Rightarrow> 64 word" where
  "NetworkToHost64 e net64 = htobe e net64"

definition NetworkToHost32 :: "endian \<Rightarrow> 32 word \<Rightarrow> 32 word" where
  "NetworkToHost32 e net32 = htobe e net32"

definition NetworkToHost16 :: "endian \<Rightarrow> 16 word \<Rightarrow> 16 word" where
  "NetworkToHost16 e net16 = htobe e net16"

section \<open>Network byte order\<close>

text \<open>The reference: most significant byte first, whatever the host.\<close>

definition be_bytes :: "'a::len word \<Rightarrow> byte list" where
  "be_bytes w = rev (le_bytes (LENGTH('a) div 8) w)"

definition be_word :: "byte list \<Rightarrow> 'a::len word" where
  "be_word bs = le_word (rev bs)"

lemma length_le_bytes [simp]: "length (le_bytes n w) = n"
  by (simp add: le_bytes_def)

lemma length_be_bytes [simp]: "length (be_bytes (w :: 'a::len word)) = LENGTH('a) div 8"
  by (simp add: be_bytes_def)

lemma length_object_bytes [simp]:
  "length (object_bytes e (w :: 'a::len word)) = LENGTH('a) div 8"
  by (cases e) (simp_all add: object_bytes_def)

lemma bit_le_word:
  "bit (le_word bs :: 'a::len word) k \<longleftrightarrow>
     k < LENGTH('a) \<and> k div 8 < length bs \<and> bit (bs ! (k div 8)) (k mod 8)"
proof (induction bs arbitrary: k)
  case Nil
  then show ?case by simp
next
  case (Cons b bs)
  show ?case
  proof (cases "k < 8")
    case True
    then show ?thesis
      by (auto simp: bit_or_iff bit_push_bit_iff bit_ucast_iff)
  next
    case False
    then have "k div 8 = Suc ((k - 8) div 8)" and "k mod 8 = (k - 8) mod 8"
      by (simp_all add: le_div_geq le_mod_geq not_less)
    moreover have "\<not> bit b k"
      using False bit_imp_le_length [of b k] by auto
    ultimately show ?thesis
      using False Cons.IH [of "k - 8"]
      by (auto simp: bit_or_iff bit_push_bit_iff bit_ucast_iff)
  qed
qed

lemma bit_le_bytes:
  "i < n \<Longrightarrow> bit (le_bytes n (w :: 'a::len word) ! i) j \<longleftrightarrow> j < 8 \<and> bit w (8 * i + j)"
  by (auto simp: le_bytes_def bit_ucast_iff bit_drop_bit_eq bit_imp_le_length)

lemma le_word_le_bytes:
  assumes "LENGTH('a) = 8 * n"
  shows "le_word (le_bytes n w) = (w :: 'a::len word)"
proof (rule bit_word_eqI)
  fix k
  assume k: "k < LENGTH('a)"
  then have "k div 8 < n"
    using assms by (simp add: div_less_iff_less_mult mult.commute)
  with k show "bit (le_word (le_bytes n w) :: 'a word) k \<longleftrightarrow> bit w k"
    by (simp add: bit_le_word bit_le_bytes)
qed

lemma le_bytes_le_word:
  assumes "LENGTH('a) = 8 * n" and "length bs = n"
  shows "le_bytes n (le_word bs :: 'a::len word) = bs"
proof (rule nth_equalityI)
  show "length (le_bytes n (le_word bs :: 'a word)) = length bs"
    using assms(2) by simp
next
  fix i
  assume "i < length (le_bytes n (le_word bs :: 'a word))"
  then have i: "i < n" by simp
  show "le_bytes n (le_word bs :: 'a word) ! i = bs ! i"
  proof (rule bit_word_eqI)
    fix j
    assume j: "j < LENGTH(8)"
    then have "8 * i + j < LENGTH('a)"
      using i assms(1) by simp
    with i j assms(2) show "bit (le_bytes n (le_word bs :: 'a word) ! i) j \<longleftrightarrow> bit (bs ! i) j"
      by (simp add: bit_le_bytes bit_le_word)
  qed
qed

text \<open>Both directions at the widths the source uses.\<close>

lemma be_word_be_bytes:
  "LENGTH('a) = 8 * (LENGTH('a) div 8) \<Longrightarrow> be_word (be_bytes w) = (w :: 'a::len word)"
  by (simp add: be_word_def be_bytes_def le_word_le_bytes)

lemma be_bytes_be_word:
  "LENGTH('a) = 8 * (LENGTH('a) div 8) \<Longrightarrow> length bs = LENGTH('a) div 8 \<Longrightarrow>
     be_bytes (be_word bs :: 'a::len word) = bs"
  by (simp add: be_word_def be_bytes_def le_bytes_le_word)

lemma bswap_bswap:
  assumes "LENGTH('a) = 8 * (LENGTH('a) div 8)"
  shows "bswap (bswap w) = (w :: 'a::len word)"
  using assms by (simp add: bswap_def le_bytes_le_word le_word_le_bytes)

lemma htobe_htobe:
  "LENGTH('a) = 8 * (LENGTH('a) div 8) \<Longrightarrow> htobe e (htobe e w) = (w :: 'a::len word)"
  by (cases e) (simp_all add: htobe_def bswap_bswap)

text \<open>
  What the two byte orders agree on: the representation of the converted integer is the
  network order, and converting what was read from the network recovers the integer.
\<close>

lemma object_bytes_htobe:
  "LENGTH('a) = 8 * (LENGTH('a) div 8) \<Longrightarrow> object_bytes e (htobe e w) = be_bytes (w :: 'a::len word)"
  by (cases e) (simp_all add: object_bytes_def htobe_def be_bytes_def bswap_def le_bytes_le_word)

lemma htobe_object_word:
  "LENGTH('a) = 8 * (LENGTH('a) div 8) \<Longrightarrow> length bs = LENGTH('a) div 8 \<Longrightarrow>
     htobe e (object_word e bs) = (be_word bs :: 'a::len word)"
  by (cases e) (simp_all add: object_word_def htobe_def be_word_def bswap_def le_bytes_le_word)

lemma object_bytes_HostToNetwork [simp]:
  "object_bytes e (HostToNetwork16 e x16) = be_bytes x16"
  "object_bytes e (HostToNetwork32 e x32) = be_bytes x32"
  "object_bytes e (HostToNetwork64 e x64) = be_bytes x64"
  by (simp_all add: HostToNetwork16_def HostToNetwork32_def HostToNetwork64_def object_bytes_htobe)

lemma NetworkToHost_object_word [simp]:
  "length bs = 2 \<Longrightarrow> NetworkToHost16 e (object_word e bs) = be_word bs"
  "length bs = 4 \<Longrightarrow> NetworkToHost32 e (object_word e bs) = be_word bs"
  "length bs = 8 \<Longrightarrow> NetworkToHost64 e (object_word e bs) = be_word bs"
  by (simp_all add: NetworkToHost16_def NetworkToHost32_def NetworkToHost64_def htobe_object_word)

lemma be_word_be_bytes_widths [simp]:
  "be_word (be_bytes x16) = (x16 :: 16 word)"
  "be_word (be_bytes x32) = (x32 :: 32 word)"
  "be_word (be_bytes x64) = (x64 :: 64 word)"
  by (simp_all add: be_word_be_bytes)

end
