(* ===== verification/StringPiece.thy ===== *)
theory StringPiece
  imports Airnet_Prelude "HOL-Library.List_Lexorder" "HOL-Library.Sublist"
begin

text \<open>
  Non-owning string views (\<^verbatim>\<open>src/common/base/stringpiece.h\<close>): a pointer into somebody else's
  memory block and a signed 32-bit length. Every accessor that touches memory can fault.
  The comparison operators are related to the lexicographic order on the byte strings the
  views denote.
\<close>

section \<open>Pointers into a block\<close>

datatype cptr = NullPtr | Ptr "byte list" int

fun ptr_add :: "cptr \<Rightarrow> int \<Rightarrow> cptr" where
  "ptr_add NullPtr n = NullPtr"
| "ptr_add (Ptr blk off) n = Ptr blk (off + n)"

text \<open>Reading \<open>n\<close> bytes at a pointer; no byte is touched when \<open>n\<close> is 0.\<close>

fun read_ptr :: "cptr \<Rightarrow> nat \<Rightarrow> byte list result" where
  "read_ptr NullPtr n = (if n = 0 then Inr [] else Inl NullDeref)"
| "read_ptr (Ptr blk off) n =
     (if n = 0 then Inr []
      else if off < 0 then Inl OutOfBounds
      else read_block blk (nat off) n)"

text \<open>\<^verbatim>\<open>strlen\<close>: the distance to the first zero byte, which must exist in the block.\<close>

fun strlen_list :: "byte list \<Rightarrow> nat result" where
  "strlen_list [] = Inl OutOfBounds"
| "strlen_list (b # bs) = (if b = 0 then Inr 0 else rbind (strlen_list bs) (\<lambda>n. Inr (Suc n)))"

fun strlen :: "cptr \<Rightarrow> nat result" where
  "strlen NullPtr = Inl NullDeref"
| "strlen (Ptr blk off) = (if off < 0 then Inl OutOfBounds else strlen_list (drop (nat off) blk))"

text \<open>\<^verbatim>\<open>memcmp\<close>: bytes compared as unsigned values; only the sign of the result is specified.\<close>

fun memcmp_list :: "byte list \<Rightarrow> byte list \<Rightarrow> int" where
  "memcmp_list (a # as) (b # bs) = (if a < b then - 1 else if b < a then 1 else memcmp_list as bs)"
| "memcmp_list _ _ = 0"

definition memcmp :: "cptr \<Rightarrow> cptr \<Rightarrow> size_t \<Rightarrow> int result" where
  "memcmp p q n =
     rbind (read_ptr p (unat n)) (\<lambda>a. rbind (read_ptr q (unat n)) (\<lambda>b. Inr (memcmp_list a b)))"

section \<open>The class\<close>

record StringPiece =
  sp_ptr :: cptr
  sp_length :: int32

definition StringPiece_default :: StringPiece where
  "StringPiece_default = \<lparr>sp_ptr = NullPtr, sp_length = 0\<rparr>"

definition StringPiece_cstr :: "cptr \<Rightarrow> StringPiece result" where
  "StringPiece_cstr str = rbind (strlen str) (\<lambda>n. Inr \<lparr>sp_ptr = str, sp_length = of_nat n\<rparr>)"

definition StringPiece_string :: "byte list \<Rightarrow> StringPiece" where
  "StringPiece_string str = \<lparr>sp_ptr = Ptr (str @ [0]) 0, sp_length = of_nat (length str)\<rparr>"

definition StringPiece_mem :: "cptr \<Rightarrow> int32 \<Rightarrow> StringPiece" where
  "StringPiece_mem offset len = \<lparr>sp_ptr = offset, sp_length = len\<rparr>"

definition sp_data :: "StringPiece \<Rightarrow> cptr" where
  "sp_data s = sp_ptr s"

definition sp_size :: "StringPiece \<Rightarrow> int32" where
  "sp_size s = sp_length s"

definition sp_empty :: "StringPiece \<Rightarrow> bool" where
  "sp_empty s \<longleftrightarrow> sp_length s = 0"

definition sp_begin :: "StringPiece \<Rightarrow> cptr" where
  "sp_begin s = sp_ptr s"

definition sp_end :: "StringPiece \<Rightarrow> cptr" where
  "sp_end s = ptr_add (sp_ptr s) (sint (sp_length s))"

definition sp_clear :: "StringPiece \<Rightarrow> StringPiece" where
  "sp_clear s = s\<lparr>sp_ptr := NullPtr, sp_length := 0\<rparr>"

definition sp_set :: "StringPiece \<Rightarrow> cptr \<Rightarrow> int32 \<Rightarrow> StringPiece" where
  "sp_set s buf len = s\<lparr>sp_ptr := buf, sp_length := len\<rparr>"

definition sp_set_cstr :: "StringPiece \<Rightarrow> cptr \<Rightarrow> StringPiece result" where
  "sp_set_cstr s str = rbind (strlen str) (\<lambda>n. Inr (s\<lparr>sp_ptr := str, sp_length := of_nat n\<rparr>))"

definition sp_index :: "StringPiece \<Rightarrow> int32 \<Rightarrow> byte result" where
  "sp_index s i = rbind (read_ptr (ptr_add (sp_ptr s) (sint i)) 1) (\<lambda>bs. Inr (hd bs))"

definition remove_prefix :: "StringPiece \<Rightarrow> int32 \<Rightarrow> StringPiece" where
  "remove_prefix s n = s\<lparr>sp_ptr := ptr_add (sp_ptr s) (sint n), sp_length := sp_length s - n\<rparr>"

definition remove_suffix :: "StringPiece \<Rightarrow> int32 \<Rightarrow> StringPiece" where
  "remove_suffix s n = s\<lparr>sp_length := sp_length s - n\<rparr>"

definition sp_eq :: "StringPiece \<Rightarrow> StringPiece \<Rightarrow> bool result" where
  "sp_eq s x =
     (if sp_length s = sp_length x
      then rbind (memcmp (sp_ptr s) (sp_ptr x) (int_to_size (sp_length s))) (\<lambda>r. Inr (r = 0))
      else Inr False)"

definition sp_neq :: "StringPiece \<Rightarrow> StringPiece \<Rightarrow> bool result" where
  "sp_neq s x = rbind (sp_eq s x) (\<lambda>b. Inr (\<not> b))"

text \<open>The comparison length of the four order operators and of \<^verbatim>\<open>compare\<close>.\<close>

definition min_length :: "StringPiece \<Rightarrow> StringPiece \<Rightarrow> int32" where
  "min_length s x =
     (if sint (sp_length s) < sint (sp_length x) then sp_length s else sp_length x)"

text \<open>The macro \<^verbatim>\<open>STRINGPIECE_BINARY_PREDICATE(cmp, auxcmp)\<close>.\<close>

definition sp_predicate ::
  "(int \<Rightarrow> int \<Rightarrow> bool) \<Rightarrow> (int \<Rightarrow> int \<Rightarrow> bool) \<Rightarrow> StringPiece \<Rightarrow> StringPiece \<Rightarrow> bool result" where
  "sp_predicate cmp auxcmp s x =
     rbind (memcmp (sp_ptr s) (sp_ptr x) (int_to_size (min_length s x)))
       (\<lambda>r. Inr (auxcmp r 0 \<or> (r = 0 \<and> cmp (sint (sp_length s)) (sint (sp_length x)))))"

definition sp_less :: "StringPiece \<Rightarrow> StringPiece \<Rightarrow> bool result" where
  "sp_less = sp_predicate (<) (<)"

definition sp_le :: "StringPiece \<Rightarrow> StringPiece \<Rightarrow> bool result" where
  "sp_le = sp_predicate (\<le>) (<)"

definition sp_ge :: "StringPiece \<Rightarrow> StringPiece \<Rightarrow> bool result" where
  "sp_ge = sp_predicate (\<ge>) (>)"

definition sp_greater :: "StringPiece \<Rightarrow> StringPiece \<Rightarrow> bool result" where
  "sp_greater = sp_predicate (>) (>)"

definition sp_compare :: "StringPiece \<Rightarrow> StringPiece \<Rightarrow> int result" where
  "sp_compare s x =
     rbind (memcmp (sp_ptr s) (sp_ptr x) (int_to_size (min_length s x)))
       (\<lambda>r. Inr (if r = 0 then
                   (if sint (sp_length s) < sint (sp_length x) then - 1
                    else if sint (sp_length s) > sint (sp_length x) then 1 else r)
                 else r))"

text \<open>\<^verbatim>\<open>std::string(data(), size())\<close>: a length above \<^verbatim>\<open>max_size\<close> throws.\<close>

definition max_string_size :: nat where
  "max_string_size = 2 ^ 62"

definition make_string :: "cptr \<Rightarrow> size_t \<Rightarrow> byte list result" where
  "make_string p n = (if unat n > max_string_size then Inl LengthError else read_ptr p (unat n))"

definition as_string :: "StringPiece \<Rightarrow> byte list result" where
  "as_string s = make_string (sp_data s) (int_to_size (sp_size s))"

definition CopyToStdString :: "StringPiece \<Rightarrow> byte list result" where
  "CopyToStdString s = make_string (sp_ptr s) (int_to_size (sp_length s))"

definition starts_with :: "StringPiece \<Rightarrow> StringPiece \<Rightarrow> bool result" where
  "starts_with s x =
     (if sint (sp_length s) \<ge> sint (sp_length x)
      then rbind (memcmp (sp_ptr s) (sp_ptr x) (int_to_size (sp_length x))) (\<lambda>r. Inr (r = 0))
      else Inr False)"

section \<open>The byte string a view denotes\<close>

definition denotes :: "StringPiece \<Rightarrow> byte list \<Rightarrow> bool" where
  "denotes s a \<longleftrightarrow> int (length a) = sint (sp_length s) \<and> read_ptr (sp_ptr s) (length a) = Inr a"

lemma denotes_length: "denotes s a \<Longrightarrow> sint (sp_length s) = int (length a)"
  by (simp add: denotes_def)

lemma read_ptr_prefix:
  assumes "read_ptr p (length a) = Inr a" and "n \<le> length a"
  shows "read_ptr p n = Inr (take n a)"
proof (cases p)
  case NullPtr
  with assms show ?thesis by (cases a) simp_all
next
  case (Ptr blk off)
  with assms show ?thesis
    by (auto simp: read_block_def split: if_splits)
       (metis min.absorb1 take_take)
qed

lemma memcmp_denotes:
  assumes "denotes s a" and "denotes x b" and "unat n \<le> length a" and "unat n \<le> length b"
  shows "memcmp (sp_ptr s) (sp_ptr x) n =
           Inr (memcmp_list (take (unat n) a) (take (unat n) b))"
proof -
  have "read_ptr (sp_ptr s) (unat n) = Inr (take (unat n) a)"
    using assms(1,3) by (intro read_ptr_prefix) (simp_all add: denotes_def)
  moreover have "read_ptr (sp_ptr x) (unat n) = Inr (take (unat n) b)"
    using assms(2,4) by (intro read_ptr_prefix) (simp_all add: denotes_def)
  ultimately show ?thesis by (simp add: memcmp_def)
qed

lemma unat_min_length:
  assumes "denotes s a" and "denotes x b"
  shows "unat (int_to_size (min_length s x)) = min (length a) (length b)"
  using assms by (simp add: min_length_def denotes_length unat_int_to_size)

lemma unat_length:
  "denotes s a \<Longrightarrow> unat (int_to_size (sp_length s)) = length a"
  by (simp add: denotes_length unat_int_to_size)

section \<open>Comparison of byte strings\<close>

lemma memcmp_list_eq_0:
  "length a = length b \<Longrightarrow> memcmp_list a b = 0 \<longleftrightarrow> a = b"
  by (induction a b rule: list_induct2) auto

abbreviation memcmp_min :: "byte list \<Rightarrow> byte list \<Rightarrow> int" where
  "memcmp_min a b \<equiv> memcmp_list (take (min (length a) (length b)) a) (take (min (length a) (length b)) b)"

lemma memcmp_min_Cons:
  "memcmp_min (x # a) (y # b) = (if x < y then - 1 else if y < x then 1 else memcmp_min a b)"
  by simp

lemma memcmp_min_less:
  "memcmp_min a b < 0 \<or> memcmp_min a b = 0 \<and> length a < length b \<longleftrightarrow> a < b"
proof (induction a arbitrary: b)
  case Nil
  then show ?case by (cases b) simp_all
next
  case (Cons x a)
  show ?case
  proof (cases b)
    case Nil
    then show ?thesis by simp
  next
    case (Cons y b')
    with Cons.IH [of b'] show ?thesis
      by (cases x y rule: linorder_cases) (simp_all only: memcmp_min_Cons, auto)
  qed
qed

lemma memcmp_min_swap: "memcmp_min b a = - memcmp_min a b"
proof (induction a arbitrary: b)
  case Nil
  then show ?case by simp
next
  case (Cons x a)
  show ?case
  proof (cases b)
    case Nil
    then show ?thesis by simp
  next
    case (Cons y b')
    with Cons.IH [of b'] show ?thesis
      by (cases x y rule: linorder_cases) (simp_all only: memcmp_min_Cons, auto)
  qed
qed

lemma memcmp_min_greater:
  "memcmp_min a b > 0 \<or> memcmp_min a b = 0 \<and> length a > length b \<longleftrightarrow> a > b"
  using memcmp_min_less [of b a] memcmp_min_swap [of a b] by auto

lemma memcmp_min_eq:
  "memcmp_min a b = 0 \<and> length a = length b \<longleftrightarrow> a = b"
  by (auto simp: memcmp_list_eq_0)

lemma sp_predicate_denotes:
  assumes "denotes s a" and "denotes x b"
  shows "sp_predicate cmp auxcmp s x =
           Inr (auxcmp (memcmp_min a b) 0 \<or>
                (memcmp_min a b = 0 \<and> cmp (int (length a)) (int (length b))))"
  using assms
  by (simp add: sp_predicate_def memcmp_denotes unat_min_length denotes_length)

lemma sp_eq_denotes: "denotes s a \<Longrightarrow> denotes x b \<Longrightarrow> sp_eq s x = Inr (a = b)"
proof -
  assume s: "denotes s a" and x: "denotes x b"
  have len: "sp_length s = sp_length x \<longleftrightarrow> length a = length b"
    using denotes_length [OF s] denotes_length [OF x]
    by (metis of_nat_eq_iff word_eq_iff_signed)
  show ?thesis
    using s x len by (auto simp: sp_eq_def memcmp_denotes unat_length memcmp_list_eq_0)
qed

lemma memcmp_prefix:
  "length b \<le> length a \<Longrightarrow> memcmp_list (take (length b) a) b = 0 \<longleftrightarrow> prefix b a"
  using memcmp_list_eq_0 [of "take (length b) a" b]
  by (auto simp: prefix_def) (metis append_take_drop_id)

lemma denotes_StringPiece_string:
  "length str < 2 ^ 31 \<Longrightarrow> denotes (StringPiece_string str) str"
  by (simp add: denotes_def StringPiece_string_def sint_of_nat_int32 read_block_def)

section \<open>Properties\<close>

text \<open>
  C24 (equivalence). On two views that denote byte strings, every comparison operator of
  \<^verbatim>\<open>StringPiece\<close> returns without touching memory out of bounds, and what it returns is the
  comparison of the two strings in the lexicographic order of unsigned bytes. In particular
  \<^verbatim>\<open><\<close>, \<^verbatim>\<open><=\<close>, \<^verbatim>\<open>==\<close>, \<^verbatim>\<open>>=\<close>, \<^verbatim>\<open>>\<close> agree with one another and form a total order.
\<close>

theorem sp_operators_lexicographic:
  assumes "denotes s a" and "denotes x b"
  shows "sp_eq s x = Inr (a = b) \<and> sp_neq s x = Inr (a \<noteq> b) \<and>
         sp_less s x = Inr (a < b) \<and> sp_le s x = Inr (a \<le> b) \<and>
         sp_greater s x = Inr (a > b) \<and> sp_ge s x = Inr (a \<ge> b)"
proof -
  note m = memcmp_min_less [of a b] memcmp_min_greater [of a b] memcmp_min_eq [of a b]
  have "sp_less s x = Inr (a < b)" "sp_greater s x = Inr (a > b)"
    using m by (simp_all add: sp_less_def sp_greater_def sp_predicate_denotes [OF assms])
  moreover have "sp_le s x = Inr (a \<le> b)" "sp_ge s x = Inr (a \<ge> b)"
    using m by (auto simp: sp_le_def sp_ge_def sp_predicate_denotes [OF assms])
  ultimately show ?thesis
    using sp_eq_denotes [OF assms] by (simp add: sp_neq_def)
qed

theorem sp_operators_lexicographic_witness:
  "denotes (StringPiece_string [97, 98]) [97, 98] \<and>
   denotes (StringPiece_string [97, 200]) [97, 200] \<and>
   sp_less (StringPiece_string [97, 98]) (StringPiece_string [97, 200]) = Inr True"
proof -
  have d: "denotes (StringPiece_string [97, 98]) [97, 98]"
    "denotes (StringPiece_string [97, 200]) [97, 200]"
    by (rule denotes_StringPiece_string, simp)+
  show ?thesis
    using sp_operators_lexicographic [OF d] d by simp
qed

text \<open>
  \<^verbatim>\<open>compare\<close> returns a number whose sign is the lexicographic comparison,
  \<^verbatim>\<open>starts_with\<close> decides whether one byte string is a prefix of the other, and
  \<^verbatim>\<open>as_string\<close> and \<^verbatim>\<open>CopyToStdString\<close> copy exactly the denoted bytes.
\<close>

lemma sp_compare_starts_with:
  assumes "denotes s a" and "denotes x b"
  shows "(\<exists>r. sp_compare s x = Inr r \<and> (r < 0 \<longleftrightarrow> a < b) \<and> (r = 0 \<longleftrightarrow> a = b) \<and> (r > 0 \<longleftrightarrow> a > b)) \<and>
         starts_with s x = Inr (prefix b a) \<and> as_string s = Inr a \<and> CopyToStdString s = Inr a"
proof (intro conjI)
  show "\<exists>r. sp_compare s x = Inr r \<and> (r < 0 \<longleftrightarrow> a < b) \<and> (r = 0 \<longleftrightarrow> a = b) \<and> (r > 0 \<longleftrightarrow> a > b)"
    using memcmp_min_less [of a b] memcmp_min_greater [of a b] memcmp_min_eq [of a b]
    by (auto simp: sp_compare_def memcmp_denotes [OF assms] unat_min_length [OF assms]
        denotes_length [OF assms(1)] denotes_length [OF assms(2)])
  show "starts_with s x = Inr (prefix b a)"
    using memcmp_prefix [of b a] prefix_length_le [of b a]
    by (auto simp: starts_with_def denotes_length [OF assms(1)] denotes_length [OF assms(2)]
        memcmp_denotes [OF assms] unat_length [OF assms(2)])
  have "length a \<le> max_string_size"
    using denotes_length [OF assms(1)] sint_int32_bounds(2) [of "sp_length s"]
    by (simp add: max_string_size_def)
  then show "as_string s = Inr a" "CopyToStdString s = Inr a"
    using assms(1)
    by (simp_all add: as_string_def CopyToStdString_def make_string_def sp_size_def sp_data_def
        unat_length denotes_def)
qed

text \<open>
  Narrowing a view with \<^verbatim>\<open>remove_prefix\<close> and \<^verbatim>\<open>remove_suffix\<close> by no more
  than its length denotes the string without its first and last bytes.
\<close>

lemma denotes_remove_prefix:
  assumes d: "denotes s a" and n: "0 \<le> sint n" "sint n \<le> sint (sp_length s)"
  shows "denotes (remove_prefix s n) (drop (nat (sint n)) a)"
proof (cases "sp_ptr s")
  case NullPtr
  with d n show ?thesis
    by (auto simp: denotes_def remove_prefix_def sint_diff_int32 split: if_splits)
next
  case (Ptr blk off)
  let ?n = "nat (sint n)"
  have len: "int (length (drop ?n a)) = sint (sp_length s - n)"
    using d n sint_int32_bounds(2) [of "sp_length s"]
    by (simp add: denotes_def sint_diff_int32 of_nat_diff nat_le_iff)
  have "read_ptr (Ptr blk (off + sint n)) (length a - ?n) = Inr (drop ?n a)"
  proof (cases "?n < length a")
    case True
    with d Ptr have r: "0 \<le> off" "nat off + length a \<le> length blk" "a = take (length a) (drop (nat off) blk)"
      by (auto simp: denotes_def read_block_def split: if_splits)
    have "drop ?n a = take (length a - ?n) (drop (nat off + ?n) blk)"
      by (subst r(3)) (simp add: drop_take add.commute)
    with True r(1,2) n show ?thesis
      by (simp add: read_block_def nat_add_distrib)
  next
    case False
    then show ?thesis by simp
  qed
  with len Ptr show ?thesis
    by (simp add: denotes_def remove_prefix_def)
qed

lemma denotes_remove_suffix:
  assumes d: "denotes s a" and n: "0 \<le> sint n" "sint n \<le> sint (sp_length s)"
  shows "denotes (remove_suffix s n) (take (length a - nat (sint n)) a)"
proof -
  have "int (length (take (length a - nat (sint n)) a)) = sint (sp_length s - n)"
    using d n sint_int32_bounds(2) [of "sp_length s"]
    by (simp add: denotes_def sint_diff_int32 of_nat_diff nat_le_iff)
  with d show ?thesis
    by (simp add: denotes_def remove_suffix_def read_ptr_prefix)
qed

end
