(* ===== verification/Buffer_Spec.thy ===== *)
theory Buffer_Spec
  imports Airnet_Prelude
begin

text \<open>
  What the network layer relies on in a byte buffer, as an interface: the buffer denotes a
  byte string; \<open>append\<close> adds at its end, \<open>prepend\<close> at its front, \<open>retrieve\<close> removes from its
  front. \<open>room\<close> bounds what can still be appended and \<open>headroom\<close> what can still be
  prepended. The codec and the connection are proved against this interface; both buffer
  classes of the repository implement it.
\<close>

text \<open>The abstract behaviour: a first-in first-out stream of bytes.\<close>

datatype bufop = Put "byte list" | Take nat

fun fifo_run :: "byte list \<Rightarrow> bufop list \<Rightarrow> byte list option" where
  "fifo_run xs [] = Some xs"
| "fifo_run xs (Put bs # ops) = fifo_run (xs @ bs) ops"
| "fifo_run xs (Take n # ops) = (if n \<le> length xs then fifo_run (drop n xs) ops else None)"

fun total_put :: "bufop list \<Rightarrow> nat" where
  "total_put [] = 0"
| "total_put (Put bs # ops) = length bs + total_put ops"
| "total_put (Take n # ops) = total_put ops"

fun run_ops ::
  "('b \<Rightarrow> byte list \<Rightarrow> 'b result) \<Rightarrow> ('b \<Rightarrow> nat \<Rightarrow> 'b result) \<Rightarrow> 'b \<Rightarrow> bufop list \<Rightarrow> 'b result" where
  "run_ops app ret b [] = Inr b"
| "run_ops app ret b (Put bs # ops) = rbind (app b bs) (\<lambda>b'. run_ops app ret b' ops)"
| "run_ops app ret b (Take n # ops) = rbind (ret b n) (\<lambda>b'. run_ops app ret b' ops)"

locale byte_buffer =
  fixes invar :: "'b \<Rightarrow> bool"
    and contents :: "'b \<Rightarrow> byte list"
    and room :: "'b \<Rightarrow> nat"
    and headroom :: "'b \<Rightarrow> nat"
    and append :: "'b \<Rightarrow> byte list \<Rightarrow> 'b result"
    and prepend :: "'b \<Rightarrow> byte list \<Rightarrow> 'b result"
    and retrieve :: "'b \<Rightarrow> nat \<Rightarrow> 'b result"
  assumes append_law: "invar b \<Longrightarrow> length bs \<le> room b \<Longrightarrow>
      \<exists>b'. append b bs = Inr b' \<and> invar b' \<and> contents b' = contents b @ bs \<and>
           room b - length bs \<le> room b' \<and> min 8 (headroom b) \<le> headroom b'"
    and prepend_law: "invar b \<Longrightarrow> length bs \<le> headroom b \<Longrightarrow>
      \<exists>b'. prepend b bs = Inr b' \<and> invar b' \<and> contents b' = bs @ contents b \<and>
           room b' = room b \<and> headroom b' = headroom b - length bs"
    and retrieve_law: "invar b \<Longrightarrow> n \<le> length (contents b) \<Longrightarrow>
      \<exists>b'. retrieve b n = Inr b' \<and> invar b' \<and> contents b' = drop n (contents b) \<and>
           room b \<le> room b' \<and> min 8 (headroom b) \<le> headroom b'"
    and retrieve_beyond: "invar b \<Longrightarrow> length (contents b) < n \<Longrightarrow> n < 2 ^ 64 \<Longrightarrow>
      retrieve b n = Inl AssertFailed"
begin

lemma appendE:
  assumes "invar b" and "length bs \<le> room b"
  obtains b' where "append b bs = Inr b'" "invar b'" "contents b' = contents b @ bs"
    "room b - length bs \<le> room b'" "min 8 (headroom b) \<le> headroom b'"
  using append_law [OF assms] by blast

lemma prependE:
  assumes "invar b" and "length bs \<le> headroom b"
  obtains b' where "prepend b bs = Inr b'" "invar b'" "contents b' = bs @ contents b"
    "room b' = room b" "headroom b' = headroom b - length bs"
  using prepend_law [OF assms] by blast

lemma retrieveE:
  assumes "invar b" and "n \<le> length (contents b)"
  obtains b' where "retrieve b n = Inr b'" "invar b'" "contents b' = drop n (contents b)"
    "room b \<le> room b'" "min 8 (headroom b) \<le> headroom b'"
  using retrieve_law [OF assms] by blast

lemma run_refines_fifo:
  assumes "invar b" and "total_put ops \<le> room b" and "fifo_run (contents b) ops = Some xs"
  shows "\<exists>b'. run_ops append retrieve b ops = Inr b' \<and> invar b' \<and> contents b' = xs"
  using assms
proof (induction ops arbitrary: b rule: total_put.induct)
  case 1
  then show ?case by simp
next
  case (2 bs ops)
  have fits: "length bs \<le> room b"
    using "2.prems"(2) by simp
  obtain b' where b': "append b bs = Inr b'" "invar b'" "contents b' = contents b @ bs"
    "room b - length bs \<le> room b'"
    using "2.prems"(1) fits by (rule appendE)
  have "total_put ops \<le> room b'"
    using "2.prems"(2) b'(4) by simp
  with "2.IH" [of b'] "2.prems"(3) b' show ?case by simp
next
  case (3 n ops)
  then have n: "n \<le> length (contents b)"
    by (simp split: if_splits)
  obtain b' where b': "retrieve b n = Inr b'" "invar b'" "contents b' = drop n (contents b)"
    "room b \<le> room b'"
    using "3.prems"(1) n by (rule retrieveE)
  with "3.IH" [of b'] "3.prems" n show ?case by simp
qed

lemma run_rejects_underflow:
  assumes "invar b" and "total_put ops \<le> room b" and "fifo_run (contents b) ops = None"
    and "\<forall>n. Take n \<in> set ops \<longrightarrow> n < 2 ^ 64"
  shows "run_ops append retrieve b ops = Inl AssertFailed"
  using assms
proof (induction ops arbitrary: b rule: total_put.induct)
  case 1
  then show ?case by simp
next
  case (2 bs ops)
  have fits: "length bs \<le> room b"
    using "2.prems"(2) by simp
  obtain b' where b': "append b bs = Inr b'" "invar b'" "contents b' = contents b @ bs"
    "room b - length bs \<le> room b'"
    using "2.prems"(1) fits by (rule appendE)
  have "total_put ops \<le> room b'"
    using "2.prems"(2) b'(4) by simp
  with "2.IH" [of b'] "2.prems"(3,4) b' show ?case by simp
next
  case (3 n ops)
  show ?case
  proof (cases "n \<le> length (contents b)")
    case True
    obtain b' where b': "retrieve b n = Inr b'" "invar b'" "contents b' = drop n (contents b)"
      "room b \<le> room b'"
      using "3.prems"(1) True by (rule retrieveE)
    with "3.IH" [of b'] "3.prems" True show ?thesis by simp
  next
    case False
    with "3.prems" show ?thesis by (simp add: retrieve_beyond)
  qed
qed

end

end
