(* ===== verification/Buffer.thy ===== *)
theory Buffer
  imports Endian_Ex StringPiece Buffer_Spec
begin

text \<open>
  The byte buffer of the network layer (\<^verbatim>\<open>src/common/net/buffer.h\<close>, class \<^verbatim>\<open>Buffer\<close>): a
  vector of bytes with a reader and a writer index. A pointer into the buffer
  (\<^verbatim>\<open>peek()\<close>, \<^verbatim>\<open>BeginWrite()\<close>, the result of \<^verbatim>\<open>FindCRLF\<close>) is its offset from
  \<^verbatim>\<open>begin()\<close>. All index arithmetic is 64-bit and wraps around as \<^verbatim>\<open>size_t\<close> does.
\<close>

section \<open>std::vector\<close>

definition vector_max_size :: nat where
  "vector_max_size = 2 ^ 63 - 1"

definition vector_resize :: "byte list \<Rightarrow> size_t \<Rightarrow> byte list result" where
  "vector_resize v n =
     (if unat n > vector_max_size then Inl LengthError
      else Inr (take (unat n) v @ replicate (unat n - length v) 0))"

text \<open>\<^verbatim>\<open>std::search\<close>: the offset of the first occurrence, or the end of the range.\<close>

fun std_search :: "byte list \<Rightarrow> byte list \<Rightarrow> nat" where
  "std_search [] pat = 0"
| "std_search (x # xs) pat =
     (if take (length pat) (x # xs) = pat then 0 else Suc (std_search xs pat))"

text \<open>The bytes between two pointers into one block.\<close>

definition read_range :: "byte list \<Rightarrow> size_t \<Rightarrow> size_t \<Rightarrow> byte list result" where
  "read_range blk i j =
     (if unat i \<le> unat j \<and> unat j \<le> length blk then Inr (window blk (unat i) (unat j))
      else Inl OutOfBounds)"

section \<open>The class\<close>

record Buffer =
  buffer :: "byte list"
  readerIndex :: size_t
  writerIndex :: size_t

definition kCheapPrepend :: size_t where
  "kCheapPrepend = 8"

definition kInitialSize :: size_t where
  "kInitialSize = 1024"

definition kCRLF :: "byte list" where
  "kCRLF = [13, 10]"

definition ReadableBytes :: "Buffer \<Rightarrow> size_t" where
  "ReadableBytes b = writerIndex b - readerIndex b"

definition WritableBytes :: "Buffer \<Rightarrow> size_t" where
  "WritableBytes b = of_nat (length (buffer b)) - writerIndex b"

definition PrependableBytes :: "Buffer \<Rightarrow> size_t" where
  "PrependableBytes b = readerIndex b"

definition Buffer_ctor :: "Buffer result" where
  "Buffer_ctor =
     (let b = \<lparr>buffer = replicate (unat (kCheapPrepend + kInitialSize)) 0,
               readerIndex = kCheapPrepend, writerIndex = kCheapPrepend\<rparr> in
      rbind (ensure (ReadableBytes b = 0) AssertFailed) (\<lambda>_.
      rbind (ensure (WritableBytes b = kInitialSize) AssertFailed) (\<lambda>_.
      rbind (ensure (PrependableBytes b = kCheapPrepend) AssertFailed) (\<lambda>_. Inr b))))"

definition Swap :: "Buffer \<Rightarrow> Buffer \<Rightarrow> Buffer \<times> Buffer" where
  "Swap b rhs =
     (b\<lparr>buffer := buffer rhs, readerIndex := readerIndex rhs, writerIndex := writerIndex rhs\<rparr>,
      rhs\<lparr>buffer := buffer b, readerIndex := readerIndex b, writerIndex := writerIndex b\<rparr>)"

definition peek :: "Buffer \<Rightarrow> size_t" where
  "peek b = readerIndex b"

definition BeginWrite :: "Buffer \<Rightarrow> size_t" where
  "BeginWrite b = writerIndex b"

definition search_crlf :: "Buffer \<Rightarrow> size_t \<Rightarrow> size_t option result" where
  "search_crlf b start =
     rbind (read_range (buffer b) start (BeginWrite b)) (\<lambda>bs.
       let crlf = start + of_nat (std_search bs kCRLF) in
       Inr (if crlf = BeginWrite b then None else Some crlf))"

definition FindCRLF :: "Buffer \<Rightarrow> size_t option result" where
  "FindCRLF b = search_crlf b (peek b)"

definition FindCRLF_from :: "Buffer \<Rightarrow> size_t \<Rightarrow> size_t option result" where
  "FindCRLF_from b start =
     rbind (ensure (peek b \<le> start) AssertFailed) (\<lambda>_.
     rbind (ensure (start \<le> BeginWrite b) AssertFailed) (\<lambda>_. search_crlf b start))"

definition RetrieveAll :: "Buffer \<Rightarrow> Buffer" where
  "RetrieveAll b = b\<lparr>readerIndex := kCheapPrepend, writerIndex := kCheapPrepend\<rparr>"

definition Retrieve :: "Buffer \<Rightarrow> size_t \<Rightarrow> Buffer result" where
  "Retrieve b len =
     rbind (ensure (len \<le> ReadableBytes b) AssertFailed) (\<lambda>_.
       Inr (if len < ReadableBytes b then b\<lparr>readerIndex := readerIndex b + len\<rparr>
            else RetrieveAll b))"

definition RetrieveUntil :: "Buffer \<Rightarrow> size_t \<Rightarrow> Buffer result" where
  "RetrieveUntil b end_ptr =
     rbind (ensure (peek b \<le> end_ptr) AssertFailed) (\<lambda>_.
     rbind (ensure (end_ptr \<le> BeginWrite b) AssertFailed) (\<lambda>_.
       Retrieve b (end_ptr - peek b)))"

definition RetrieveInt32 :: "Buffer \<Rightarrow> Buffer result" where
  "RetrieveInt32 b = Retrieve b 4"

definition RetrieveInt16 :: "Buffer \<Rightarrow> Buffer result" where
  "RetrieveInt16 b = Retrieve b 2"

definition RetrieveInt8 :: "Buffer \<Rightarrow> Buffer result" where
  "RetrieveInt8 b = Retrieve b 1"

definition RetrieveAsString :: "Buffer \<Rightarrow> size_t \<Rightarrow> (byte list \<times> Buffer) result" where
  "RetrieveAsString b len =
     rbind (ensure (len \<le> ReadableBytes b) AssertFailed) (\<lambda>_.
     rbind (make_string (Ptr (buffer b) (int (unat (peek b)))) len) (\<lambda>str.
     rbind (Retrieve b len) (\<lambda>b'. Inr (str, b'))))"

definition RetrieveAllAsString :: "Buffer \<Rightarrow> (byte list \<times> Buffer) result" where
  "RetrieveAllAsString b = RetrieveAsString b (ReadableBytes b)"

text \<open>\<^verbatim>\<open>static_cast<int>\<close> keeps the low 32 bits of the size.\<close>

definition ToStringPiece :: "Buffer \<Rightarrow> StringPiece" where
  "ToStringPiece b =
     StringPiece_mem (Ptr (buffer b) (int (unat (peek b)))) (ucast (ReadableBytes b))"

definition HasWritten :: "Buffer \<Rightarrow> size_t \<Rightarrow> Buffer" where
  "HasWritten b len = b\<lparr>writerIndex := writerIndex b + len\<rparr>"

definition MakeSpace :: "Buffer \<Rightarrow> size_t \<Rightarrow> Buffer result" where
  "MakeSpace b len =
     (if WritableBytes b + PrependableBytes b < len + kCheapPrepend
      then rbind (vector_resize (buffer b) (writerIndex b + len)) (\<lambda>v. Inr (b\<lparr>buffer := v\<rparr>))
      else
        rbind (ensure (kCheapPrepend < readerIndex b) AssertFailed) (\<lambda>_.
          let readable = ReadableBytes b in
          rbind (read_range (buffer b) (readerIndex b) (writerIndex b)) (\<lambda>data.
          rbind (write_block (buffer b) (unat kCheapPrepend) data) (\<lambda>v.
            let b' = b\<lparr>buffer := v, readerIndex := kCheapPrepend,
                       writerIndex := kCheapPrepend + readable\<rparr> in
            rbind (ensure (readable = ReadableBytes b') AssertFailed) (\<lambda>_. Inr b')))))"

definition EnsureWritableBytes :: "Buffer \<Rightarrow> size_t \<Rightarrow> Buffer result" where
  "EnsureWritableBytes b len =
     rbind (if WritableBytes b < len then MakeSpace b len else Inr b) (\<lambda>b'.
     rbind (ensure (WritableBytes b' \<ge> len) AssertFailed) (\<lambda>_. Inr b'))"

definition Append :: "Buffer \<Rightarrow> cptr \<Rightarrow> size_t \<Rightarrow> Buffer result" where
  "Append b data len =
     rbind (EnsureWritableBytes b len) (\<lambda>b1.
     rbind (read_ptr data (unat len)) (\<lambda>bs.
     rbind (write_block (buffer b1) (unat (BeginWrite b1)) bs) (\<lambda>v.
       Inr (HasWritten (b1\<lparr>buffer := v\<rparr>) len))))"

definition Append_piece :: "Buffer \<Rightarrow> StringPiece \<Rightarrow> Buffer result" where
  "Append_piece b str = Append b (sp_data str) (int_to_size (sp_size str))"

definition AppendInt32 :: "endian \<Rightarrow> Buffer \<Rightarrow> int32 \<Rightarrow> Buffer result" where
  "AppendInt32 e b x =
     (let be32 = HostToNetwork32 e x in Append b (Ptr (object_bytes e be32) 0) 4)"

definition AppendInt16 :: "endian \<Rightarrow> Buffer \<Rightarrow> 16 word \<Rightarrow> Buffer result" where
  "AppendInt16 e b x =
     (let be16 = HostToNetwork16 e x in Append b (Ptr (object_bytes e be16) 0) 2)"

definition AppendInt8 :: "Buffer \<Rightarrow> 8 word \<Rightarrow> Buffer result" where
  "AppendInt8 b x = Append b (Ptr [x] 0) 1"

definition PeekInt32 :: "endian \<Rightarrow> Buffer \<Rightarrow> int32 result" where
  "PeekInt32 e b =
     rbind (ensure (ReadableBytes b \<ge> 4) AssertFailed) (\<lambda>_.
     rbind (read_block (buffer b) (unat (peek b)) 4) (\<lambda>bs.
       Inr (NetworkToHost32 e (object_word e bs))))"

definition PeekInt16 :: "endian \<Rightarrow> Buffer \<Rightarrow> 16 word result" where
  "PeekInt16 e b =
     rbind (ensure (ReadableBytes b \<ge> 2) AssertFailed) (\<lambda>_.
     rbind (read_block (buffer b) (unat (peek b)) 2) (\<lambda>bs.
       Inr (NetworkToHost16 e (object_word e bs))))"

definition PeekInt8 :: "Buffer \<Rightarrow> 8 word result" where
  "PeekInt8 b =
     rbind (ensure (ReadableBytes b \<ge> 1) AssertFailed) (\<lambda>_.
     rbind (read_block (buffer b) (unat (peek b)) 1) (\<lambda>bs. Inr (hd bs)))"

definition ReadInt32 :: "endian \<Rightarrow> Buffer \<Rightarrow> (int32 \<times> Buffer) result" where
  "ReadInt32 e b =
     rbind (PeekInt32 e b) (\<lambda>x. rbind (RetrieveInt32 b) (\<lambda>b'. Inr (x, b')))"

definition ReadInt16 :: "endian \<Rightarrow> Buffer \<Rightarrow> (16 word \<times> Buffer) result" where
  "ReadInt16 e b =
     rbind (PeekInt16 e b) (\<lambda>x. rbind (RetrieveInt16 b) (\<lambda>b'. Inr (x, b')))"

definition ReadInt8 :: "Buffer \<Rightarrow> (8 word \<times> Buffer) result" where
  "ReadInt8 b =
     rbind (PeekInt8 b) (\<lambda>x. rbind (RetrieveInt8 b) (\<lambda>b'. Inr (x, b')))"

definition Prepend :: "Buffer \<Rightarrow> cptr \<Rightarrow> size_t \<Rightarrow> Buffer result" where
  "Prepend b data len =
     rbind (ensure (len \<le> PrependableBytes b) AssertFailed) (\<lambda>_.
       let b1 = b\<lparr>readerIndex := readerIndex b - len\<rparr> in
       rbind (read_ptr data (unat len)) (\<lambda>bs.
       rbind (write_block (buffer b1) (unat (readerIndex b1)) bs) (\<lambda>v.
         Inr (b1\<lparr>buffer := v\<rparr>))))"

definition PrependInt32 :: "endian \<Rightarrow> Buffer \<Rightarrow> int32 \<Rightarrow> Buffer result" where
  "PrependInt32 e b x =
     (let be32 = HostToNetwork32 e x in Prepend b (Ptr (object_bytes e be32) 0) 4)"

definition PrependInt16 :: "endian \<Rightarrow> Buffer \<Rightarrow> 16 word \<Rightarrow> Buffer result" where
  "PrependInt16 e b x =
     (let be16 = HostToNetwork16 e x in Prepend b (Ptr (object_bytes e be16) 0) 2)"

definition PrependInt8 :: "Buffer \<Rightarrow> 8 word \<Rightarrow> Buffer result" where
  "PrependInt8 b x = Prepend b (Ptr [x] 0) 1"

definition Shrink :: "Buffer \<Rightarrow> size_t \<Rightarrow> Buffer result" where
  "Shrink b reserve =
     rbind Buffer_ctor (\<lambda>other.
     rbind (EnsureWritableBytes other (ReadableBytes b + reserve)) (\<lambda>other1.
     rbind (Append_piece other1 (ToStringPiece b)) (\<lambda>other2.
       Inr (fst (Swap b other2)))))"

section \<open>Invariant and contents\<close>

definition buffer_wf :: "Buffer \<Rightarrow> bool" where
  "buffer_wf b \<longleftrightarrow> 8 \<le> unat (writerIndex b) \<and> unat (readerIndex b) \<le> unat (writerIndex b) \<and>
     unat (writerIndex b) \<le> length (buffer b) \<and> length (buffer b) \<le> vector_max_size"

definition content :: "Buffer \<Rightarrow> byte list" where
  "content b = window (buffer b) (unat (readerIndex b)) (unat (writerIndex b))"

lemma buffer_wf_less: "buffer_wf b \<Longrightarrow> length (buffer b) < 2 ^ 63"
  by (simp add: buffer_wf_def vector_max_size_def)

lemma kCheapPrepend_unat [simp]: "unat kCheapPrepend = 8"
  by (simp add: kCheapPrepend_def)

lemma unat_ReadableBytes:
  assumes "buffer_wf b"
  shows "unat (ReadableBytes b) = unat (writerIndex b) - unat (readerIndex b)"
  using assms by (simp add: buffer_wf_def ReadableBytes_def unat_sub word_le_nat_alt)

lemma length_content: "buffer_wf b \<Longrightarrow> length (content b) = unat (ReadableBytes b)"
  by (simp add: content_def unat_ReadableBytes buffer_wf_def)

lemma unat_length_buffer:
  "buffer_wf b \<Longrightarrow> unat (of_nat (length (buffer b)) :: size_t) = length (buffer b)"
  using buffer_wf_less [of b] by simp

lemma unat_WritableBytes:
  assumes "buffer_wf b"
  shows "unat (WritableBytes b) = length (buffer b) - unat (writerIndex b)"
proof -
  have "writerIndex b \<le> of_nat (length (buffer b))"
    using assms unat_length_buffer [OF assms] by (simp add: word_le_nat_alt buffer_wf_def)
  then show ?thesis
    using unat_length_buffer [OF assms] by (simp add: WritableBytes_def unat_sub)
qed

lemma unat_PrependableBytes: "unat (PrependableBytes b) = unat (readerIndex b)"
  by (simp add: PrependableBytes_def)

lemmas unat_sizes = unat_ReadableBytes unat_WritableBytes unat_PrependableBytes

section \<open>Reading\<close>

lemma Swap_eq [simp]: "Swap b rhs = (rhs, b)"
  by (simp add: Swap_def)

lemma Buffer_ctor_Inr:
  "Buffer_ctor = Inr \<lparr>buffer = replicate 1032 0, readerIndex = 8, writerIndex = 8\<rparr>"
  by (simp add: Buffer_ctor_def ReadableBytes_def WritableBytes_def PrependableBytes_def
      kCheapPrepend_def kInitialSize_def)

lemma RetrieveAll_wf [simp]: "buffer_wf b \<Longrightarrow> buffer_wf (RetrieveAll b)"
  by (simp add: buffer_wf_def RetrieveAll_def)

lemma RetrieveAll_content [simp]: "content (RetrieveAll b) = []"
  by (simp add: content_def RetrieveAll_def)

lemma advance_reader:
  assumes "buffer_wf b" and "unat len \<le> unat (ReadableBytes b)"
  shows "unat (readerIndex b + len) = unat (readerIndex b) + unat len"
    and "buffer_wf (b\<lparr>readerIndex := readerIndex b + len\<rparr>)"
    and "content (b\<lparr>readerIndex := readerIndex b + len\<rparr>) = drop (unat len) (content b)"
proof -
  have "unat (readerIndex b) + unat len \<le> unat (writerIndex b)"
    using assms by (auto simp: unat_ReadableBytes buffer_wf_def)
  moreover have "unat (writerIndex b) < 2 ^ 63"
    using assms(1) buffer_wf_less [of b] by (simp add: buffer_wf_def)
  ultimately show r: "unat (readerIndex b + len) = unat (readerIndex b) + unat len"
    by (simp add: unat_size_add)
  show "buffer_wf (b\<lparr>readerIndex := readerIndex b + len\<rparr>)"
    using assms r by (auto simp: buffer_wf_def unat_ReadableBytes)
  show "content (b\<lparr>readerIndex := readerIndex b + len\<rparr>) = drop (unat len) (content b)"
    by (simp add: content_def r drop_window)
qed

lemma Retrieve_Inr:
  assumes "buffer_wf b" and "unat len \<le> length (content b)"
  shows "\<exists>b'. Retrieve b len = Inr b' \<and> buffer_wf b' \<and> content b' = drop (unat len) (content b) \<and>
     unat (writerIndex b') \<le> unat (writerIndex b) \<and>
     min 8 (unat (readerIndex b)) \<le> unat (readerIndex b')"
proof (cases "unat len = length (content b)")
  case True
  then have "Retrieve b len = Inr (RetrieveAll b)"
    using length_content [OF assms(1)] by (simp add: Retrieve_def word_le_nat_alt word_less_nat_alt)
  with True assms(1) show ?thesis
    by (simp add: RetrieveAll_def content_def) (simp add: buffer_wf_def)
next
  case False
  then have "Retrieve b len = Inr (b\<lparr>readerIndex := readerIndex b + len\<rparr>)"
    using assms length_content [OF assms(1)]
    by (simp add: Retrieve_def word_le_nat_alt word_less_nat_alt)
  then show ?thesis
    using advance_reader [of b len] assms length_content [OF assms(1)] by simp
qed

lemma Retrieve_beyond:
  "buffer_wf b \<Longrightarrow> length (content b) < unat len \<Longrightarrow> Retrieve b len = Inl AssertFailed"
  by (simp add: Retrieve_def length_content word_le_nat_alt)

section \<open>Making room\<close>

lemma vector_resize_grow:
  assumes "length v \<le> unat n" and "unat n \<le> vector_max_size"
  shows "vector_resize v n = Inr (v @ replicate (unat n - length v) 0)"
  using assms by (simp add: vector_resize_def)

lemma MakeSpace_resize:
  assumes wf: "buffer_wf b" and fits: "unat (writerIndex b) + unat len \<le> vector_max_size"
    and short: "unat (WritableBytes b) < unat len"
    and cond: "WritableBytes b + PrependableBytes b < len + kCheapPrepend"
  shows "\<exists>b'. MakeSpace b len = Inr b' \<and> buffer_wf b' \<and> content b' = content b \<and>
     unat len \<le> unat (WritableBytes b') \<and>
     readerIndex b' = readerIndex b \<and> writerIndex b' = writerIndex b"
proof -
  have sum: "unat (writerIndex b + len) = unat (writerIndex b) + unat len"
    using fits by (intro unat_size_add) (simp add: vector_max_size_def)
  have grow: "length (buffer b) \<le> unat (writerIndex b) + unat len"
    using short wf by (simp add: unat_WritableBytes)
  define b' where "b' = b\<lparr>buffer := buffer b @
      replicate (unat (writerIndex b) + unat len - length (buffer b)) 0\<rparr>"
  have "MakeSpace b len = Inr b'"
    using cond fits grow by (simp add: MakeSpace_def b'_def vector_resize_grow sum)
  moreover have wf': "buffer_wf b'"
    using wf fits grow by (simp add: buffer_wf_def b'_def)
  moreover have "content b' = content b"
    using wf by (simp add: content_def b'_def buffer_wf_def)
  moreover have "unat len \<le> unat (WritableBytes b')"
    using unat_WritableBytes [OF wf'] grow by (simp add: b'_def)
  ultimately show ?thesis
    by (simp add: b'_def)
qed

lemma MakeSpace_move:
  assumes wf: "buffer_wf b" and fits: "unat (writerIndex b) + unat len \<le> vector_max_size"
    and short: "unat (WritableBytes b) < unat len"
    and cond: "\<not> WritableBytes b + PrependableBytes b < len + kCheapPrepend"
  shows "\<exists>b'. MakeSpace b len = Inr b' \<and> buffer_wf b' \<and> content b' = content b \<and>
     unat len \<le> unat (WritableBytes b') \<and>
     unat (readerIndex b') = 8 \<and> unat (writerIndex b') \<le> unat (writerIndex b)"
proof -
  let ?r = "unat (readerIndex b)" and ?w = "unat (writerIndex b)" and ?n = "length (buffer b)"
  have lim: "8 \<le> ?w" "?r \<le> ?w" "?w \<le> ?n" "?n < 2 ^ 63"
    using wf buffer_wf_less [OF wf] by (simp_all add: buffer_wf_def)
  have space: "unat (WritableBytes b + PrependableBytes b) = ?n - ?w + ?r"
    using lim wf by (subst unat_size_add) (simp_all add: unat_WritableBytes unat_PrependableBytes)
  have need: "unat (len + kCheapPrepend) = unat len + 8"
    using fits by (subst unat_size_add) (simp_all add: vector_max_size_def)
  have enough: "unat len + 8 \<le> ?n - ?w + ?r"
    using cond space need by (simp add: word_less_nat_alt)
  then have r8: "8 < ?r"
    using short wf by (simp add: unat_WritableBytes)
  have rd: "unat (ReadableBytes b) = ?w - ?r"
    using wf by (rule unat_ReadableBytes)
  have w': "unat (kCheapPrepend + ReadableBytes b) = 8 + (?w - ?r)"
    using lim rd by (subst unat_size_add) simp_all
  define b' where "b' = b\<lparr>buffer := overwrite (buffer b) 8 (content b),
      readerIndex := kCheapPrepend, writerIndex := kCheapPrepend + ReadableBytes b\<rparr>"
  have len_c: "length (content b) = ?w - ?r"
    using length_content [OF wf] rd by simp
  have "MakeSpace b len = Inr b'"
    using cond r8 lim len_c
    by (simp add: MakeSpace_def Let_def read_range_def write_block_def word_less_nat_alt
        ReadableBytes_def b'_def content_def [symmetric])
  moreover have wf': "buffer_wf b'"
    using wf lim r8 len_c w' by (auto simp: buffer_wf_def b'_def)
  moreover have "content b' = content b"
  proof -
    have "8 + length (content b) \<le> length (buffer b)"
      using lim r8 len_c by linarith
    moreover have "content b' = window (overwrite (buffer b) 8 (content b)) 8 (8 + length (content b))"
      by (subst content_def) (simp add: b'_def w' len_c)
    ultimately show ?thesis by (simp add: window_overwrite_at)
  qed
  moreover have "unat len \<le> unat (WritableBytes b')"
    using unat_WritableBytes [OF wf'] w' enough lim r8 len_c by (simp add: b'_def)
  ultimately show ?thesis
    using w' r8 lim by (simp add: b'_def)
qed

lemma EnsureWritableBytes_Inr:
  assumes wf: "buffer_wf b" and fits: "unat (writerIndex b) + unat len \<le> vector_max_size"
  shows "\<exists>b'. EnsureWritableBytes b len = Inr b' \<and> buffer_wf b' \<and> content b' = content b \<and>
     unat len \<le> unat (WritableBytes b') \<and> unat (writerIndex b') \<le> unat (writerIndex b) \<and>
     min 8 (unat (readerIndex b)) \<le> unat (readerIndex b')"
proof (cases "unat (WritableBytes b) < unat len")
  case False
  with wf show ?thesis
    by (simp add: EnsureWritableBytes_def word_less_nat_alt word_le_nat_alt not_less)
next
  case True
  obtain b' where b': "MakeSpace b len = Inr b'" "buffer_wf b'" "content b' = content b"
    "unat len \<le> unat (WritableBytes b')" "unat (writerIndex b') \<le> unat (writerIndex b)"
    "min 8 (unat (readerIndex b)) \<le> unat (readerIndex b')"
  proof (cases "WritableBytes b + PrependableBytes b < len + kCheapPrepend")
    case True
    from MakeSpace_resize [OF wf fits \<open>unat (WritableBytes b) < unat len\<close> True] that
    show ?thesis by auto
  next
    case False
    from MakeSpace_move [OF wf fits \<open>unat (WritableBytes b) < unat len\<close> False] that
    show ?thesis by auto
  qed
  with True show ?thesis
    by (simp add: EnsureWritableBytes_def word_less_nat_alt word_le_nat_alt)
qed

section \<open>Writing\<close>

lemma read_ptr_length: "read_ptr p n = Inr bs \<Longrightarrow> length bs = n"
  by (cases p) (auto simp: read_block_def split: if_splits)

lemma read_ptr_whole [simp]: "read_ptr (Ptr bs 0) (length bs) = Inr bs"
  by (simp add: read_block_def)

lemma write_tail:
  assumes wf: "buffer_wf b" and room: "unat len \<le> unat (WritableBytes b)" and bs: "length bs = unat len"
  defines "b' \<equiv> HasWritten (b\<lparr>buffer := overwrite (buffer b) (unat (writerIndex b)) bs\<rparr>) len"
  shows "write_block (buffer b) (unat (writerIndex b)) bs =
           Inr (overwrite (buffer b) (unat (writerIndex b)) bs)"
    and "buffer_wf b'" and "content b' = content b @ bs"
    and "unat (writerIndex b') = unat (writerIndex b) + length bs"
    and "readerIndex b' = readerIndex b"
proof -
  have fit: "unat (writerIndex b) + length bs \<le> length (buffer b)"
    using room wf bs by (auto simp: unat_WritableBytes buffer_wf_def)
  then show "write_block (buffer b) (unat (writerIndex b)) bs =
           Inr (overwrite (buffer b) (unat (writerIndex b)) bs)"
    by (rule write_block_Inr)
  show w': "unat (writerIndex b') = unat (writerIndex b) + length bs"
    using fit buffer_wf_less [OF wf] bs by (simp add: b'_def HasWritten_def unat_size_add)
  show r': "readerIndex b' = readerIndex b"
    by (simp add: b'_def HasWritten_def)
  show "buffer_wf b'"
    using wf fit w' r' by (simp add: buffer_wf_def) (simp add: b'_def HasWritten_def)
  have "content b' = window (buffer b') (unat (readerIndex b)) (unat (writerIndex b)) @
      window (buffer b') (unat (writerIndex b)) (unat (writerIndex b) + length bs)"
    using wf w' r' by (simp add: content_def window_split [symmetric] buffer_wf_def)
  also have "\<dots> = content b @ bs"
    using fit by (simp add: b'_def HasWritten_def content_def window_overwrite_below window_overwrite_at)
  finally show "content b' = content b @ bs" .
qed

lemma Append_Inr:
  assumes wf: "buffer_wf b" and fits: "unat (writerIndex b) + unat len \<le> vector_max_size"
    and data: "read_ptr data (unat len) = Inr bs"
  shows "\<exists>b'. Append b data len = Inr b' \<and> buffer_wf b' \<and> content b' = content b @ bs \<and>
     unat (writerIndex b') \<le> unat (writerIndex b) + length bs \<and>
     min 8 (unat (readerIndex b)) \<le> unat (readerIndex b')"
proof -
  obtain b1 where b1: "EnsureWritableBytes b len = Inr b1" "buffer_wf b1" "content b1 = content b"
    "unat len \<le> unat (WritableBytes b1)" "unat (writerIndex b1) \<le> unat (writerIndex b)"
    "min 8 (unat (readerIndex b)) \<le> unat (readerIndex b1)"
    using EnsureWritableBytes_Inr [OF wf fits] by blast
  note tail = write_tail [OF b1(2,4) read_ptr_length [OF data]]
  show ?thesis
    using b1 data tail by (simp add: Append_def BeginWrite_def)
qed

lemma Prepend_Inr:
  assumes wf: "buffer_wf b" and room: "unat len \<le> unat (readerIndex b)"
    and data: "read_ptr data (unat len) = Inr bs"
  shows "\<exists>b'. Prepend b data len = Inr b' \<and> buffer_wf b' \<and> content b' = bs @ content b \<and>
     writerIndex b' = writerIndex b \<and> unat (readerIndex b') = unat (readerIndex b) - length bs"
proof -
  let ?r = "unat (readerIndex b)" and ?w = "unat (writerIndex b)"
  have len: "length bs = unat len"
    using data by (rule read_ptr_length)
  have r': "unat (readerIndex b - len) = ?r - length bs"
    using room len by (simp add: unat_sub word_le_nat_alt)
  define b' where "b' = b\<lparr>readerIndex := readerIndex b - len,
      buffer := overwrite (buffer b) (?r - length bs) bs\<rparr>"
  have lim: "length bs \<le> ?r" "?r \<le> ?w" "?w \<le> length (buffer b)"
    using room len wf by (simp_all add: buffer_wf_def)
  then have fit: "?r - length bs + length bs \<le> length (buffer b)"
    by linarith
  have "Prepend b data len = Inr b'"
    using room data len r' write_block_Inr [OF fit]
    by (simp add: Prepend_def PrependableBytes_def word_le_nat_alt b'_def)
  moreover have "buffer_wf b'"
    using wf lim fit r' by (auto simp: buffer_wf_def b'_def)
  moreover have "content b' = bs @ content b"
  proof -
    have "content b' = window (buffer b') (?r - length bs) ?r @ window (buffer b') ?r ?w"
      using lim r' by (subst content_def) (simp add: b'_def window_split [symmetric])
    also have "window (buffer b') ?r ?w = content b"
      using lim by (simp add: b'_def content_def window_overwrite_above)
    also have "window (buffer b') (?r - length bs) ?r = bs"
      using window_overwrite_at [OF fit] lim(1) by (simp add: b'_def)
    finally show ?thesis .
  qed
  ultimately show ?thesis
    using r' by (simp add: b'_def)
qed

section \<open>The buffer implements the interface\<close>

definition append_bytes :: "Buffer \<Rightarrow> byte list \<Rightarrow> Buffer result" where
  "append_bytes b bs = Append b (Ptr bs 0) (of_nat (length bs))"

definition prepend_bytes :: "Buffer \<Rightarrow> byte list \<Rightarrow> Buffer result" where
  "prepend_bytes b bs = Prepend b (Ptr bs 0) (of_nat (length bs))"

definition retrieve_bytes :: "Buffer \<Rightarrow> nat \<Rightarrow> Buffer result" where
  "retrieve_bytes b n = Retrieve b (of_nat n)"

definition buffer_room :: "Buffer \<Rightarrow> nat" where
  "buffer_room b = vector_max_size - unat (writerIndex b)"

definition buffer_headroom :: "Buffer \<Rightarrow> nat" where
  "buffer_headroom b = unat (readerIndex b)"

lemma buffer_room_fits:
  assumes "buffer_wf b" and "n \<le> buffer_room b"
  shows "n < 2 ^ 64" and "unat (writerIndex b) + n \<le> vector_max_size"
  using assms by (auto simp: buffer_wf_def buffer_room_def vector_max_size_def)

lemma content_length_less: "buffer_wf b \<Longrightarrow> length (content b) < 2 ^ 64"
  using length_content [of b] unat_size_less [of "ReadableBytes b"] by simp

interpretation airbuf: byte_buffer buffer_wf content buffer_room buffer_headroom
  append_bytes prepend_bytes retrieve_bytes
proof unfold_locales
  fix b :: Buffer and bs :: "byte list"
  assume wf: "buffer_wf b" and fit: "length bs \<le> buffer_room b"
  have n: "unat (of_nat (length bs) :: size_t) = length bs"
    using buffer_room_fits(1) [OF wf fit] by simp
  have "\<exists>b'. append_bytes b bs = Inr b' \<and> buffer_wf b' \<and> content b' = content b @ bs \<and>
     unat (writerIndex b') \<le> unat (writerIndex b) + length bs \<and>
     min 8 (unat (readerIndex b)) \<le> unat (readerIndex b')"
    using Append_Inr [OF wf, of "of_nat (length bs)" "Ptr bs 0" bs] buffer_room_fits(2) [OF wf fit] n
    by (simp add: append_bytes_def del: read_ptr.simps)
  then show "\<exists>b'. append_bytes b bs = Inr b' \<and> buffer_wf b' \<and> content b' = content b @ bs \<and>
      buffer_room b - length bs \<le> buffer_room b' \<and> min 8 (buffer_headroom b) \<le> buffer_headroom b'"
    by (auto simp: buffer_room_def buffer_headroom_def)
next
  fix b :: Buffer and bs :: "byte list"
  assume wf: "buffer_wf b" and fit: "length bs \<le> buffer_headroom b"
  have "length bs < 2 ^ 64"
    using fit unat_size_less [of "readerIndex b"] by (simp add: buffer_headroom_def)
  then have n: "unat (of_nat (length bs) :: size_t) = length bs"
    by simp
  show "\<exists>b'. prepend_bytes b bs = Inr b' \<and> buffer_wf b' \<and> content b' = bs @ content b \<and>
      buffer_room b' = buffer_room b \<and> buffer_headroom b' = buffer_headroom b - length bs"
    using Prepend_Inr [OF wf, of "of_nat (length bs)" "Ptr bs 0" bs] fit n
    by (auto simp: prepend_bytes_def buffer_room_def buffer_headroom_def simp del: read_ptr.simps)
next
  fix b :: Buffer and n :: nat
  assume wf: "buffer_wf b" and n: "n \<le> length (content b)"
  then have "unat (of_nat n :: size_t) = n"
    using content_length_less [OF wf] by simp
  then show "\<exists>b'. retrieve_bytes b n = Inr b' \<and> buffer_wf b' \<and> content b' = drop n (content b) \<and>
      buffer_room b \<le> buffer_room b' \<and> min 8 (buffer_headroom b) \<le> buffer_headroom b'"
    using Retrieve_Inr [OF wf, of "of_nat n"] n
    by (auto simp: retrieve_bytes_def buffer_room_def buffer_headroom_def)
next
  fix b :: Buffer and n :: nat
  assume "buffer_wf b" and "length (content b) < n" and "n < 2 ^ 64"
  then show "retrieve_bytes b n = Inl AssertFailed"
    by (simp add: retrieve_bytes_def Retrieve_beyond)
qed

section \<open>Integers in network byte order\<close>

lemma read_front:
  assumes "buffer_wf b" and "n \<le> length (content b)"
  shows "read_block (buffer b) (unat (peek b)) n = Inr (take n (content b))"
proof -
  have "unat (readerIndex b) + n \<le> unat (writerIndex b)"
    using assms length_content [OF assms(1)] by (auto simp: unat_ReadableBytes buffer_wf_def)
  then show ?thesis
    using assms(1) by (simp add: read_block_def peek_def content_def take_window buffer_wf_def)
      (simp add: window_def)
qed

lemma PeekInt32_Inr:
  assumes "buffer_wf b" and "4 \<le> length (content b)"
  shows "PeekInt32 e b = Inr (be_word (take 4 (content b)))"
  using assms length_content [OF assms(1)]
  by (simp add: PeekInt32_def word_le_nat_alt read_front)

lemma PeekInt16_Inr:
  assumes "buffer_wf b" and "2 \<le> length (content b)"
  shows "PeekInt16 e b = Inr (be_word (take 2 (content b)))"
  using assms length_content [OF assms(1)]
  by (simp add: PeekInt16_def word_le_nat_alt read_front)

lemma PeekInt8_Inr:
  assumes "buffer_wf b" and "1 \<le> length (content b)"
  shows "PeekInt8 b = Inr (hd (content b))"
  using assms length_content [OF assms(1)]
  by (cases "content b") (simp_all add: PeekInt8_def word_le_nat_alt read_front)

lemma PeekInt32_short: "buffer_wf b \<Longrightarrow> length (content b) < 4 \<Longrightarrow> PeekInt32 e b = Inl AssertFailed"
  using length_content [of b] by (simp add: PeekInt32_def word_le_nat_alt)

lemma object_bytes_append:
  "AppendInt32 e b x = append_bytes b (be_bytes x)"
  "AppendInt16 e b y = append_bytes b (be_bytes y)"
  "AppendInt8 b z = append_bytes b [z]"
  by (simp_all add: AppendInt32_def AppendInt16_def AppendInt8_def append_bytes_def)

lemma object_bytes_prepend:
  "PrependInt32 e b x = prepend_bytes b (be_bytes x)"
  "PrependInt16 e b y = prepend_bytes b (be_bytes y)"
  "PrependInt8 b z = prepend_bytes b [z]"
  by (simp_all add: PrependInt32_def PrependInt16_def PrependInt8_def prepend_bytes_def)

lemma Retrieve_retrieve_bytes:
  "RetrieveInt32 b = retrieve_bytes b 4"
  "RetrieveInt16 b = retrieve_bytes b 2"
  "RetrieveInt8 b = retrieve_bytes b 1"
  by (simp_all add: RetrieveInt32_def RetrieveInt16_def RetrieveInt8_def retrieve_bytes_def)

lemma ReadInt32_Inr:
  assumes "buffer_wf b" and "content b = be_bytes x @ rest"
  shows "\<exists>b'. ReadInt32 e b = Inr (x, b') \<and> buffer_wf b' \<and> content b' = rest"
proof -
  have "4 \<le> length (content b)"
    using assms(2) by simp
  then obtain b' where "retrieve_bytes b 4 = Inr b'" "buffer_wf b'" "content b' = drop 4 (content b)"
    using assms(1) airbuf.retrieveE by blast
  with assms show ?thesis
    by (simp add: ReadInt32_def PeekInt32_Inr Retrieve_retrieve_bytes)
qed

lemma ReadInt16_Inr:
  assumes "buffer_wf b" and "content b = be_bytes x @ rest"
  shows "\<exists>b'. ReadInt16 e b = Inr (x, b') \<and> buffer_wf b' \<and> content b' = rest"
proof -
  have "2 \<le> length (content b)"
    using assms(2) by simp
  then obtain b' where "retrieve_bytes b 2 = Inr b'" "buffer_wf b'" "content b' = drop 2 (content b)"
    using assms(1) airbuf.retrieveE by blast
  with assms show ?thesis
    by (simp add: ReadInt16_def PeekInt16_Inr Retrieve_retrieve_bytes)
qed

lemma ReadInt8_Inr:
  assumes "buffer_wf b" and "content b = x # rest"
  shows "\<exists>b'. ReadInt8 b = Inr (x, b') \<and> buffer_wf b' \<and> content b' = rest"
proof -
  have "1 \<le> length (content b)"
    using assms(2) by simp
  then obtain b' where "retrieve_bytes b 1 = Inr b'" "buffer_wf b'" "content b' = drop 1 (content b)"
    using assms(1) airbuf.retrieveE by blast
  with assms show ?thesis
    by (simp add: ReadInt8_def PeekInt8_Inr Retrieve_retrieve_bytes)
qed

section \<open>Searching for a line end\<close>

lemma std_search_le: "std_search xs pat \<le> length xs"
  by (induction xs) auto

lemma std_search_first:
  "j < std_search xs pat \<Longrightarrow> take (length pat) (drop j xs) \<noteq> pat"
proof (induction xs arbitrary: j)
  case Nil
  then show ?case by simp
next
  case (Cons x xs)
  then show ?case
    by (cases j) (auto split: if_splits)
qed

lemma std_search_found:
  "std_search xs pat < length xs \<Longrightarrow> take (length pat) (drop (std_search xs pat) xs) = pat"
  by (induction xs) (auto split: if_splits)

definition crlf_at :: "byte list \<Rightarrow> nat \<Rightarrow> bool" where
  "crlf_at xs i \<longleftrightarrow> take 2 (drop i xs) = kCRLF"

lemma crlf_at_less: "crlf_at xs i \<Longrightarrow> i < length xs"
  by (cases "i < length xs") (simp_all add: crlf_at_def kCRLF_def)

lemma search_crlf_Inr:
  assumes wf: "buffer_wf b" and start: "unat (readerIndex b) \<le> unat start" "unat start \<le> unat (writerIndex b)"
  defines "tail \<equiv> window (buffer b) (unat start) (unat (writerIndex b))"
  shows "search_crlf b start =
     Inr (if std_search tail kCRLF = length tail then None
          else Some (start + of_nat (std_search tail kCRLF)))"
proof -
  have len: "length tail = unat (writerIndex b) - unat start"
    using wf by (simp add: tail_def buffer_wf_def)
  let ?i = "std_search tail kCRLF"
  have small: "unat start + ?i < 2 ^ 64"
    using std_search_le [of tail kCRLF] len start(2) unat_size_less [of "writerIndex b"] by linarith
  then have "unat (of_nat ?i :: size_t) = ?i"
    by simp
  with small have "unat (start + of_nat ?i) = unat start + ?i"
    by (simp add: unat_size_add)
  then have "start + of_nat ?i = writerIndex b \<longleftrightarrow> ?i = length tail"
    using len start(2) std_search_le [of tail kCRLF] by (auto simp: word_unat_eq_iff)
  with wf start show ?thesis
    by (simp add: search_crlf_def read_range_def BeginWrite_def Let_def buffer_wf_def tail_def)
qed

section \<open>Shrinking\<close>

definition fresh_buffer :: Buffer where
  "fresh_buffer = \<lparr>buffer = replicate 1032 0, readerIndex = 8, writerIndex = 8\<rparr>"

lemma Buffer_ctor_fresh: "Buffer_ctor = Inr fresh_buffer"
  by (simp add: Buffer_ctor_Inr fresh_buffer_def)

lemma fresh_buffer_wf [simp]: "buffer_wf fresh_buffer"
  by (simp add: buffer_wf_def fresh_buffer_def vector_max_size_def)

lemma fresh_buffer_content [simp]: "content fresh_buffer = []"
  by (simp add: content_def fresh_buffer_def)

lemma fresh_buffer_indices [simp]:
  "readerIndex fresh_buffer = 8" "writerIndex fresh_buffer = 8"
  by (simp_all add: fresh_buffer_def)

lemma fresh_buffer_sizes [simp]:
  "buffer_room fresh_buffer = 2 ^ 63 - 9" "buffer_headroom fresh_buffer = 8"
  by (simp_all add: buffer_room_def buffer_headroom_def fresh_buffer_def vector_max_size_def)

lemma EnsureWritableBytes_fresh:
  assumes "8 + unat len \<le> vector_max_size"
  shows "EnsureWritableBytes fresh_buffer len =
     Inr (fresh_buffer\<lparr>buffer := replicate (max 1032 (8 + unat len)) 0\<rparr>)"
proof -
  have wr: "WritableBytes fresh_buffer = 1024" and pr: "PrependableBytes fresh_buffer = 8"
    by (simp_all add: WritableBytes_def PrependableBytes_def fresh_buffer_def)
  have sum: "unat (8 + len) = 8 + unat len"
    using assms unat_size_add [of 8 len] by (simp add: vector_max_size_def)
  show ?thesis
  proof (cases "1024 < unat len")
    case True
    then have grow: "unat (1032 :: size_t) < unat (len + kCheapPrepend)"
    proof -
      have "unat (1032 :: size_t) = 1032"
        by (rule unat_size_numeral) simp
      then show ?thesis
        using True sum by (simp add: kCheapPrepend_def add.commute)
    qed
    have "vector_resize (buffer fresh_buffer) (8 + len) = Inr (replicate (8 + unat len) 0)"
      using True assms sum
      by (simp add: vector_resize_def fresh_buffer_def replicate_add [symmetric])
    then have make: "MakeSpace fresh_buffer len = Inr (fresh_buffer\<lparr>buffer := replicate (8 + unat len) 0\<rparr>)"
      using grow by (simp add: MakeSpace_def wr pr word_less_nat_alt)
    have "WritableBytes (fresh_buffer\<lparr>buffer := replicate (8 + unat len) 0\<rparr>) = len"
      by (simp add: WritableBytes_def fresh_buffer_def)
    then show ?thesis
      using True make by (simp add: EnsureWritableBytes_def wr word_less_nat_alt max_def)
  next
    case False
    then show ?thesis
      by (simp add: EnsureWritableBytes_def wr word_less_nat_alt word_le_nat_alt max_def)
         (simp add: fresh_buffer_def)
  qed
qed

lemma denotes_ToStringPiece:
  assumes "buffer_wf b" and "length (content b) < 2 ^ 31"
  shows "denotes (ToStringPiece b) (content b)"
proof -
  have "read_ptr (Ptr (buffer b) (int (unat (readerIndex b)))) (length (content b)) = Inr (content b)"
    using read_front [OF assms(1), of "length (content b)"] by (simp add: peek_def)
  then show ?thesis
    using assms length_content [OF assms(1)]
    by (simp add: denotes_def ToStringPiece_def StringPiece_mem_def peek_def sint_ucast_size
        del: read_ptr.simps)
qed

lemma Shrink_Append:
  assumes wf: "buffer_wf b" and fits: "8 + (length (content b) + unat reserve) \<le> vector_max_size"
  defines "other \<equiv> fresh_buffer\<lparr>buffer := replicate (max 1032 (8 + (length (content b) + unat reserve))) 0\<rparr>"
  shows "Shrink b reserve =
           rbind (Append_piece other (ToStringPiece b)) (\<lambda>other2. Inr (fst (Swap b other2)))"
    and "buffer_wf other" and "content other = []"
    and "unat (WritableBytes other) = max 1024 (length (content b) + unat reserve)"
proof -
  have "unat (ReadableBytes b + reserve) = length (content b) + unat reserve"
    using fits length_content [OF wf] by (simp add: unat_size_add vector_max_size_def)
  then have "EnsureWritableBytes fresh_buffer (ReadableBytes b + reserve) = Inr other"
    using EnsureWritableBytes_fresh [of "ReadableBytes b + reserve"] fits by (simp add: other_def)
  then show "Shrink b reserve =
           rbind (Append_piece other (ToStringPiece b)) (\<lambda>other2. Inr (fst (Swap b other2)))"
    by (simp add: Shrink_def Buffer_ctor_fresh)
  show wf': "buffer_wf other"
    using fits by (simp add: other_def buffer_wf_def fresh_buffer_def vector_max_size_def)
  show "content other = []"
    by (simp add: other_def content_def fresh_buffer_def)
  show "unat (WritableBytes other) = max 1024 (length (content b) + unat reserve)"
    using unat_WritableBytes [OF wf'] by (simp add: other_def fresh_buffer_def max_def)
qed

lemma Append_no_growth:
  assumes wf: "buffer_wf b" and room: "unat len \<le> unat (WritableBytes b)"
    and data: "read_ptr data (unat len) = Inr bs"
  shows "\<exists>b'. Append b data len = Inr b' \<and> buffer_wf b' \<and> content b' = content b @ bs \<and>
     length (buffer b') = length (buffer b)"
proof -
  have "EnsureWritableBytes b len = Inr b"
    using room by (simp add: EnsureWritableBytes_def word_less_nat_alt word_le_nat_alt not_less)
  moreover note tail = write_tail [OF wf room read_ptr_length [OF data]]
  moreover have "unat (writerIndex b) + length bs \<le> length (buffer b)"
    using room wf read_ptr_length [OF data] by (auto simp: unat_WritableBytes buffer_wf_def)
  ultimately show ?thesis
    using data by (simp add: Append_def BeginWrite_def) (simp add: HasWritten_def)
qed

section \<open>Properties\<close>

text \<open>
  C6 (refinement). The buffer is a first-in first-out byte stream. Any sequence of appends
  and retrievals that never takes more than is stored runs without an assertion failure, an
  out-of-bounds access or an exception, keeps the invariant and leaves exactly the bytes the
  abstract stream holds; a sequence that takes too much stops at the assertion of
  \<^verbatim>\<open>Retrieve\<close>. The only limit is the size a vector can have.
\<close>

theorem buffer_refines_fifo:
  assumes "buffer_wf b" and "total_put ops \<le> buffer_room b"
    and "\<forall>n. Take n \<in> set ops \<longrightarrow> n < 2 ^ 64"
  shows "case fifo_run (content b) ops of
           Some xs \<Rightarrow> \<exists>b'. run_ops append_bytes retrieve_bytes b ops = Inr b' \<and>
                          buffer_wf b' \<and> content b' = xs
         | None \<Rightarrow> run_ops append_bytes retrieve_bytes b ops = Inl AssertFailed"
  using assms airbuf.run_refines_fifo airbuf.run_rejects_underflow
  by (auto split: option.split)

theorem buffer_refines_fifo_witness:
  "buffer_wf fresh_buffer \<and>
   (\<exists>b'. run_ops append_bytes retrieve_bytes fresh_buffer [Put [1, 2, 3], Take 2, Put [4]] = Inr b' \<and>
         content b' = [3, 4])"
  using buffer_refines_fifo [of fresh_buffer "[Put [1, 2, 3], Take 2, Put [4]]"] by auto

text \<open>
  Making room, in both of its branches (growing the vector, or moving the
  readable bytes to the front), keeps the readable bytes, keeps the invariant, never lowers
  the reserve of prependable bytes below 8 and provides what was asked for; the assertions
  inside \<^verbatim>\<open>MakeSpace\<close> and \<^verbatim>\<open>EnsureWritableBytes\<close> hold.
\<close>

lemma ensure_writable_safe:
  assumes "buffer_wf b" and "unat (writerIndex b) + unat len \<le> vector_max_size"
  shows "\<exists>b'. EnsureWritableBytes b len = Inr b' \<and> buffer_wf b' \<and> content b' = content b \<and>
     len \<le> WritableBytes b' \<and> min 8 (unat (readerIndex b)) \<le> unat (readerIndex b')"
  using EnsureWritableBytes_Inr [OF assms] by (auto simp: word_le_nat_alt)

text \<open>
  C21 (roundtrip). Integers survive the wire between any two hosts: 32-, 16- and 8-bit values
  appended on a host of byte order \<open>e\<close>, with a 32-bit header prepended afterwards, are read
  back unchanged and in order on a host of byte order \<open>e'\<close>, and the bytes in between are
  in network order.
\<close>

theorem network_integers_roundtrip:
  assumes "buffer_wf b" and "content b = []" and "7 \<le> buffer_room b" and "4 \<le> buffer_headroom b"
  shows "\<exists>b1 b2 b3 b4. AppendInt32 e b x = Inr b1 \<and> AppendInt16 e b1 y = Inr b2 \<and>
           AppendInt8 b2 z = Inr b3 \<and> PrependInt32 e b3 h = Inr b4 \<and>
           content b4 = be_bytes h @ be_bytes x @ be_bytes y @ [z] \<and>
           (\<exists>c1 c2 c3 c4. ReadInt32 e' b4 = Inr (h, c1) \<and> ReadInt32 e' c1 = Inr (x, c2) \<and>
              ReadInt16 e' c2 = Inr (y, c3) \<and> ReadInt8 c3 = Inr (z, c4) \<and> content c4 = [])"
proof -
  obtain b1 where b1: "append_bytes b (be_bytes x) = Inr b1" "buffer_wf b1"
    "content b1 = be_bytes x" "3 \<le> buffer_room b1" "4 \<le> buffer_headroom b1"
    using airbuf.append_law [OF assms(1), of "be_bytes x"] assms by auto
  obtain b2 where b2: "append_bytes b1 (be_bytes y) = Inr b2" "buffer_wf b2"
    "content b2 = be_bytes x @ be_bytes y" "1 \<le> buffer_room b2" "4 \<le> buffer_headroom b2"
    using airbuf.append_law [OF b1(2), of "be_bytes y"] b1 by auto
  obtain b3 where b3: "append_bytes b2 [z] = Inr b3" "buffer_wf b3"
    "content b3 = be_bytes x @ be_bytes y @ [z]" "4 \<le> buffer_headroom b3"
    using airbuf.append_law [OF b2(2), of "[z]"] b2 by auto
  obtain b4 where b4: "prepend_bytes b3 (be_bytes h) = Inr b4" "buffer_wf b4"
    "content b4 = be_bytes h @ be_bytes x @ be_bytes y @ [z]"
    using airbuf.prepend_law [OF b3(2), of "be_bytes h"] b3 by auto
  obtain c1 where c1: "ReadInt32 e' b4 = Inr (h, c1)" "buffer_wf c1"
    "content c1 = be_bytes x @ be_bytes y @ [z]"
    using ReadInt32_Inr [OF b4(2,3)] by blast
  obtain c2 where c2: "ReadInt32 e' c1 = Inr (x, c2)" "buffer_wf c2" "content c2 = be_bytes y @ [z]"
    using ReadInt32_Inr [OF c1(2,3)] by blast
  obtain c3 where c3: "ReadInt16 e' c2 = Inr (y, c3)" "buffer_wf c3" "content c3 = [z]"
    using ReadInt16_Inr [OF c2(2,3)] by blast
  obtain c4 where "ReadInt8 c3 = Inr (z, c4)" "content c4 = []"
    using ReadInt8_Inr [OF c3(2,3)] by blast
  with b1(1) b2(1) b3(1) b4(1,3) c1(1) c2(1) c3(1) show ?thesis
    by (auto simp: object_bytes_append object_bytes_prepend)
qed

theorem network_integers_roundtrip_witness:
  "buffer_wf fresh_buffer \<and>
   (\<exists>b1 b2 b3 b4. AppendInt32 LittleEndian fresh_buffer 1 = Inr b1 \<and>
      AppendInt16 LittleEndian b1 515 = Inr b2 \<and> AppendInt8 b2 7 = Inr b3 \<and>
      PrependInt32 LittleEndian b3 9 = Inr b4 \<and>
      (\<exists>c1. ReadInt32 BigEndian b4 = Inr (9, c1)))"
  using network_integers_roundtrip [of fresh_buffer LittleEndian 1 515 7 9 BigEndian] by auto

text \<open>
  \<^verbatim>\<open>FindCRLF\<close> returns a pointer inside the readable bytes, to the first
  carriage return followed by a line feed, and null exactly when there is none; retrieving
  up to the pointer leaves the line end at the front of the buffer.
\<close>

lemma FindCRLF_first:
  assumes wf: "buffer_wf b"
  shows "\<exists>res. FindCRLF b = Inr res \<and>
     (case res of
        None \<Rightarrow> \<forall>i. \<not> crlf_at (content b) i
      | Some p \<Rightarrow> \<exists>i. unat p = unat (peek b) + i \<and> crlf_at (content b) i \<and>
                     (\<forall>j < i. \<not> crlf_at (content b) j) \<and>
                     (\<exists>b'. RetrieveUntil b p = Inr b' \<and> buffer_wf b' \<and>
                           content b' = drop i (content b)))"
proof -
  let ?i = "std_search (content b) kCRLF"
  have len2: "length kCRLF = 2"
    by (simp add: kCRLF_def)
  have first: "\<forall>j < ?i. \<not> crlf_at (content b) j"
    using std_search_first [of _ "content b" kCRLF] by (auto simp: crlf_at_def len2)
  have eq: "FindCRLF b =
      Inr (if ?i = length (content b) then None else Some (readerIndex b + of_nat ?i))"
    using wf by (simp add: FindCRLF_def peek_def search_crlf_Inr buffer_wf_def content_def)
  show ?thesis
  proof (cases "?i = length (content b)")
    case True
    then have "\<forall>i. \<not> crlf_at (content b) i"
      using first crlf_at_less by metis
    with True eq show ?thesis by simp
  next
    case False
    then have less: "?i < length (content b)"
      using std_search_le [of "content b" kCRLF] by simp
    then have found: "crlf_at (content b) ?i"
      using std_search_found [of "content b" kCRLF] by (simp add: crlf_at_def len2)
    have n: "unat (of_nat ?i :: size_t) = ?i"
      using less content_length_less [OF wf] by simp
    have p: "unat (readerIndex b + of_nat ?i) = unat (readerIndex b) + ?i"
      using advance_reader(1) [OF wf, of "of_nat ?i"] less length_content [OF wf] n by simp
    have inside: "unat (readerIndex b) + ?i \<le> unat (writerIndex b)"
      using less length_content [OF wf] unat_ReadableBytes [OF wf] by linarith
    obtain b' where "Retrieve b (of_nat ?i) = Inr b'" "buffer_wf b'" "content b' = drop ?i (content b)"
      using Retrieve_Inr [OF wf, of "of_nat ?i"] less n by auto
    then have "RetrieveUntil b (readerIndex b + of_nat ?i) = Inr b' \<and> buffer_wf b' \<and>
        content b' = drop ?i (content b)"
      using p inside by (simp add: RetrieveUntil_def peek_def BeginWrite_def word_le_nat_alt)
    with False eq found first p show ?thesis
      by (auto simp: peek_def)
  qed
qed

text \<open>
  \<^verbatim>\<open>Shrink\<close> keeps the readable bytes and reallocates the buffer to exactly
  what they and the requested reserve need (never below the initial size), as long as the
  readable bytes are fewer than 2 GiB.
\<close>

lemma Shrink_keeps_content:
  assumes wf: "buffer_wf b" and small: "length (content b) < 2 ^ 31"
    and fits: "8 + (length (content b) + unat reserve) \<le> vector_max_size"
  shows "\<exists>b'. Shrink b reserve = Inr b' \<and> buffer_wf b' \<and> content b' = content b \<and>
     length (buffer b') = max 1032 (8 + (length (content b) + unat reserve))"
proof -
  note s = Shrink_Append [OF wf fits]
  note d = denotes_ToStringPiece [OF wf small]
  have n: "unat (int_to_size (sp_length (ToStringPiece b))) = length (content b)"
    using d by (rule unat_length)
  have data: "read_ptr (sp_ptr (ToStringPiece b)) (unat (int_to_size (sp_length (ToStringPiece b)))) = Inr (content b)"
    using d n by (simp add: denotes_def)
  have room: "unat (int_to_size (sp_length (ToStringPiece b))) \<le>
      unat (WritableBytes (fresh_buffer\<lparr>buffer := replicate (max 1032 (8 + (length (content b) + unat reserve))) 0\<rparr>))"
    using s(4) n by simp
  show ?thesis
    using Append_no_growth [OF s(2) room data] s(1,3)
    by (auto simp: Append_piece_def sp_data_def sp_size_def)
qed



text \<open>
  C23 (bounds). The sum \<^verbatim>\<open>writerIndex_ + len\<close> in \<^verbatim>\<open>MakeSpace\<close> is not checked for overflow.
  When it wraps around, the vector is truncated below the writer index, and the closing
  assertion of \<^verbatim>\<open>EnsureWritableBytes\<close> cannot notice, because the difference it tests wraps
  back to \<open>len\<close>: the call returns normally with the invariant broken.
\<close>

theorem ensure_writable_overflow:
  assumes wf: "buffer_wf b" and wraps: "2 ^ 64 \<le> unat (writerIndex b) + unat len"
    and len: "unat len + 8 < 2 ^ 64"
  shows "\<exists>b'. EnsureWritableBytes b len = Inr b' \<and> WritableBytes b' = len \<and> \<not> buffer_wf b'"
proof -
  let ?n = "writerIndex b + len"
  have lim: "unat (readerIndex b) \<le> unat (writerIndex b)" "unat (writerIndex b) \<le> length (buffer b)"
    "length (buffer b) < 2 ^ 63"
    using wf buffer_wf_less [OF wf] by (simp_all add: buffer_wf_def)
  have n: "unat ?n = unat (writerIndex b) + unat len - 2 ^ 64"
    using wraps unat_size_less [of "writerIndex b"] unat_size_less [of len]
    by (simp add: unat_word_ariths le_mod_geq)
  then have small: "unat ?n < unat (writerIndex b)"
    using unat_size_less [of len] wraps by linarith
  have sp: "unat (WritableBytes b + PrependableBytes b) < 2 ^ 63"
    using lim wf by (subst unat_size_add) (auto simp: unat_WritableBytes unat_PrependableBytes)
  have k: "unat (len + kCheapPrepend) = unat len + 8"
    using len by (subst unat_size_add) simp_all
  have big: "2 ^ 63 \<le> unat len"
    using wraps lim by simp
  define b' where "b' = b\<lparr>buffer := take (unat ?n) (buffer b)\<rparr>"
  have "vector_resize (buffer b) ?n = Inr (buffer b')"
    using small lim by (simp add: vector_resize_def vector_max_size_def b'_def)
  then have "MakeSpace b len = Inr b'"
    using sp k big by (simp add: MakeSpace_def word_less_nat_alt b'_def)
  moreover have "WritableBytes b < len"
    using unat_WritableBytes [OF wf] lim big by (simp add: word_less_nat_alt)
  moreover have wr: "WritableBytes b' = len"
    using small lim by (simp add: WritableBytes_def b'_def min_def)
  ultimately have "EnsureWritableBytes b len = Inr b'"
    by (simp add: EnsureWritableBytes_def)
  moreover have "\<not> buffer_wf b'"
    using small lim by (simp add: buffer_wf_def b'_def)
  ultimately show ?thesis using wr by blast
qed

theorem ensure_writable_overflow_witness:
  "buffer_wf (fresh_buffer\<lparr>writerIndex := 9\<rparr>) \<and>
   (\<exists>b'. EnsureWritableBytes (fresh_buffer\<lparr>writerIndex := 9\<rparr>) 18446744073709551607 = Inr b' \<and> \<not> buffer_wf b')"
proof -
  let ?b = "fresh_buffer\<lparr>writerIndex := 9\<rparr>"
  have wf: "buffer_wf ?b"
    by (simp add: buffer_wf_def fresh_buffer_def vector_max_size_def)
  have "unat (18446744073709551607 :: size_t) = 18446744073709551607"
    by (rule unat_size_numeral) simp
  then show ?thesis
    using ensure_writable_overflow [OF wf, of 18446744073709551607] wf by auto
qed

end
