(* ===== verification/Codec_Proto.thy ===== *)
theory Codec_Proto
  imports Buffer
begin

text \<open>
  The message codec (\<^verbatim>\<open>src/common/net/codec_proto.h\<close>, \<^verbatim>\<open>codec_proto.cpp\<close>,
  \<^verbatim>\<open>google-inl.h\<close>): framing of protobuf messages on a byte stream with a length header, the
  type name and an Adler-32 checksum.

  zlib and the generated message classes are not part of the repository, so the checksum
  function and the message interface are a record of functions that the definitions take as
  an argument. What a theorem relies on of them is a named hypothesis
  (\<open>message_ok\<close>).
\<close>

section \<open>The message library\<close>

record ('m, 'd) message_lib =
  GetTypeName :: "'m \<Rightarrow> byte list"
  IsInitialized :: "'m \<Rightarrow> bool"
  InitializationErrorString :: "'m \<Rightarrow> byte list"
  ByteSize :: "'m \<Rightarrow> int32"
  SerializeWithCachedSizesToArray :: "'m \<Rightarrow> byte list"
  FindMessageTypeByName :: "byte list \<Rightarrow> 'd option"
  GetPrototype :: "'d \<Rightarrow> 'm option"
  New :: "'m \<Rightarrow> 'm"
  ParseFromArray :: "'m \<Rightarrow> cptr \<Rightarrow> int32 \<Rightarrow> 'm option"
  adler32 :: "32 word \<Rightarrow> byte list \<Rightarrow> 32 word"

section \<open>Error codes and constants\<close>

datatype ErrorCode =
  kNoError | kInvalidLength | kCheckSumError | kInvalidNameLen | kUnknownMessageType | kParseError

definition kHeaderLen :: int32 where "kHeaderLen = 4"
definition kNamelenLen :: int32 where "kNamelenLen = 4"
definition kCheckSumLen :: int32 where "kCheckSumLen = 4"
definition kMinMessageLen :: int32 where "kMinMessageLen = kHeaderLen + 2 + kCheckSumLen"
definition kMaxMessageLen :: int32 where "kMaxMessageLen = 64 * 1024 * 1024"

fun ErrorCodeToString :: "ErrorCode \<Rightarrow> string" where
  "ErrorCodeToString kNoError = ''NoError''"
| "ErrorCodeToString kInvalidLength = ''InvalidLength''"
| "ErrorCodeToString kCheckSumError = ''CheckSumError''"
| "ErrorCodeToString kInvalidNameLen = ''InvalidNameLen''"
| "ErrorCodeToString kUnknownMessageType = ''UnknownMessageType''"
| "ErrorCodeToString kParseError = ''ParseError''"

section \<open>google-inl.h\<close>

definition string_bytes :: "string \<Rightarrow> byte list" where
  "string_bytes s = map (\<lambda>c. of_nat (of_char c)) s"

definition ByteSizeConsistencyError :: "int32 \<Rightarrow> int32 \<Rightarrow> int32 \<Rightarrow> unit result" where
  "ByteSizeConsistencyError before_size after_size produced =
     rbind (ensure (before_size = after_size) FatalCheck) (\<lambda>_.
     rbind (ensure (produced = before_size) FatalCheck) (\<lambda>_. Inl FatalCheck))"

definition InitializationErrorMessage :: "('m, 'd) message_lib \<Rightarrow> string \<Rightarrow> 'm \<Rightarrow> byte list" where
  "InitializationErrorMessage lib action message =
     string_bytes ''Can't '' @ string_bytes action @ string_bytes '' message of type \"'' @
     GetTypeName lib message @ string_bytes ''\" because it is missing required fields: '' @
     InitializationErrorString lib message"

section \<open>Encoding\<close>

text \<open>
  \<^verbatim>\<open>SerializeWithCachedSizesToArray(start)\<close> stores its bytes at the write pointer; the checksum
  covers everything readable at that moment.
\<close>

definition FillEmptyBuffer ::
  "endian \<Rightarrow> ('m, 'd) message_lib \<Rightarrow> Buffer \<Rightarrow> 'm \<Rightarrow> Buffer result" where
  "FillEmptyBuffer e lib buf message =
     rbind (ensure (ReadableBytes buf = 0) AssertFailed) (\<lambda>_.
     let typeName = GetTypeName lib message;
         nameLen = (of_nat (length typeName + 1) :: int32) in
     rbind (AppendInt32 e buf nameLen) (\<lambda>b1.
     rbind (Append b1 (Ptr (typeName @ [0]) 0) (int_to_size nameLen)) (\<lambda>b2.
     rbind (ensure (IsInitialized lib message) FatalCheck) (\<lambda>_.
     let byte_size = ByteSize lib message in
     rbind (EnsureWritableBytes b2 (int_to_size byte_size)) (\<lambda>b3.
     let ser = SerializeWithCachedSizesToArray lib message in
     rbind (write_block (buffer b3) (unat (BeginWrite b3)) ser) (\<lambda>v.
     rbind (if int (length ser) \<noteq> sint byte_size
            then ByteSizeConsistencyError byte_size (ByteSize lib message) (of_nat (length ser))
            else Inr ()) (\<lambda>_.
     let b4 = HasWritten (b3\<lparr>buffer := v\<rparr>) (int_to_size byte_size) in
     rbind (read_block (buffer b4) (unat (peek b4))
              (unat (ucast (ReadableBytes b4) :: 32 word))) (\<lambda>covered.
     let checkSum = adler32 lib 1 covered in
     rbind (AppendInt32 e b4 checkSum) (\<lambda>b5.
     rbind (ensure (ReadableBytes b5 = 4 + int_to_size nameLen + int_to_size byte_size + 4)
              AssertFailed) (\<lambda>_.
     let len = HostToNetwork32 e (ucast (ReadableBytes b5)) in
     Prepend b5 (Ptr (object_bytes e len) 0) 4))))))))))"

text \<open>\<^verbatim>\<open>Send\<close> and \<^verbatim>\<open>SendMsg\<close>: encode into a new buffer and hand it to the connection.\<close>

definition SendMsg ::
  "endian \<Rightarrow> ('m, 'd) message_lib \<Rightarrow> ('c \<Rightarrow> Buffer \<Rightarrow> 'c) \<Rightarrow> 'c \<Rightarrow> 'm \<Rightarrow> 'c result" where
  "SendMsg e lib conn_send conn message =
     rbind Buffer_ctor (\<lambda>buf.
     rbind (FillEmptyBuffer e lib buf message) (\<lambda>buf'. Inr (conn_send conn buf')))"

section \<open>Decoding\<close>

definition DefaultErrorCallback ::
  "('c \<Rightarrow> bool) \<Rightarrow> ('c \<Rightarrow> 'c) \<Rightarrow> 'c option \<Rightarrow> Buffer \<Rightarrow> ErrorCode \<Rightarrow> 'c option \<times> Buffer" where
  "DefaultErrorCallback connected shutdown conn buf errorCode =
     (case conn of
        Some c \<Rightarrow> ((if connected c then Some (shutdown c) else Some c), buf)
      | None \<Rightarrow> (None, buf))"

definition AsInt32 :: "endian \<Rightarrow> cptr \<Rightarrow> int32 result" where
  "AsInt32 e buf = rbind (read_ptr buf 4) (\<lambda>bs. Inr (NetworkToHost32 e (object_word e bs)))"

definition CreateMessage :: "('m, 'd) message_lib \<Rightarrow> byte list \<Rightarrow> 'm option" where
  "CreateMessage lib typeName =
     (case FindMessageTypeByName lib typeName of
        None \<Rightarrow> None
      | Some descriptor \<Rightarrow>
          (case GetPrototype lib descriptor of
             None \<Rightarrow> None
           | Some prototype \<Rightarrow> Some (New lib prototype)))"

definition Parse ::
  "endian \<Rightarrow> ('m, 'd) message_lib \<Rightarrow> cptr \<Rightarrow> int32 \<Rightarrow> ('m option \<times> ErrorCode) result" where
  "Parse e lib buf len =
     rbind (AsInt32 e (ptr_add (ptr_add buf (sint len)) (- sint kCheckSumLen))) (\<lambda>expectedCheckSum.
     rbind (read_ptr buf (unat (len - kCheckSumLen))) (\<lambda>covered.
     let checkSum = adler32 lib 1 covered in
     if checkSum = expectedCheckSum then
       rbind (AsInt32 e buf) (\<lambda>nameLen.
       if sint nameLen \<ge> 2 \<and> sint nameLen \<le> sint (len - kCheckSumLen) then
         rbind (read_ptr (ptr_add buf (sint kNamelenLen)) (nat (sint nameLen - 1))) (\<lambda>typeName.
         case CreateMessage lib typeName of
           Some message \<Rightarrow>
             let data = ptr_add buf (sint kNamelenLen + sint nameLen);
                 dataLen = len - nameLen - kNamelenLen - kCheckSumLen in
             (case ParseFromArray lib message data dataLen of
                Some message' \<Rightarrow> Inr (Some message', kNoError)
              | None \<Rightarrow> Inr (None, kParseError))
         | None \<Rightarrow> Inr (None, kUnknownMessageType))
       else Inr (None, kInvalidNameLen))
     else Inr (None, kCheckSumError)))"

lemma Retrieve_decreases:
  assumes "Retrieve b n = Inr b'" and "0 < unat n"
  shows "unat (ReadableBytes b') < unat (ReadableBytes b)"
proof (cases "n < ReadableBytes b")
  case True
  with assms(1) have "b' = b\<lparr>readerIndex := readerIndex b + n\<rparr>"
    by (auto simp: Retrieve_def rbind_eq_Inr split: if_splits)
  then have "ReadableBytes b' = ReadableBytes b - n"
    by (simp add: ReadableBytes_def)
  then show ?thesis
    using True assms(2) by (simp add: unat_sub word_less_nat_alt less_imp_le)
next
  case False
  with assms(1) have "n = ReadableBytes b" "b' = RetrieveAll b"
    by (auto simp: Retrieve_def rbind_eq_Inr split: if_splits)
  then show ?thesis
    using assms(2) by (simp add: RetrieveAll_def ReadableBytes_def)
qed

text \<open>
  The parsing loop. The result is the return value of \<^verbatim>\<open>ParseMessages\<close>, the connection and
  the buffer as the error callback leaves them, and the vector of parsed messages.
\<close>

function ParseMessages ::
  "endian \<Rightarrow> ('m, 'd) message_lib \<Rightarrow> ('c \<Rightarrow> Buffer \<Rightarrow> ErrorCode \<Rightarrow> 'c \<times> Buffer) \<Rightarrow>
   'c \<Rightarrow> Buffer \<Rightarrow> 'm list \<Rightarrow> (int \<times> 'c \<times> Buffer \<times> 'm list) result" where
  "ParseMessages e lib error_callback conn buf vec =
     (if ReadableBytes buf \<ge> int_to_size (kMinMessageLen + kHeaderLen) then
        rbind (PeekInt32 e buf) (\<lambda>len.
        if sint len > sint kMaxMessageLen \<or> sint len < sint kMinMessageLen then
          (let (conn', buf') = error_callback conn buf kInvalidLength in
           Inr (- 1, conn', buf', vec))
        else if ReadableBytes buf \<ge> int_to_size (len + kHeaderLen) then
          rbind (Parse e lib (ptr_add (Ptr (buffer buf) (int (unat (peek buf)))) (sint kHeaderLen)) len)
            (\<lambda>(message, errorCode).
               case message of
                 Some msg \<Rightarrow>
                   if errorCode = kNoError then
                     rbind (Retrieve buf (int_to_size (kHeaderLen + len))) (\<lambda>buf'.
                       ParseMessages e lib error_callback conn buf' (vec @ [msg]))
                   else
                     (let (conn', buf') = error_callback conn buf errorCode in
                      Inr (- 1, conn', buf', vec))
               | None \<Rightarrow>
                   (let (conn', buf') = error_callback conn buf errorCode in
                    Inr (- 1, conn', buf', vec)))
        else Inr (0, conn, buf, vec))
      else Inr (0, conn, buf, vec))"
  by pat_completeness auto
termination
proof (relation "measure (\<lambda>(_, _, _, _, buf, _). unat (ReadableBytes buf))", goal_cases)
  case 1
  then show ?case by simp
next
  case (2 e lib error_callback conn buf vec len x message errorCode msg buf')
  have "10 \<le> sint len" "sint len \<le> 67108864"
    using 2(3) by (simp_all add: kMaxMessageLen_def kMinMessageLen_def kHeaderLen_def kCheckSumLen_def not_less)
  then have "sint (kHeaderLen + len) = 4 + sint len"
    by (subst sint_add_int32) (simp_all add: kHeaderLen_def)
  with \<open>10 \<le> sint len\<close> have "0 < unat (int_to_size (kHeaderLen + len))"
    by (simp add: unat_int_to_size)
  with 2(9) show ?case by (simp add: Retrieve_decreases)
qed

declare ParseMessages.simps [simp del]

lemma codec_constants [simp]:
  "sint kHeaderLen = 4" "sint kNamelenLen = 4" "sint kCheckSumLen = 4"
  "sint kMinMessageLen = 10" "sint kMaxMessageLen = 67108864"
  by (simp_all add: kHeaderLen_def kNamelenLen_def kCheckSumLen_def kMinMessageLen_def kMaxMessageLen_def)

section \<open>The wire format\<close>

text \<open>
  A frame is the length of its body, and the body is the length of the type name (with its
  terminating zero byte), the name, the serialized message and the checksum of all of these.
\<close>

definition frame_covered :: "('m, 'd) message_lib \<Rightarrow> 'm \<Rightarrow> byte list" where
  "frame_covered lib m =
     be_bytes (of_nat (length (GetTypeName lib m) + 1) :: int32) @ GetTypeName lib m @ [0] @
     SerializeWithCachedSizesToArray lib m"

definition frame_body :: "('m, 'd) message_lib \<Rightarrow> 'm \<Rightarrow> byte list" where
  "frame_body lib m = frame_covered lib m @ be_bytes (adler32 lib 1 (frame_covered lib m))"

definition frame :: "('m, 'd) message_lib \<Rightarrow> 'm \<Rightarrow> byte list" where
  "frame lib m = be_bytes (of_nat (length (frame_body lib m)) :: int32) @ frame_body lib m"

text \<open>
  What the codec relies on of one message: it is initialized, \<^verbatim>\<open>ByteSize\<close> is the number of
  bytes the serializer writes, its type is registered under its non-empty name, and parsing
  the serialized bytes into a new object of that type gives the message back.
\<close>

definition encodable :: "('m, 'd) message_lib \<Rightarrow> 'm \<Rightarrow> bool" where
  "encodable lib m \<longleftrightarrow> IsInitialized lib m \<and>
     sint (ByteSize lib m) = int (length (SerializeWithCachedSizesToArray lib m))"

definition decodable :: "('m, 'd) message_lib \<Rightarrow> 'm \<Rightarrow> bool" where
  "decodable lib m \<longleftrightarrow> GetTypeName lib m \<noteq> [] \<and>
     (\<exists>proto. CreateMessage lib (GetTypeName lib m) = Some proto \<and>
        (\<forall>ptr n. 0 \<le> sint n \<longrightarrow>
           read_ptr ptr (nat (sint n)) = Inr (SerializeWithCachedSizesToArray lib m) \<longrightarrow>
           ParseFromArray lib proto ptr n = Some m))"

definition message_ok :: "('m, 'd) message_lib \<Rightarrow> 'm \<Rightarrow> bool" where
  "message_ok lib m \<longleftrightarrow> encodable lib m \<and> decodable lib m \<and>
     int (length (frame_body lib m)) \<le> sint kMaxMessageLen"

lemma length_frame_covered [simp]:
  "length (frame_covered lib m) =
     5 + length (GetTypeName lib m) + length (SerializeWithCachedSizesToArray lib m)"
  by (simp add: frame_covered_def)

lemma length_frame_body [simp]:
  "length (frame_body lib m) =
     9 + length (GetTypeName lib m) + length (SerializeWithCachedSizesToArray lib m)"
  by (simp add: frame_body_def)

lemma length_frame [simp]:
  "length (frame lib m) =
     13 + length (GetTypeName lib m) + length (SerializeWithCachedSizesToArray lib m)"
  by (simp add: frame_def)

section \<open>Encoding produces the frame\<close>

lemma Append_append_bytes:
  "unat len = length bs \<Longrightarrow> Append b (Ptr bs 0) len = append_bytes b bs"
  by (metis append_bytes_def of_nat_unat ucast_id)

lemma Prepend_prepend_bytes:
  "unat len = length bs \<Longrightarrow> Prepend b (Ptr bs 0) len = prepend_bytes b bs"
  by (metis prepend_bytes_def of_nat_unat ucast_id)

text \<open>Writing in place after reserving room is what \<^verbatim>\<open>Append\<close> does.\<close>

lemma append_in_place:
  assumes "append_bytes b bs = Inr b'" and "unat len = length bs"
  obtains b1 v where "EnsureWritableBytes b len = Inr b1"
    and "write_block (buffer b1) (unat (BeginWrite b1)) bs = Inr v"
    and "b' = HasWritten (b1\<lparr>buffer := v\<rparr>) len"
proof -
  have "Append b (Ptr bs 0) len = Inr b'"
    using assms by (simp add: Append_append_bytes)
  then show ?thesis
    using that assms(2) by (auto simp: Append_def rbind_eq_Inr simp del: read_ptr.simps)
qed

lemma FillEmptyBuffer_frame:
  assumes wf: "buffer_wf b" and empty: "content b = []"
    and room: "length (frame_body lib m) \<le> buffer_room b" and head: "8 \<le> buffer_headroom b"
    and enc: "encodable lib m" and small: "length (frame_body lib m) < 2 ^ 31"
  shows "\<exists>b'. FillEmptyBuffer e lib b m = Inr b' \<and> buffer_wf b' \<and> content b' = frame lib m"
proof -
  let ?name = "GetTypeName lib m" and ?ser = "SerializeWithCachedSizesToArray lib m"
  let ?nl = "of_nat (length ?name + 1) :: int32" and ?bs = "ByteSize lib m"
  have small': "length ?name + length ?ser + 9 < 2147483648"
    using small by simp
  have nl: "unat (int_to_size ?nl) = length (?name @ [0])"
    using small' sint_of_nat_int32 [of "length ?name + 1"] by (simp add: unat_int_to_size)
  have bs: "unat (int_to_size ?bs) = length ?ser"
    using enc by (simp add: encodable_def unat_int_to_size)
  have rb: "ReadableBytes b = 0"
    using length_content [OF wf] empty by (simp add: unat_eq_zero)
  obtain b1 where b1: "append_bytes b (be_bytes ?nl) = Inr b1" "buffer_wf b1"
    "content b1 = be_bytes ?nl" "length ?name + length ?ser + 5 \<le> buffer_room b1" "8 \<le> buffer_headroom b1"
    using airbuf.append_law [OF wf, of "be_bytes ?nl"] room head empty by auto
  obtain b2 where b2: "append_bytes b1 (?name @ [0]) = Inr b2" "buffer_wf b2"
    "content b2 = be_bytes ?nl @ ?name @ [0]" "length ?ser + 4 \<le> buffer_room b2" "8 \<le> buffer_headroom b2"
    using airbuf.append_law [OF b1(2), of "?name @ [0]"] b1 by auto
  obtain b4 where b4: "append_bytes b2 ?ser = Inr b4" "buffer_wf b4"
    "content b4 = frame_covered lib m" "4 \<le> buffer_room b4" "8 \<le> buffer_headroom b4"
    using airbuf.append_law [OF b2(2), of ?ser] b2 by (auto simp: frame_covered_def)
  obtain b3 v where b3: "EnsureWritableBytes b2 (int_to_size ?bs) = Inr b3"
    "write_block (buffer b3) (unat (BeginWrite b3)) ?ser = Inr v"
    "b4 = HasWritten (b3\<lparr>buffer := v\<rparr>) (int_to_size ?bs)"
    using append_in_place [OF b4(1) bs] by blast
  have "unat (ReadableBytes b4) < 2 ^ 32"
    using length_content [OF b4(2)] b4(3) small' by simp
  then have "unat (ucast (ReadableBytes b4) :: 32 word) = length (content b4)"
    using length_content [OF b4(2)] by (simp add: unsigned_ucast_eq take_bit_nat_eq_self)
  then have cov: "read_block (buffer b4) (unat (peek b4)) (unat (ucast (ReadableBytes b4) :: 32 word)) =
      Inr (frame_covered lib m)"
    using read_front [OF b4(2), of "length (content b4)"] b4(3) by simp
  let ?sum = "adler32 lib 1 (frame_covered lib m)"
  obtain b5 where b5: "append_bytes b4 (be_bytes ?sum) = Inr b5" "buffer_wf b5"
    "content b5 = frame_body lib m" "8 \<le> buffer_headroom b5"
    using airbuf.append_law [OF b4(2), of "be_bytes ?sum"] b4 by (auto simp: frame_body_def)
  have r5: "ReadableBytes b5 = of_nat (length (frame_body lib m))"
    using length_content [OF b5(2)] b5(3) by (metis of_nat_unat ucast_id)
  have "int_to_size ?nl = of_nat (length ?name + 1)" "int_to_size ?bs = of_nat (length ?ser)"
    using nl bs by (metis of_nat_unat ucast_id length_append_singleton Suc_eq_plus1)+
  then have sum: "ReadableBytes b5 = 4 + int_to_size ?nl + int_to_size ?bs + 4"
    using r5 by simp
  have hdr: "(ucast (ReadableBytes b5) :: int32) = of_nat (length (frame_body lib m))"
    using length_content [OF b5(2)] b5(3) by (metis of_nat_unat)
  obtain b6 where b6: "prepend_bytes b5 (be_bytes (of_nat (length (frame_body lib m)) :: int32)) = Inr b6"
    "buffer_wf b6" "content b6 = frame lib m"
    using airbuf.prepend_law [OF b5(2), of "be_bytes (of_nat (length (frame_body lib m)) :: int32)"] b5
    by (auto simp: frame_def)
  have "FillEmptyBuffer e lib b m = Inr b6"
    using rb b1(1) b2(1) b3 enc cov b5(1) sum hdr b6(1) nl
    by (simp add: FillEmptyBuffer_def Let_def object_bytes_append Append_append_bytes
        Prepend_prepend_bytes encodable_def del: length_frame_body)
  with b6 show ?thesis by blast
qed

section \<open>Decoding one body\<close>

text \<open>
  The outcome of \<^verbatim>\<open>Parse\<close> on a body of \<open>n\<close> bytes at offset \<open>off\<close>, branch by branch, over
  the bytes themselves.
\<close>

definition parse_spec :: "('m, 'd) message_lib \<Rightarrow> byte list \<Rightarrow> nat \<Rightarrow> nat \<Rightarrow> 'm option \<times> ErrorCode" where
  "parse_spec lib blk off n =
     (let body = take n (drop off blk);
          nameLen = (be_word (take 4 body) :: int32) in
      if adler32 lib 1 (take (n - 4) body) \<noteq> be_word (drop (n - 4) body) then (None, kCheckSumError)
      else if sint nameLen < 2 \<or> int n - 4 < sint nameLen then (None, kInvalidNameLen)
      else
        (case CreateMessage lib (take (nat (sint nameLen - 1)) (drop 4 body)) of
           None \<Rightarrow> (None, kUnknownMessageType)
         | Some proto \<Rightarrow>
             (case ParseFromArray lib proto (Ptr blk (int off + 4 + sint nameLen))
                     (of_nat n - nameLen - 8) of
                None \<Rightarrow> (None, kParseError)
              | Some m \<Rightarrow> (Some m, kNoError))))"

lemma read_body:
  assumes "off + n \<le> length blk" and "k + j \<le> n"
  shows "read_ptr (Ptr blk (int off + int k)) j = Inr (take j (drop k (take n (drop off blk))))"
proof -
  have "nat (int off + int k) = off + k"
    by simp
  then show ?thesis
    using assms by (simp add: read_block_def drop_take take_take min_def add.commute)
qed

lemma AsInt32_body:
  assumes "off + n \<le> length blk" and "k + 4 \<le> n"
  shows "AsInt32 e (Ptr blk (int off + int k)) = Inr (be_word (take 4 (drop k (take n (drop off blk)))))"
proof -
  have "length (take 4 (drop k (take n (drop off blk)))) = 4"
    using assms by (auto simp: min_def)
  then show ?thesis
    using read_body [OF assms] by (simp add: AsInt32_def del: read_ptr.simps length_take)
qed

lemma unat_diff4:
  assumes "n < 2 ^ 31" and "4 \<le> n"
  shows "unat (of_nat n - kCheckSumLen) = n - 4" and "sint (of_nat n - kCheckSumLen :: int32) = int n - 4"
proof -
  have eq: "(of_nat n - kCheckSumLen :: int32) = of_nat (n - 4)"
    using assms(2) by (simp add: kCheckSumLen_def of_nat_diff)
  show "unat (of_nat n - kCheckSumLen) = n - 4"
    unfolding eq using assms by (subst unat_of_nat) simp
  show "sint (of_nat n - kCheckSumLen :: int32) = int n - 4"
    unfolding eq using assms by (subst sint_of_nat_int32) (simp_all add: of_nat_diff)
qed

lemma Parse_spec:
  assumes blk: "off + n \<le> length blk" and n: "10 \<le> n" "n < 2 ^ 31"
  shows "Parse e lib (Ptr blk (int off)) (of_nat n) = Inr (parse_spec lib blk off n)"
proof -
  define body where "body = take n (drop off blk)"
  define nl where "nl = (be_word (take 4 body) :: int32)"
  note read = read_body [OF blk, folded body_def] and word = AsInt32_body [OF blk, folded body_def]
  have sn: "sint (of_nat n :: int32) = int n"
    using n by (simp add: sint_of_nat_int32)
  have "length (drop (n - 4) body) = 4"
    using blk n by (simp add: body_def)
  then have "AsInt32 e (Ptr blk (int off + int (n - 4))) = Inr (be_word (drop (n - 4) body))"
    using word [of "n - 4" e] n by simp
  then have sum: "AsInt32 e (ptr_add (ptr_add (Ptr blk (int off)) (sint (of_nat n :: int32))) (- sint kCheckSumLen)) =
      Inr (be_word (drop (n - 4) body))"
    using n by (simp add: sn of_nat_diff add_diff_eq)
  have cov: "read_ptr (Ptr blk (int off)) (unat (of_nat n - kCheckSumLen)) = Inr (take (n - 4) body)"
    using read [of 0 "n - 4"] n unat_diff4 by simp
  have nl: "AsInt32 e (Ptr blk (int off)) = Inr nl"
    using word [of 0] n by (simp add: nl_def)
  have len4: "sint (of_nat n - kCheckSumLen :: int32) = int n - 4"
    using n by (simp add: unat_diff4)
  have spec: "parse_spec lib blk off n =
     (if adler32 lib 1 (take (n - 4) body) \<noteq> be_word (drop (n - 4) body) then (None, kCheckSumError)
      else if sint nl < 2 \<or> int n - 4 < sint nl then (None, kInvalidNameLen)
      else
        (case CreateMessage lib (take (nat (sint nl - 1)) (drop 4 body)) of
           None \<Rightarrow> (None, kUnknownMessageType)
         | Some proto \<Rightarrow>
             (case ParseFromArray lib proto (Ptr blk (int off + 4 + sint nl)) (of_nat n - nl - 8) of
                None \<Rightarrow> (None, kParseError)
              | Some m \<Rightarrow> (Some m, kNoError))))"
    by (simp only: parse_spec_def Let_def body_def nl_def)
  note facts = sum cov nl len4
  show ?thesis
  proof (cases "adler32 lib 1 (take (n - 4) body) = be_word (drop (n - 4) body)")
    case False
    then show ?thesis
      by (simp add: Parse_def spec facts del: read_ptr.simps ptr_add.simps(2) codec_constants)
  next
    case True
    show ?thesis
    proof (cases "2 \<le> sint nl \<and> sint nl \<le> int n - 4")
      case False
      with True show ?thesis
        by (auto simp add: Parse_def spec facts simp del: read_ptr.simps ptr_add.simps(2) codec_constants)
    next
      case range: True
      then have "4 + nat (sint nl - 1) \<le> n"
        by linarith
      then have name: "read_ptr (ptr_add (Ptr blk (int off)) (sint kNamelenLen)) (nat (sint nl - 1)) =
          Inr (take (nat (sint nl - 1)) (drop 4 body))"
        using read [of 4 "nat (sint nl - 1)"] by simp
      have len: "of_nat n - nl - kNamelenLen - kCheckSumLen = of_nat n - nl - 8"
        by (simp add: kNamelenLen_def kCheckSumLen_def)
      have data: "ptr_add (Ptr blk (int off)) (sint kNamelenLen + sint nl) = Ptr blk (int off + 4 + sint nl)"
        by simp
      show ?thesis
        using True range
        by (simp add: Parse_def spec facts name len data not_less Let_def
            split: option.split del: read_ptr.simps ptr_add.simps(2) codec_constants)
    qed
  qed
qed

lemma sint_nat_bound:
  assumes "sint (x :: int32) = int k"
  shows "x = of_nat k"
  using assms by (metis of_int_of_nat_eq of_int_sint ucast_id scast_id)

lemma parse_frame:
  assumes ok: "message_ok lib m" and n: "n = length (frame_body lib m)" and blk: "off + n \<le> length blk"
    and body: "take n (drop off blk) = frame_body lib m"
  shows "parse_spec lib blk off n = (Some m, kNoError)"
proof -
  let ?name = "GetTypeName lib m" and ?ser = "SerializeWithCachedSizesToArray lib m"
  have big: "length ?name + length ?ser + 9 \<le> 67108864"
    using ok by (simp add: message_ok_def)
  have n_eq: "n = length ?name + length ?ser + 9"
    using n by simp
  obtain proto where proto: "CreateMessage lib ?name = Some proto"
    and parse: "\<And>ptr k. 0 \<le> sint k \<Longrightarrow> read_ptr ptr (nat (sint k)) = Inr ?ser \<Longrightarrow>
      ParseFromArray lib proto ptr k = Some m"
    and name: "?name \<noteq> []"
    using ok by (auto simp: message_ok_def decodable_def)
  define nl where "nl = (of_nat (length ?name + 1) :: int32)"
  have nl: "sint nl = int (length ?name) + 1"
    using big by (simp add: nl_def sint_of_nat_int32 del: of_nat_add of_nat_Suc)
  have k: "of_nat n - nl - 8 = (of_nat (length ?ser) :: int32)"
    by (simp add: n_eq nl_def)
  have ks: "sint (of_nat (length ?ser) :: int32) = int (length ?ser)"
    using big by (intro sint_of_nat_int32) simp
  have t4: "take 4 (frame_body lib m) = be_bytes nl"
    by (simp add: frame_body_def frame_covered_def nl_def)
  have cov: "take (n - 4) (frame_body lib m) = frame_covered lib m"
    "drop (n - 4) (frame_body lib m) = be_bytes (adler32 lib 1 (frame_covered lib m))"
    by (simp_all add: frame_body_def n_eq)
  have nm: "take (nat (sint nl - 1)) (drop 4 (frame_body lib m)) = ?name"
    by (simp add: frame_body_def frame_covered_def nl)
  have "read_ptr (Ptr blk (int off + int (5 + length ?name))) (length ?ser) = Inr ?ser"
    using read_body [OF blk, of "5 + length ?name" "length ?ser"] body n_eq
    by (simp add: frame_body_def frame_covered_def del: read_ptr.simps)
  then have "ParseFromArray lib proto (Ptr blk (int off + 4 + sint nl)) (of_nat n - nl - 8) = Some m"
    unfolding k by (intro parse) (simp_all add: ks nl ac_simps del: read_ptr.simps)
  moreover have "\<not> (sint nl < 2 \<or> int n - 4 < sint nl)"
    using name by (cases ?name) (auto simp: nl n_eq)
  ultimately show ?thesis
    unfolding parse_spec_def body Let_def t4 cov be_word_be_bytes_widths nm
    using proto by simp
qed

section \<open>One round of the loop\<close>

definition header :: "byte list \<Rightarrow> int" where
  "header xs = sint (be_word (take 4 xs) :: int32)"

lemma header_range_size:
  assumes "10 \<le> sint (len :: int32)" and "sint len \<le> 67108864"
  shows "unat (int_to_size (len + kHeaderLen)) = nat (sint len) + 4"
    and "int_to_size (kHeaderLen + len) = of_nat (4 + nat (sint len))"
proof -
  have s: "sint (len + kHeaderLen) = sint len + 4"
    using assms by (subst sint_add_int32) simp_all
  then show u: "unat (int_to_size (len + kHeaderLen)) = nat (sint len) + 4"
    using assms by (simp add: unat_int_to_size nat_add_distrib)
  then show "int_to_size (kHeaderLen + len) = of_nat (4 + nat (sint len))"
    by (metis add.commute of_nat_unat ucast_id)
qed

lemma ParseMessages_round:
  assumes wf: "buffer_wf b"
  shows "ParseMessages e lib cb conn b vec =
     (let xs = content b; len = header xs in
      if length xs < 14 then Inr (0, conn, b, vec)
      else if len > 67108864 \<or> len < 10 then
        (let (conn', b') = cb conn b kInvalidLength in Inr (- 1, conn', b', vec))
      else if int (length xs) < len + 4 then Inr (0, conn, b, vec)
      else case parse_spec lib (buffer b) (unat (peek b) + 4) (nat len) of
             (Some m, kNoError) \<Rightarrow>
               rbind (retrieve_bytes b (4 + nat len)) (\<lambda>b'. ParseMessages e lib cb conn b' (vec @ [m]))
           | (_, err) \<Rightarrow> (let (conn', b') = cb conn b err in Inr (- 1, conn', b', vec)))"
proof -
  let ?xs = "content b"
  have rb: "unat (ReadableBytes b) = length ?xs"
    using length_content [OF wf] by simp
  have k14: "unat (int_to_size (kMinMessageLen + kHeaderLen)) = 14"
    by (simp add: unat_int_to_size kMinMessageLen_def kHeaderLen_def kCheckSumLen_def)
  have c14: "int_to_size (kMinMessageLen + kHeaderLen) \<le> ReadableBytes b \<longleftrightarrow> 14 \<le> length ?xs"
    by (simp add: word_le_nat_alt k14 rb)
  show ?thesis
  proof (cases "14 \<le> length ?xs")
    case False
    then show ?thesis
      by (subst ParseMessages.simps) (simp add: c14 Let_def)
  next
    case True
    define len where "len = (be_word (take 4 ?xs) :: int32)"
    have peek: "PeekInt32 e b = Inr len"
      using PeekInt32_Inr [OF wf] True by (simp add: len_def)
    have hd: "header ?xs = sint len"
      by (simp add: header_def len_def)
    show ?thesis
    proof (cases "sint len > 67108864 \<or> sint len < 10")
      case out: True
      then show ?thesis
        using True by (subst ParseMessages.simps) (simp add: c14 peek hd)
    next
      case False
      then have range: "10 \<le> sint len" "sint len \<le> 67108864"
        by simp_all
      have enough: "int_to_size (len + kHeaderLen) \<le> ReadableBytes b \<longleftrightarrow> \<not> int (length ?xs) < sint len + 4"
        using range by (auto simp: word_le_nat_alt header_range_size(1) rb)
      show ?thesis
      proof (cases "int (length ?xs) < sint len + 4")
        case short: True
        then show ?thesis
          using True range by (subst ParseMessages.simps) (simp add: c14 peek hd enough)
      next
        case full: False
        let ?n = "nat (sint len)" and ?off = "unat (peek b) + 4"
        have "?off + ?n \<le> length (buffer b)"
          using full rb wf range by (auto simp: peek_def unat_ReadableBytes buffer_wf_def)
        moreover have "len = of_nat ?n"
          using range by (intro sint_nat_bound) simp
        moreover have "ptr_add (Ptr (buffer b) (int (unat (peek b)))) (sint kHeaderLen) = Ptr (buffer b) (int ?off)"
          by simp
        ultimately have parse: "Parse e lib (ptr_add (Ptr (buffer b) (int (unat (peek b)))) (sint kHeaderLen)) len =
            Inr (parse_spec lib (buffer b) ?off ?n)"
          using Parse_spec [of ?off ?n "buffer b" e lib] range by simp
        have ret: "Retrieve b (int_to_size (kHeaderLen + len)) = retrieve_bytes b (4 + ?n)"
          using range by (simp add: retrieve_bytes_def header_range_size(2))
        obtain om err where ps: "parse_spec lib (buffer b) ?off ?n = (om, err)"
          by (cases "parse_spec lib (buffer b) ?off ?n")
        show ?thesis
          using True range full
          by (subst ParseMessages.simps, cases om; cases err)
             (simp_all add: c14 peek hd enough parse ret ps del: ptr_add.simps codec_constants(1) of_nat_unat)
      qed
    qed
  qed
qed

lemma parse_spec_NoError:
  "parse_spec lib blk off n = (om, err) \<Longrightarrow> err = kNoError \<longleftrightarrow> om \<noteq> None"
  by (auto simp: parse_spec_def Let_def split: if_splits option.splits dest: sym)

lemma ParseMessages_ok_round:
  assumes wf: "buffer_wf b" and len: "10 \<le> header (content b)" "header (content b) \<le> 67108864"
    and full: "header (content b) + 4 \<le> int (length (content b))"
    and parse: "parse_spec lib (buffer b) (unat (peek b) + 4) (nat (header (content b))) = (Some m, kNoError)"
  shows "\<exists>b'. ParseMessages e lib cb conn b vec = ParseMessages e lib cb conn b' (vec @ [m]) \<and>
     buffer_wf b' \<and> content b' = drop (4 + nat (header (content b))) (content b) \<and>
     buffer_room b \<le> buffer_room b'"
proof -
  have "4 + nat (header (content b)) \<le> length (content b)"
    using len full by linarith
  then obtain b' where "retrieve_bytes b (4 + nat (header (content b))) = Inr b'" "buffer_wf b'"
    "content b' = drop (4 + nat (header (content b))) (content b)" "buffer_room b \<le> buffer_room b'"
    using airbuf.retrieveE [OF wf] by metis
  moreover have "14 \<le> length (content b)"
    using len full by linarith
  ultimately show ?thesis
    using ParseMessages_round [OF wf, of e lib cb conn vec] len full parse by (auto simp: Let_def)
qed

lemma ParseMessages_stop_round:
  assumes wf: "buffer_wf b" and len: "10 \<le> header (content b)" "header (content b) \<le> 67108864"
    and full: "header (content b) + 4 \<le> int (length (content b))"
    and parse: "parse_spec lib (buffer b) (unat (peek b) + 4) (nat (header (content b))) = (None, err)"
  shows "ParseMessages e lib cb conn b vec =
     (let (conn', b') = cb conn b err in Inr (- 1, conn', b', vec))"
proof -
  have "14 \<le> length (content b)"
    using len full by linarith
  then show ?thesis
    using ParseMessages_round [OF wf, of e lib cb conn vec] len full parse by (simp add: Let_def)
qed

definition incomplete :: "byte list \<Rightarrow> bool" where
  "incomplete xs \<longleftrightarrow> length xs < 14 \<or>
     (10 \<le> header xs \<and> header xs \<le> 67108864 \<and> int (length xs) < header xs + 4)"

lemma ParseMessages_incomplete:
  assumes "buffer_wf b" and "incomplete (content b)"
  shows "ParseMessages e lib cb conn b vec = Inr (0, conn, b, vec)"
  using assms ParseMessages_round [OF assms(1), of e lib cb conn vec]
  by (auto simp: incomplete_def Let_def not_less)

section \<open>A buffer full of frames\<close>

lemma header_frame:
  assumes "message_ok lib m"
  shows "header (frame lib m @ ys) = int (length (frame_body lib m))"
proof -
  have "length (frame_body lib m) < 2 ^ 31"
    using assms by (simp add: message_ok_def)
  then show ?thesis
    by (simp add: header_def frame_def sint_of_nat_int32 del: length_frame_body)
qed

lemma body_in_buffer:
  assumes wf: "buffer_wf b" and c: "content b = h @ body @ ys" and h: "length h = 4"
  shows "unat (peek b) + 4 + length body \<le> length (buffer b)"
    and "take (length body) (drop (unat (peek b) + 4) (buffer b)) = body"
proof -
  have len: "unat (writerIndex b) - unat (readerIndex b) = 4 + length body + length ys"
    using length_content [OF wf] unat_ReadableBytes [OF wf] c h by simp
  then show fit: "unat (peek b) + 4 + length body \<le> length (buffer b)"
    using wf by (auto simp: peek_def buffer_wf_def)
  have "take (length body) (drop 4 (content b)) = body"
    using c h by simp
  then show "take (length body) (drop (unat (peek b) + 4) (buffer b)) = body"
    using len by (simp add: content_def window_def peek_def drop_take take_take add.commute)
qed

lemma ParseMessages_frame:
  assumes wf: "buffer_wf b" and c: "content b = frame lib m @ ys" and ok: "message_ok lib m"
  shows "\<exists>b'. ParseMessages e lib cb conn b vec = ParseMessages e lib cb conn b' (vec @ [m]) \<and>
     buffer_wf b' \<and> content b' = ys \<and> buffer_room b \<le> buffer_room b'"
proof -
  let ?body = "frame_body lib m"
  have hd: "header (content b) = int (length ?body)"
    using c header_frame [OF ok] by simp
  have big: "int (length ?body) \<le> 67108864" and name: "GetTypeName lib m \<noteq> []"
    using ok by (simp_all add: message_ok_def decodable_def)
  have len: "10 \<le> int (length ?body)"
    using name by (cases "GetTypeName lib m") simp_all
  have c': "content b = be_bytes (of_nat (length ?body) :: int32) @ ?body @ ys"
    using c by (simp add: frame_def)
  have "parse_spec lib (buffer b) (unat (peek b) + 4) (length ?body) = (Some m, kNoError)"
    using parse_frame [OF ok refl] body_in_buffer [OF wf c'] by simp
  moreover have "header (content b) + 4 \<le> int (length (content b))"
    using hd c by (simp add: frame_def)
  ultimately have "\<exists>b'. ParseMessages e lib cb conn b vec = ParseMessages e lib cb conn b' (vec @ [m]) \<and>
     buffer_wf b' \<and> content b' = drop (4 + nat (header (content b))) (content b) \<and>
     buffer_room b \<le> buffer_room b'"
    using ParseMessages_ok_round [OF wf, of lib m e cb conn vec] hd big len
    by (simp del: length_frame_body)
  moreover have "drop (4 + nat (header (content b))) (content b) = ys"
    using hd c by (simp add: frame_def del: length_frame_body)
  ultimately show ?thesis by simp
qed

lemma ParseMessages_frames:
  assumes "buffer_wf b" and "content b = concat (map (frame lib) ms) @ ys" and "\<forall>m \<in> set ms. message_ok lib m"
  shows "\<exists>b'. ParseMessages e lib cb conn b vec = ParseMessages e lib cb conn b' (vec @ ms) \<and>
     buffer_wf b' \<and> content b' = ys \<and> buffer_room b \<le> buffer_room b'"
  using assms
proof (induction ms arbitrary: b vec)
  case Nil
  then show ?case by auto
next
  case (Cons m ms)
  then obtain b1 where b1: "ParseMessages e lib cb conn b vec = ParseMessages e lib cb conn b1 (vec @ [m])"
    "buffer_wf b1" "content b1 = concat (map (frame lib) ms) @ ys" "buffer_room b \<le> buffer_room b1"
    using ParseMessages_frame [of b lib m "concat (map (frame lib) ms) @ ys" e cb conn vec] by auto
  with Cons.IH [OF b1(2,3), of "vec @ [m]"] Cons.prems(3) show ?case
    by (auto intro: order_trans)
qed

end
