(* ===== verification/Codec_Stream.thy ===== *)
theory Codec_Stream
  imports Codec_Proto
begin

text \<open>
  The codec on a byte stream: what a receiver obtains from \<^verbatim>\<open>ParseMessages\<close> when a sender's
  frames arrive cut into arbitrary pieces, and what it does with bytes that are not frames.
  \<open>feed\<close> is the receive path of a connection: each piece is appended to the input buffer and
  the parser runs on what is readable.
\<close>

section \<open>Arbitrary input\<close>

lemma ParseMessages_cases:
  assumes "buffer_wf b"
  shows "\<exists>k ms b0. k \<le> length (content b) \<and> buffer_wf b0 \<and> content b0 = drop k (content b) \<and>
     buffer_room b \<le> buffer_room b0 \<and>
     (ParseMessages e lib cb conn b vec = Inr (0, conn, b0, vec @ ms) \<or>
      (\<exists>err. err \<noteq> kNoError \<and>
         ParseMessages e lib cb conn b vec =
           Inr (- 1, fst (cb conn b0 err), snd (cb conn b0 err), vec @ ms)))"
  using assms
proof (induction "length (content b)" arbitrary: b vec rule: less_induct)
  case less
  note wf = less.prems
  let ?h = "header (content b)"
  have stop: "ParseMessages e lib cb conn b vec = Inr (0, conn, b, vec) \<or>
      (\<exists>err. err \<noteq> kNoError \<and> ParseMessages e lib cb conn b vec =
          Inr (- 1, fst (cb conn b err), snd (cb conn b err), vec)) \<Longrightarrow> ?case"
    using wf by (intro exI [of _ 0] exI [of _ "[]"] exI [of _ b]) auto
  show ?case
  proof (cases "10 \<le> ?h \<and> ?h \<le> 67108864 \<and> ?h + 4 \<le> int (length (content b))")
    case False
    then have "ParseMessages e lib cb conn b vec = Inr (0, conn, b, vec) \<or>
        ParseMessages e lib cb conn b vec =
          Inr (- 1, fst (cb conn b kInvalidLength), snd (cb conn b kInvalidLength), vec)"
      using ParseMessages_round [OF wf, of e lib cb conn vec]
      by (auto simp: Let_def case_prod_beta)
    then show ?thesis
      by (intro stop) auto
  next
    case True
    obtain om err where p: "parse_spec lib (buffer b) (unat (peek b) + 4) (nat ?h) = (om, err)"
      by fastforce
    show ?thesis
    proof (cases om)
      case None
      then have "err \<noteq> kNoError"
        using parse_spec_NoError [OF p] by simp
      moreover have "ParseMessages e lib cb conn b vec =
          Inr (- 1, fst (cb conn b err), snd (cb conn b err), vec)"
        using ParseMessages_stop_round [OF wf, of lib err e cb conn vec] True p None
        by (simp add: case_prod_beta)
      ultimately show ?thesis
        by (intro stop) auto
    next
      case (Some m)
      then have "parse_spec lib (buffer b) (unat (peek b) + 4) (nat ?h) = (Some m, kNoError)"
        using parse_spec_NoError [OF p] p by simp
      then obtain b1 where b1: "ParseMessages e lib cb conn b vec = ParseMessages e lib cb conn b1 (vec @ [m])"
        "buffer_wf b1" "content b1 = drop (4 + nat ?h) (content b)" "buffer_room b \<le> buffer_room b1"
        using ParseMessages_ok_round [OF wf, of lib m e cb conn vec] True by auto
      have "length (content b1) < length (content b)"
        using b1(3) True by auto
      from less.hyps [OF this b1(2), of "vec @ [m]"]
      obtain k ms b0 where r: "k \<le> length (content b1)" "buffer_wf b0" "content b0 = drop k (content b1)"
        "buffer_room b1 \<le> buffer_room b0"
        "ParseMessages e lib cb conn b1 (vec @ [m]) = Inr (0, conn, b0, (vec @ [m]) @ ms) \<or>
         (\<exists>err. err \<noteq> kNoError \<and> ParseMessages e lib cb conn b1 (vec @ [m]) =
           Inr (- 1, fst (cb conn b0 err), snd (cb conn b0 err), (vec @ [m]) @ ms))"
        by blast
      have "k + (4 + nat ?h) \<le> length (content b)"
        using r(1) b1(3) True by auto
      then show ?thesis
        using r b1 by (intro exI [of _ "k + (4 + nat ?h)"] exI [of _ "m # ms"] exI [of _ b0]) auto
    qed
  qed
qed

section \<open>Receiving a stream in pieces\<close>

fun feed ::
  "endian \<Rightarrow> ('m, 'd) message_lib \<Rightarrow> ('c \<Rightarrow> Buffer \<Rightarrow> ErrorCode \<Rightarrow> 'c \<times> Buffer) \<Rightarrow>
   'c \<Rightarrow> Buffer \<Rightarrow> 'm list \<Rightarrow> byte list list \<Rightarrow> (int \<times> 'c \<times> Buffer \<times> 'm list) result" where
  "feed e lib cb conn buf vec [] = Inr (0, conn, buf, vec)"
| "feed e lib cb conn buf vec (c # cs) =
     rbind (append_bytes buf c) (\<lambda>b1.
     rbind (ParseMessages e lib cb conn b1 vec) (\<lambda>(rc, conn', b2, vec').
       if rc = 0 then feed e lib cb conn' b2 vec' cs else Inr (rc, conn', b2, vec')))"

lemma header_take4: "4 \<le> k \<Longrightarrow> header (take k xs) = header xs"
  by (simp add: header_def min_def)

lemma incomplete_prefix:
  assumes ok: "message_ok lib m" and k: "k < length (frame lib m)"
  shows "incomplete (take k (frame lib m @ ys))"
proof (cases "k < 14")
  case True
  then show ?thesis by (simp add: incomplete_def)
next
  case False
  have "int (length (frame_body lib m)) \<le> 67108864" "GetTypeName lib m \<noteq> []"
    using ok by (simp_all add: message_ok_def decodable_def)
  moreover have "header (take k (frame lib m @ ys)) = int (length (frame_body lib m))"
    using False header_frame [OF ok, of ys] header_take4 [of k "frame lib m @ ys"] by linarith
  ultimately show ?thesis
    using k by (cases "GetTypeName lib m") (auto simp: incomplete_def)
qed

text \<open>Any prefix of a stream of frames is a number of whole frames and an incomplete rest.\<close>

lemma split_stream:
  assumes "concat (map (frame lib) ms) = xs @ ys" and "\<forall>m \<in> set ms. message_ok lib m"
  shows "\<exists>us vs rest. ms = us @ vs \<and> xs = concat (map (frame lib) us) @ rest \<and>
     rest @ ys = concat (map (frame lib) vs) \<and> incomplete rest"
  using assms
proof (induction ms arbitrary: xs)
  case Nil
  then show ?case by (auto simp: incomplete_def)
next
  case (Cons m ms)
  show ?case
  proof (cases "length xs < length (frame lib m)")
    case True
    have "xs = take (length xs) (frame lib m @ concat (map (frame lib) ms))"
      using Cons.prems(1) by (metis append_eq_conv_conj concat.simps(2) list.simps(9))
    then have "incomplete xs"
      using incomplete_prefix [OF _ True] Cons.prems(2) by (metis list.set_intros(1))
    then show ?thesis
      using Cons.prems(1) by (intro exI [of _ "[]"] exI [of _ "m # ms"] exI [of _ xs]) simp
  next
    case False
    then obtain zs where zs: "xs = frame lib m @ zs" "zs @ ys = concat (map (frame lib) ms)"
      using Cons.prems(1) by (auto simp: append_eq_append_conv2 simp del: length_frame)
    then obtain us vs rest where "ms = us @ vs" "zs = concat (map (frame lib) us) @ rest"
      "rest @ ys = concat (map (frame lib) vs)" "incomplete rest"
      using Cons.IH [of zs] Cons.prems(2) by auto
    then show ?thesis
      using zs(1) by (intro exI [of _ "m # us"] exI [of _ vs] exI [of _ rest]) simp
  qed
qed

lemma feed_frames:
  assumes "buffer_wf b" and "content b @ concat cs = concat (map (frame lib) ms)"
    and "\<forall>m \<in> set ms. message_ok lib m" and "incomplete (content b)"
    and "length (concat cs) \<le> buffer_room b"
  shows "\<exists>b'. feed e lib cb conn b vec cs = Inr (0, conn, b', vec @ ms) \<and> buffer_wf b' \<and> content b' = []"
  using assms
proof (induction cs arbitrary: b vec ms)
  case Nil
  have "ms = []"
  proof (rule ccontr)
    assume "ms \<noteq> []"
    then obtain m ms' where ms: "ms = m # ms'"
      by (cases ms) auto
    then have ok: "message_ok lib m" and c: "content b = frame lib m @ concat (map (frame lib) ms')"
      using Nil by auto
    then have "GetTypeName lib m \<noteq> []" "header (content b) = int (length (frame_body lib m))"
      using header_frame [OF ok] by (simp_all add: message_ok_def decodable_def)
    then show False
      using Nil.prems(4) c by (cases "GetTypeName lib m") (auto simp: incomplete_def)
  qed
  then show ?case using Nil by simp
next
  case (Cons c cs)
  obtain b1 where b1: "append_bytes b c = Inr b1" "buffer_wf b1" "content b1 = content b @ c"
    "length (concat cs) \<le> buffer_room b1"
    using airbuf.append_law [OF Cons.prems(1), of c] Cons.prems(5) by auto
  have "concat (map (frame lib) ms) = content b1 @ concat cs"
    using Cons.prems(2) b1(3) by simp
  from split_stream [OF this Cons.prems(3)] obtain us vs rest where s: "ms = us @ vs"
    "content b1 = concat (map (frame lib) us) @ rest" "rest @ concat cs = concat (map (frame lib) vs)"
    "incomplete rest"
    by blast
  obtain b2 where b2: "ParseMessages e lib cb conn b1 vec = ParseMessages e lib cb conn b2 (vec @ us)"
    "buffer_wf b2" "content b2 = rest" "buffer_room b1 \<le> buffer_room b2"
    using ParseMessages_frames [OF b1(2) s(2), of e cb conn vec] s(1) Cons.prems(3) by auto
  have "ParseMessages e lib cb conn b1 vec = Inr (0, conn, b2, vec @ us)"
    using b2 s(4) by (simp add: ParseMessages_incomplete)
  then show ?case
    using Cons.IH [of b2 vs "vec @ us"] b1 b2 s Cons.prems(3) by auto
qed

section \<open>A concrete message library\<close>

text \<open>
  For the witnesses: messages of one type, whose serialization is their payload, and the
  Adler-32 checksum computed as zlib documents it.
\<close>

definition adler32_ref :: "32 word \<Rightarrow> byte list \<Rightarrow> 32 word" where
  "adler32_ref adler bs =
     (let (a, b) = foldl (\<lambda>(a, b) x. let a' = (a + unat x) mod 65521 in (a', (b + a') mod 65521))
                     (unat adler mod 65536, unat adler div 65536) bs
      in of_nat (b * 65536 + a))"

definition blob_lib :: "(byte list, unit) message_lib" where
  "blob_lib =
     \<lparr>GetTypeName = (\<lambda>_. [66]), IsInitialized = (\<lambda>_. True), InitializationErrorString = (\<lambda>_. []),
      ByteSize = (\<lambda>m. of_nat (length m)), SerializeWithCachedSizesToArray = (\<lambda>m. m),
      FindMessageTypeByName = (\<lambda>n. if n = [66] then Some () else None),
      GetPrototype = (\<lambda>_. Some []), New = (\<lambda>_. []),
      ParseFromArray = (\<lambda>_ p n. if sint n < 0 then None
                                 else (case read_ptr p (nat (sint n)) of Inr bs \<Rightarrow> Some bs | Inl _ \<Rightarrow> None)),
      adler32 = adler32_ref\<rparr>"

lemma blob_lib_simps [simp]:
  "GetTypeName blob_lib m = [66]" "IsInitialized blob_lib m" "ByteSize blob_lib m = of_nat (length m)"
  "SerializeWithCachedSizesToArray blob_lib m = m" "adler32 blob_lib = adler32_ref"
  "CreateMessage blob_lib n = (if n = [66] then Some [] else None)"
  by (simp_all add: blob_lib_def CreateMessage_def)

lemma blob_ok: "length m < 1024 \<Longrightarrow> message_ok blob_lib m"
  by (simp add: message_ok_def encodable_def decodable_def sint_of_nat_int32 blob_lib_def CreateMessage_def)

text \<open>A buffer that holds given bytes behind the usual headroom.\<close>

definition staged :: "byte list \<Rightarrow> Buffer" where
  "staged xs = \<lparr>buffer = replicate 8 0 @ xs, readerIndex = 8, writerIndex = of_nat (8 + length xs)\<rparr>"

lemma staged [simp]:
  assumes "length xs < 2 ^ 62"
  shows "buffer_wf (staged xs)" and "content (staged xs) = xs"
proof -
  have "unat (of_nat (8 + length xs) :: size_t) = 8 + length xs"
    using assms by (intro unat_of_length) simp
  then show "buffer_wf (staged xs)" "content (staged xs) = xs"
    using assms by (simp_all add: staged_def buffer_wf_def content_def window_def vector_max_size_def
        del: of_nat_add)
qed

section \<open>Sending\<close>

text \<open>A connection that records the bytes it is given, and a run of \<^verbatim>\<open>SendMsg\<close> calls on it.\<close>

fun send_all :: "endian \<Rightarrow> ('m, 'd) message_lib \<Rightarrow> byte list \<Rightarrow> 'm list \<Rightarrow> byte list result" where
  "send_all e lib out [] = Inr out"
| "send_all e lib out (m # ms) =
     rbind (SendMsg e lib (\<lambda>o' b. o' @ content b) out m) (\<lambda>out'. send_all e lib out' ms)"

lemma SendMsg_frame:
  assumes "encodable lib m" and "length (frame_body lib m) < 2 ^ 31"
  shows "SendMsg e lib (\<lambda>o' b. o' @ content b) out m = Inr (out @ frame lib m)"
proof -
  have "\<exists>b'. FillEmptyBuffer e lib fresh_buffer m = Inr b' \<and> buffer_wf b' \<and> content b' = frame lib m"
    using assms by (intro FillEmptyBuffer_frame) auto
  then show ?thesis
    by (auto simp: SendMsg_def Buffer_ctor_fresh)
qed

lemma send_all_frames:
  assumes "\<forall>m \<in> set ms. message_ok lib m"
  shows "send_all e lib out ms = Inr (out @ concat (map (frame lib) ms))"
  using assms
proof (induction ms arbitrary: out)
  case (Cons m ms)
  then have "encodable lib m" "length (frame_body lib m) < 2 ^ 31"
    by (simp_all add: message_ok_def)
  then show ?case
    using Cons by (simp add: SendMsg_frame)
qed simp

section \<open>Properties of the codec\<close>

text \<open>
  C2 (roundtrip). Sending messages with \<^verbatim>\<open>SendMsg\<close> on a host of one byte order and decoding
  with \<^verbatim>\<open>ParseMessages\<close> on a host of any byte order: every send succeeds, and however the
  byte stream is cut into pieces on the way, the receiver reports success for every piece,
  obtains exactly the messages sent, in order, each once, and its buffer ends empty.
\<close>

theorem codec_stream_roundtrip:
  assumes "\<forall>m \<in> set ms. message_ok lib m" and "length (concat (map (frame lib) ms)) < 2 ^ 62"
  shows "\<exists>stream. send_all e lib [] ms = Inr stream \<and>
     (\<forall>chunks. concat chunks = stream \<longrightarrow>
        (\<exists>b'. feed e' lib cb conn fresh_buffer [] chunks = Inr (0, conn, b', ms) \<and> content b' = []))"
proof (intro exI [of _ "concat (map (frame lib) ms)"] conjI allI impI)
  show "send_all e lib [] ms = Inr (concat (map (frame lib) ms))"
    using send_all_frames [OF assms(1)] by simp
  fix chunks
  assume "concat chunks = concat (map (frame lib) ms)"
  then have "\<exists>b'. feed e' lib cb conn fresh_buffer [] chunks = Inr (0, conn, b', [] @ ms) \<and>
      buffer_wf b' \<and> content b' = []"
    using assms by (intro feed_frames) (auto simp: incomplete_def)
  then show "\<exists>b'. feed e' lib cb conn fresh_buffer [] chunks = Inr (0, conn, b', ms) \<and> content b' = []"
    by auto
qed

theorem codec_stream_roundtrip_witness:
  "let s = concat (map (frame blob_lib) [[1, 2], [3]]) in
   \<exists>b'. feed LittleEndian blob_lib (\<lambda>c b err. (c, b)) () fresh_buffer [] [take 5 s, take 12 (drop 5 s), drop 17 s]
          = Inr (0, (), b', [[1, 2], [3]]) \<and> content b' = []"
proof -
  let ?ms = "[[1, 2], [3]] :: byte list list"
  have ok: "\<forall>m \<in> set ?ms. message_ok blob_lib m"
    by (simp add: blob_ok)
  define s where "s = concat (map (frame blob_lib) ?ms)"
  have "length s < 2 ^ 62"
    by (simp add: s_def)
  then obtain stream where st: "send_all BigEndian blob_lib [] ?ms = Inr stream"
    "\<forall>chunks. concat chunks = stream \<longrightarrow>
       (\<exists>b'. feed LittleEndian blob_lib (\<lambda>c b err. (c, b)) () fresh_buffer [] chunks = Inr (0, (), b', ?ms) \<and>
          content b' = [])"
    using codec_stream_roundtrip [OF ok, of BigEndian LittleEndian "\<lambda>c b err. (c, b)" "()"]
    unfolding s_def by blast
  have "stream = s"
    using st(1) send_all_frames [OF ok, of BigEndian "[]"] by (simp add: s_def)
  moreover have "concat [take 5 s, take 12 (drop 5 s), drop 17 s] = s"
    using append_take_drop_id [of 12 "drop 5 s"] by simp
  ultimately show ?thesis
    using st(2) unfolding Let_def s_def [symmetric] by blast
qed



text \<open>
  C25 (error). Whole frames followed by a complete frame whose checksum does not match: the
  messages before it are delivered, the callback gets \<^verbatim>\<open>kCheckSumError\<close> with the buffer
  positioned at the bad frame, and the parser returns -1 without touching what follows.
\<close>

theorem codec_checksum_error:
  assumes "buffer_wf b" and "\<forall>m \<in> set ms. message_ok lib m"
    and "content b = concat (map (frame lib) ms) @ be_bytes (of_nat (length body) :: int32) @ body @ ys"
    and "10 \<le> length body" and "length body \<le> 67108864"
    and "adler32 lib 1 (take (length body - 4) body) \<noteq> be_word (drop (length body - 4) body)"
  shows "\<exists>b0. content b0 = be_bytes (of_nat (length body) :: int32) @ body @ ys \<and>
     ParseMessages e lib cb conn b vec =
       (let (conn', b') = cb conn b0 kCheckSumError in Inr (- 1, conn', b', vec @ ms))"
proof -
  let ?bad = "be_bytes (of_nat (length body) :: int32) @ body @ ys"
  obtain b0 where b0: "ParseMessages e lib cb conn b vec = ParseMessages e lib cb conn b0 (vec @ ms)"
    "buffer_wf b0" "content b0 = ?bad"
    using ParseMessages_frames [OF assms(1,3,2), of e cb conn vec] by blast
  have hd: "header (content b0) = int (length body)"
    using assms(5) b0(3) by (simp add: header_def sint_of_nat_int32)
  have "parse_spec lib (buffer b0) (unat (peek b0) + 4) (length body) = (None, kCheckSumError)"
    using body_in_buffer [OF b0(2,3)] assms(6) by (simp add: parse_spec_def Let_def)
  then have "ParseMessages e lib cb conn b0 (vec @ ms) =
      (let (conn', b') = cb conn b0 kCheckSumError in Inr (- 1, conn', b', vec @ ms))"
    using assms(4,5) b0(3) hd by (intro ParseMessages_stop_round [OF b0(2)]) auto
  with b0 show ?thesis by auto
qed

theorem codec_checksum_error_witness:
  "\<exists>b0. content b0 = be_bytes (10 :: int32) @ replicate 10 1 \<and>
     ParseMessages LittleEndian blob_lib (\<lambda>c b err. (err, b)) kNoError
       (staged (be_bytes (10 :: int32) @ replicate 10 1)) [[3]] =
       Inr (- 1, kCheckSumError, b0, [[3]])"
proof -
  let ?b = "staged (be_bytes (10 :: int32) @ replicate 10 1)"
  have "adler32_ref 1 [1, 1, 1, 1, 1, 1] = 1769479" "be_word [1, 1, 1, 1] = (16843009 :: 32 word)"
    by (simp_all add: adler32_ref_def be_word_def)
  moreover have "replicate 6 1 = [1, 1, 1, 1, 1, 1 :: byte]" "replicate 4 1 = [1, 1, 1, 1 :: byte]"
    by (simp_all add: numeral_eq_Suc)
  ultimately have "adler32_ref 1 (replicate 6 1) \<noteq> be_word (replicate 4 1)"
    by simp
  then show ?thesis
    using codec_checksum_error [of ?b "[]" blob_lib "replicate 10 1" "[]" LittleEndian
        "\<lambda>c b err. (err, b)" kNoError "[[3]]"] by simp
qed

text \<open>
  Whole frames followed by at least a minimal frame's worth of bytes whose length
  field is out of range: the messages before it are delivered, the callback gets
  \<^verbatim>\<open>kInvalidLength\<close> and the parser returns -1, without waiting for the announced bytes.
\<close>

lemma codec_invalid_length:
  assumes "buffer_wf b" and "\<forall>m \<in> set ms. message_ok lib m"
    and "content b = concat (map (frame lib) ms) @ be_bytes (len :: int32) @ ys" and "10 \<le> length ys"
    and "sint len < sint kMinMessageLen \<or> sint kMaxMessageLen < sint len"
  shows "\<exists>b0. content b0 = be_bytes len @ ys \<and>
     ParseMessages e lib cb conn b vec =
       (let (conn', b') = cb conn b0 kInvalidLength in Inr (- 1, conn', b', vec @ ms))"
proof -
  obtain b0 where b0: "ParseMessages e lib cb conn b vec = ParseMessages e lib cb conn b0 (vec @ ms)"
    "buffer_wf b0" "content b0 = be_bytes len @ ys"
    using ParseMessages_frames [OF assms(1,3,2), of e cb conn vec] by blast
  have "header (content b0) = sint len"
    using b0(3) by (simp add: header_def)
  then have "ParseMessages e lib cb conn b0 (vec @ ms) =
      (let (conn', b') = cb conn b0 kInvalidLength in Inr (- 1, conn', b', vec @ ms))"
    using ParseMessages_round [OF b0(2), of e lib cb conn "vec @ ms"] b0(3) assms(4,5)
    by (auto simp: Let_def)
  with b0 show ?thesis by auto
qed

text \<open>
  C26 (error). The two ends disagree on the maximal message length: \<^verbatim>\<open>SendMsg\<close> sends a message
  whose body exceeds \<^verbatim>\<open>kMaxMessageLen\<close>, and the receiving parser answers the frame with
  \<^verbatim>\<open>kInvalidLength\<close>.
\<close>

theorem codec_oversize_message:
  assumes "encodable lib m" and "sint kMaxMessageLen < int (length (frame_body lib m))"
    and "length (frame_body lib m) < 2 ^ 31"
    and "buffer_wf b" and "content b = frame lib m"
  shows "SendMsg e lib (\<lambda>o' b. o' @ content b) out m = Inr (out @ frame lib m) \<and>
     ParseMessages e' lib cb conn b vec =
       (let (conn', b') = cb conn b kInvalidLength in Inr (- 1, conn', b', vec))"
proof
  show "SendMsg e lib (\<lambda>o' b. o' @ content b) out m = Inr (out @ frame lib m)"
    using assms(1,3) by (rule SendMsg_frame)
  have "header (content b) = int (length (frame_body lib m))"
    using assms(3,5) by (simp add: header_def frame_def sint_of_nat_int32 del: length_frame_body)
  then show "ParseMessages e' lib cb conn b vec =
       (let (conn', b') = cb conn b kInvalidLength in Inr (- 1, conn', b', vec))"
    using ParseMessages_round [OF assms(4), of e' lib cb conn vec] assms(2,5) by (auto simp: Let_def)
qed

theorem codec_oversize_message_witness:
  "let m = replicate 67108864 0 :: byte list; b = staged (frame blob_lib m) in
   SendMsg LittleEndian blob_lib (\<lambda>o' b. o' @ content b) [] m = Inr (frame blob_lib m) \<and>
   ParseMessages BigEndian blob_lib (\<lambda>c b err. (err, b)) kNoError b [] = Inr (- 1, kInvalidLength, b, [])"
proof -
  define m where "m = (replicate 67108864 0 :: byte list)"
  have len: "length m = 67108864"
    by (simp only: m_def length_replicate)
  have "encodable blob_lib m"
    by (simp add: encodable_def len)
  then show ?thesis
    using codec_oversize_message [of blob_lib m "staged (frame blob_lib m)" LittleEndian "[]" BigEndian
        "\<lambda>c b err. (err, b)" kNoError "[]"]
    unfolding Let_def m_def [symmetric] by (simp add: len)
qed

text \<open>
  C27 (error). The bound on the name length does not account for the length field itself: a
  frame with a valid checksum and a name length within 4 of the upper bound is accepted, and
  \<^verbatim>\<open>ParseFromArray\<close> is called with a negative size.
\<close>

theorem parse_negative_size:
  assumes "off + n \<le> length blk" and "10 \<le> n" and "n \<le> 67108864"
    and "adler32 lib 1 (take (n - 4) (drop off blk)) = be_word (take 4 (drop (off + n - 4) blk))"
    and "be_word (take 4 (drop off blk)) = (nameLen :: int32)"
    and "int n - 8 < sint nameLen" and "sint nameLen \<le> int n - 4"
    and "CreateMessage lib (take (nat (sint nameLen - 1)) (drop (off + 4) blk)) = Some proto"
  shows "\<exists>size. sint size = int n - 8 - sint nameLen \<and> sint size < 0 \<and>
     Parse e lib (Ptr blk (int off)) (of_nat n) =
       Inr (case ParseFromArray lib proto (Ptr blk (int off + 4 + sint nameLen)) size of
              None \<Rightarrow> (None, kParseError) | Some m \<Rightarrow> (Some m, kNoError))"
proof -
  let ?body = "take n (drop off blk)"
  have 1: "take 4 ?body = take 4 (drop off blk)" "take (n - 4) ?body = take (n - 4) (drop off blk)"
    using assms(2) by (simp_all add: min_def)
  have "n + off - (n + off - 4) = 4"
    using assms(2) by simp
  then have 2: "drop (n - 4) ?body = take 4 (drop (off + n - 4) blk)"
    using assms(1,2) by (simp add: drop_take add.commute)
  have "nat (sint nameLen - 1) + 4 \<le> n"
    using assms(6,7,2) by linarith
  then have 3: "take (nat (sint nameLen - 1)) (drop 4 ?body) = take (nat (sint nameLen - 1)) (drop (off + 4) blk)"
    by (simp add: drop_take min_def add.commute)
  have "sint (of_nat n - nameLen - 8 :: int32) = int n - 8 - sint nameLen"
    using assms(2,3,6,7)
    by (subst sint_diff_int32; subst sint_diff_int32) (simp_all add: sint_of_nat_int32)
  moreover have "parse_spec lib blk off n =
      (case ParseFromArray lib proto (Ptr blk (int off + 4 + sint nameLen)) (of_nat n - nameLen - 8) of
              None \<Rightarrow> (None, kParseError) | Some m \<Rightarrow> (Some m, kNoError))"
    using assms(2,4-8) unfolding parse_spec_def Let_def 1 2 assms(5) 3 by simp
  moreover have "Parse e lib (Ptr blk (int off)) (of_nat n) = Inr (parse_spec lib blk off n)"
    using assms(1-3) by (intro Parse_spec) auto
  ultimately show ?thesis
    using assms(6) by (intro exI [of _ "of_nat n - nameLen - 8"]) simp
qed

theorem parse_negative_size_witness:
  "let lib = blob_lib\<lparr>FindMessageTypeByName := (\<lambda>n. if n = [66, 66] then Some () else None),
                      ParseFromArray := (\<lambda>_ _ n. if n = - 1 then Some [9] else None)\<rparr> in
   Parse LittleEndian lib (Ptr [0, 0, 0, 3, 66, 66, 0, 213, 0, 136] 0) 10 = Inr (Some [9], kNoError)"
proof -
  define lib where "lib = blob_lib\<lparr>FindMessageTypeByName := (\<lambda>n. if n = [66, 66] then Some () else None),
                      ParseFromArray := (\<lambda>_ _ n. if n = - 1 then Some [9] else None)\<rparr>"
  let ?blk = "[0, 0, 0, 3, 66, 66, 0, 213, 0, 136] :: byte list"
  have lib: "CreateMessage lib [66, 66] = Some []" "adler32 lib = adler32_ref"
    "ParseFromArray lib [] p n = (if n = - 1 then Some [9] else None)" for p n
    by (simp_all add: lib_def CreateMessage_def blob_lib_def)
  have sum: "adler32_ref 1 [0, 0, 0, 3, 66, 66] = be_word [0, 213, 0, 136]" "be_word [0, 0, 0, 3] = (3 :: int32)"
    by (simp_all add: adler32_ref_def be_word_def)
  have "\<exists>size. sint size = int 10 - 8 - sint (3 :: int32) \<and> sint size < 0 \<and>
     Parse LittleEndian lib (Ptr ?blk (int 0)) (of_nat 10) =
       Inr (case ParseFromArray lib [] (Ptr ?blk (int 0 + 4 + sint (3 :: int32))) size of
              None \<Rightarrow> (None, kParseError) | Some m \<Rightarrow> (Some m, kNoError))"
    using lib sum by (intro parse_negative_size) simp_all
  then obtain size :: int32 where "sint size = - 1"
     and p: "Parse LittleEndian lib (Ptr ?blk 0) 10 =
       Inr (case ParseFromArray lib [] (Ptr ?blk 7) size of
              None \<Rightarrow> (None, kParseError) | Some m \<Rightarrow> (Some m, kNoError))"
    by auto
  then have "size = - 1"
    by (subst word_eq_iff_signed) simp
  with p lib(3) show ?thesis
    unfolding lib_def [symmetric] Let_def by simp
qed

text \<open>
  \<^verbatim>\<open>ByteSizeConsistencyError\<close> never returns: whichever size is off, a
  \<^verbatim>\<open>GOOGLE_CHECK\<close> fails. So encoding a message whose serializer writes a number of bytes
  other than \<^verbatim>\<open>ByteSize\<close> never produces a frame.
\<close>

lemma encode_size_mismatch_fatal:
  "ByteSizeConsistencyError before_size after_size produced = Inl FatalCheck \<and>
   (int (length (SerializeWithCachedSizesToArray lib m)) \<noteq> sint (ByteSize lib m) \<longrightarrow>
    (\<exists>f. FillEmptyBuffer e lib b m = Inl f))"
proof -
  have *: "ByteSizeConsistencyError x y z = Inl FatalCheck" for x y z
    by (simp add: ByteSizeConsistencyError_def ensure_def)
  show ?thesis
  proof (intro conjI impI *)
    assume "int (length (SerializeWithCachedSizesToArray lib m)) \<noteq> sint (ByteSize lib m)"
    then have "FillEmptyBuffer e lib b m \<noteq> Inr b'" for b'
      by (auto simp: FillEmptyBuffer_def rbind_eq_Inr Let_def * )
    then show "\<exists>f. FillEmptyBuffer e lib b m = Inl f"
      by (cases "FillEmptyBuffer e lib b m") auto
  qed
qed

end
