(* ===== verification/Mutex.thy ===== *)
theory Mutex
  imports Airnet_Prelude
begin

text \<open>
  The lock classes of \<^verbatim>\<open>src/common/base\<close>: \<^verbatim>\<open>current_thread.h\<close>, \<^verbatim>\<open>mutex.h\<close>, \<^verbatim>\<open>rwlock.h\<close> and the
  wait of \<^verbatim>\<open>condition.h\<close>. A call of a pthread function by thread \<open>t\<close> is one atomic step on
  the state of the lock, with the outcome that POSIX documents for the default attributes:
  it completes, it blocks in this state, or it is an error.
\<close>

section \<open>Outcomes of blocking calls\<close>

datatype 'a outcome = Done 'a | Blocked | Failed fault

fun obind :: "'a outcome \<Rightarrow> ('a \<Rightarrow> 'b outcome) \<Rightarrow> 'b outcome" where
  "obind (Done x) f = f x"
| "obind Blocked f = Blocked"
| "obind (Failed e) f = Failed e"

definition oensure :: "bool \<Rightarrow> unit outcome" where
  "oensure b = (if b then Done () else Failed AssertFailed)"

lemma obind_eq_Done: "obind m f = Done y \<longleftrightarrow> (\<exists>x. m = Done x \<and> f x = Done y)"
  by (cases m) auto

lemma obind_oensure [simp]: "obind (oensure b) f = (if b then f () else Failed AssertFailed)"
  by (simp add: oensure_def)

section \<open>CurrentThread\<close>

text \<open>
  The cached thread id. The argument \<open>gettid\<close> is what \<^verbatim>\<open>CacheTid\<close>, which is only declared,
  stores; the result is the value returned and the new cache.
\<close>

type_synonym pid = int

definition tid :: "pid \<Rightarrow> pid \<Rightarrow> pid \<times> pid" where
  "tid gettid t_cachedTid =
     (let t_cachedTid' = (if t_cachedTid = 0 then gettid else t_cachedTid) in (t_cachedTid', t_cachedTid'))"

section \<open>pthread mutexes\<close>

type_synonym pthread_mutex = "pid option"

definition pthread_mutex_lock :: "pid \<Rightarrow> pthread_mutex \<Rightarrow> pthread_mutex outcome" where
  "pthread_mutex_lock t mtx = (case mtx of None \<Rightarrow> Done (Some t) | Some _ \<Rightarrow> Blocked)"

definition pthread_mutex_unlock :: "pid \<Rightarrow> pthread_mutex \<Rightarrow> pthread_mutex outcome" where
  "pthread_mutex_unlock t mtx = (if mtx = Some t then Done None else Failed UndefinedBehaviour)"

text \<open>\<open>expired\<close> says whether the deadline has passed; the call then returns \<^verbatim>\<open>ETIMEDOUT\<close>.\<close>

definition pthread_mutex_timedlock :: "pid \<Rightarrow> bool \<Rightarrow> pthread_mutex \<Rightarrow> (bool \<times> pthread_mutex) outcome" where
  "pthread_mutex_timedlock t expired mtx =
     (case mtx of
        None \<Rightarrow> Done (True, Some t)
      | Some _ \<Rightarrow> if expired then Done (False, mtx) else Blocked)"

section \<open>MutexLock\<close>

record MutexLock =
  mutex :: pthread_mutex
  holder :: pid

definition MutexLock_ctor :: MutexLock where
  "MutexLock_ctor = \<lparr>mutex = None, holder = 0\<rparr>"

text \<open>The destructor; \<^verbatim>\<open>pthread_mutex_destroy\<close> reports \<^verbatim>\<open>EBUSY\<close> on a locked mutex.\<close>

definition MutexLock_dtor :: "MutexLock \<Rightarrow> unit outcome" where
  "MutexLock_dtor m = obind (oensure (holder m = 0)) (\<lambda>_. oensure (mutex m = None))"

definition IsLockedByThisThread :: "pid \<Rightarrow> MutexLock \<Rightarrow> bool" where
  "IsLockedByThisThread t m \<longleftrightarrow> holder m = t"

definition AssertLocked :: "pid \<Rightarrow> MutexLock \<Rightarrow> unit outcome" where
  "AssertLocked t m = oensure (IsLockedByThisThread t m)"

definition assign_holder :: "pid \<Rightarrow> MutexLock \<Rightarrow> MutexLock" where
  "assign_holder t m = m\<lparr>holder := t\<rparr>"

definition unassign_holder :: "MutexLock \<Rightarrow> MutexLock" where
  "unassign_holder m = m\<lparr>holder := 0\<rparr>"

definition lock :: "pid \<Rightarrow> MutexLock \<Rightarrow> MutexLock outcome" where
  "lock t m = obind (pthread_mutex_lock t (mutex m)) (\<lambda>mtx. Done (assign_holder t (m\<lparr>mutex := mtx\<rparr>)))"

definition unlock :: "pid \<Rightarrow> MutexLock \<Rightarrow> MutexLock outcome" where
  "unlock t m =
     (let m' = unassign_holder m in
      obind (pthread_mutex_unlock t (mutex m')) (\<lambda>mtx. Done (m'\<lparr>mutex := mtx\<rparr>)))"

definition timed_lock :: "pid \<Rightarrow> bool \<Rightarrow> MutexLock \<Rightarrow> MutexLock outcome" where
  "timed_lock t expired m =
     obind (pthread_mutex_timedlock t expired (mutex m)) (\<lambda>(ok, mtx).
     obind (oensure ok) (\<lambda>_. Done (assign_holder t (m\<lparr>mutex := mtx\<rparr>))))"

text \<open>The guards lock in the constructor and unlock in the destructor.\<close>

definition MutexLockGuard_ctor :: "pid \<Rightarrow> MutexLock \<Rightarrow> MutexLock outcome" where
  "MutexLockGuard_ctor t m = lock t m"

definition MutexLockGuard_dtor :: "pid \<Rightarrow> MutexLock \<Rightarrow> MutexLock outcome" where
  "MutexLockGuard_dtor t m = unlock t m"

definition MutexLockTimedGuard_ctor :: "pid \<Rightarrow> bool \<Rightarrow> MutexLock \<Rightarrow> MutexLock outcome" where
  "MutexLockTimedGuard_ctor t expired m = timed_lock t expired m"

definition MutexLockTimedGuard_dtor :: "pid \<Rightarrow> MutexLock \<Rightarrow> MutexLock outcome" where
  "MutexLockTimedGuard_dtor t m = unlock t m"

subsection \<open>Waiting on a condition\<close>

text \<open>
  \<^verbatim>\<open>Condition::Wait\<close> in two parts: the unassign guard is constructed and \<^verbatim>\<open>pthread_cond_wait\<close>
  releases the mutex; when the thread has been woken and gets the mutex back, the guard's
  destructor assigns the holder again.
\<close>

definition UnassignGuard_ctor :: "MutexLock \<Rightarrow> MutexLock" where
  "UnassignGuard_ctor m = unassign_holder m"

definition UnassignGuard_dtor :: "pid \<Rightarrow> MutexLock \<Rightarrow> MutexLock" where
  "UnassignGuard_dtor t m = assign_holder t m"

definition Wait_enter :: "pid \<Rightarrow> MutexLock \<Rightarrow> MutexLock outcome" where
  "Wait_enter t m =
     (let m' = UnassignGuard_ctor m in
      obind (pthread_mutex_unlock t (mutex m')) (\<lambda>mtx. Done (m'\<lparr>mutex := mtx\<rparr>)))"

definition Wait_leave :: "pid \<Rightarrow> MutexLock \<Rightarrow> MutexLock outcome" where
  "Wait_leave t m =
     obind (pthread_mutex_lock t (mutex m)) (\<lambda>mtx. Done (UnassignGuard_dtor t (m\<lparr>mutex := mtx\<rparr>)))"

subsection \<open>The holder agrees with the mutex\<close>

definition mutex_wf :: "MutexLock \<Rightarrow> bool" where
  "mutex_wf m \<longleftrightarrow> (case mutex m of None \<Rightarrow> holder m = 0 | Some t \<Rightarrow> holder m = t \<and> t \<noteq> 0)"

lemmas mutex_defs = lock_def unlock_def timed_lock_def Wait_enter_def Wait_leave_def
  UnassignGuard_ctor_def UnassignGuard_dtor_def assign_holder_def unassign_holder_def
  pthread_mutex_lock_def pthread_mutex_unlock_def pthread_mutex_timedlock_def
  MutexLockGuard_ctor_def MutexLockGuard_dtor_def MutexLockTimedGuard_ctor_def
  MutexLockTimedGuard_dtor_def

lemma lock_simps [simp]:
  "lock t m = (if mutex m = None then Done (m\<lparr>mutex := Some t, holder := t\<rparr>) else Blocked)"
  "unlock t m = (if mutex m = Some t then Done (m\<lparr>mutex := None, holder := 0\<rparr>) else Failed UndefinedBehaviour)"
  "Wait_enter t m = (if mutex m = Some t then Done (m\<lparr>mutex := None, holder := 0\<rparr>) else Failed UndefinedBehaviour)"
  "Wait_leave t m = (if mutex m = None then Done (m\<lparr>mutex := Some t, holder := t\<rparr>) else Blocked)"
  "timed_lock t expired m =
     (if mutex m = None then Done (m\<lparr>mutex := Some t, holder := t\<rparr>)
      else if expired then Failed AssertFailed else Blocked)"
  by (auto simp: mutex_defs Let_def split: option.splits)

lemmas guard_simps [simp] = MutexLockGuard_ctor_def MutexLockGuard_dtor_def
  MutexLockTimedGuard_ctor_def MutexLockTimedGuard_dtor_def

lemma mutex_wf_ctor [simp]: "mutex_wf MutexLock_ctor"
  by (simp add: mutex_wf_def MutexLock_ctor_def)

lemma mutex_wf_acquired [simp]: "t \<noteq> 0 \<Longrightarrow> mutex_wf (m\<lparr>mutex := Some t, holder := t\<rparr>)"
  by (simp add: mutex_wf_def)

lemma mutex_wf_released [simp]: "mutex_wf (m\<lparr>mutex := None, holder := 0\<rparr>)"
  by (simp add: mutex_wf_def)

lemma mutex_wf_IsLocked:
  "mutex_wf m \<Longrightarrow> t \<noteq> 0 \<Longrightarrow> IsLockedByThisThread t m \<longleftrightarrow> mutex m = Some t"
  by (auto simp: mutex_wf_def IsLockedByThisThread_def split: option.splits)

end
