(* ===== verification/Double_Guard.thy ===== *)
theory Double_Guard
  imports Mutex
begin

text \<open>
  \<^verbatim>\<open>MutexLockTimedDoubleGuard\<close> of \<^verbatim>\<open>src/common/base/mutex.h\<close>: taking two mutexes in the order of
  their addresses. Any number of threads, each with a guard on its own pair of mutexes, run
  interleaved; the theory shows that they never wait for each other in a circle.
\<close>

section \<open>The guard\<close>

text \<open>The addresses the constructor locks and the destructor unlocks, in order.\<close>

definition DoubleGuard_ctor :: "nat \<Rightarrow> nat \<Rightarrow> nat list outcome" where
  "DoubleGuard_ctor lhs rhs =
     (if lhs < rhs then Done [lhs, rhs]
      else obind (oensure (lhs \<noteq> rhs)) (\<lambda>_. Done [rhs, lhs]))"

definition DoubleGuard_dtor :: "nat \<Rightarrow> nat \<Rightarrow> nat list outcome" where
  "DoubleGuard_dtor lhs rhs =
     (if lhs < rhs then Done [rhs, lhs]
      else obind (oensure (lhs \<noteq> rhs)) (\<lambda>_. Done [lhs, rhs]))"

section \<open>Threads with guards\<close>

record guard_thread =
  me :: pid
  acquire :: "nat list"
  release :: "nat list"

record guard_state =
  mem :: "nat \<Rightarrow> MutexLock"
  guards :: "guard_thread list"

definition start_guard :: "pid \<Rightarrow> nat \<Rightarrow> nat \<Rightarrow> guard_thread outcome" where
  "start_guard t lhs rhs =
     obind (DoubleGuard_ctor lhs rhs) (\<lambda>as.
     obind (DoubleGuard_dtor lhs rhs) (\<lambda>rs. Done \<lparr>me = t, acquire = as, release = rs\<rparr>))"

definition guard_step :: "nat \<Rightarrow> bool \<Rightarrow> guard_state \<Rightarrow> guard_state outcome" where
  "guard_step i expired s =
     (let th = guards s ! i in
      case acquire th of
        a # as \<Rightarrow>
          obind (timed_lock (me th) expired (mem s a)) (\<lambda>m.
            Done (s\<lparr>mem := (mem s)(a := m), guards := (guards s)[i := th\<lparr>acquire := as\<rparr>]\<rparr>))
      | [] \<Rightarrow>
          (case release th of
             a # as \<Rightarrow>
               obind (unlock (me th) (mem s a)) (\<lambda>m.
                 Done (s\<lparr>mem := (mem s)(a := m), guards := (guards s)[i := th\<lparr>release := as\<rparr>]\<rparr>))
           | [] \<Rightarrow> Blocked))"

definition finished :: "guard_thread \<Rightarrow> bool" where
  "finished th \<longleftrightarrow> acquire th = [] \<and> release th = []"

definition guard_init :: "guard_state \<Rightarrow> bool" where
  "guard_init s \<longleftrightarrow> mem s = (\<lambda>_. MutexLock_ctor) \<and> distinct (map me (guards s)) \<and>
     (\<forall>th \<in> set (guards s). \<exists>lhs rhs. start_guard (me th) lhs rhs = Done th)"

inductive guard_reach :: "guard_state \<Rightarrow> guard_state \<Rightarrow> bool" for s0 where
  start: "guard_reach s0 s0"
| step: "guard_reach s0 s \<Longrightarrow> i < length (guards s) \<Longrightarrow> guard_step i expired s = Done s' \<Longrightarrow> guard_reach s0 s'"

section \<open>The invariant\<close>

text \<open>What a thread holds, and the five stages of a guard on \<open>lo\<close> and \<open>hi\<close>.\<close>

definition held :: "guard_thread \<Rightarrow> nat set" where
  "held th = set (release th) - set (acquire th)"

definition stage :: "guard_thread \<Rightarrow> bool" where
  "stage th \<longleftrightarrow> (\<exists>lo hi. lo < hi \<and>
     (acquire th, release th) \<in> {([lo, hi], [hi, lo]), ([hi], [hi, lo]), ([], [hi, lo]), ([], [lo]), ([], [])})"

definition guard_inv :: "guard_state \<Rightarrow> bool" where
  "guard_inv s \<longleftrightarrow> distinct (map me (guards s)) \<and> (\<forall>th \<in> set (guards s). stage th) \<and>
     (\<forall>a p. mutex (mem s a) = Some p \<longleftrightarrow> (\<exists>th \<in> set (guards s). me th = p \<and> a \<in> held th))"

lemma stageE:
  assumes "stage th"
  obtains (none) lo hi where "lo < hi" "acquire th = [lo, hi]" "release th = [hi, lo]" "held th = {}"
    | (low) lo hi where "lo < hi" "acquire th = [hi]" "release th = [hi, lo]" "held th = {lo}"
    | (both) lo hi where "lo < hi" "acquire th = []" "release th = [hi, lo]" "held th = {lo, hi}"
    | (last) lo where "acquire th = []" "release th = [lo]" "held th = {lo}"
    | (idle) "acquire th = []" "release th = []" "held th = {}"
  using assms unfolding stage_def held_def by fastforce

lemma start_guard_stage: "start_guard t lhs rhs = Done th \<Longrightarrow> stage th \<and> held th = {} \<and> me th = t"
  by (auto simp: start_guard_def DoubleGuard_ctor_def DoubleGuard_dtor_def obind_eq_Done oensure_def
      stage_def held_def split: if_splits)

lemma guard_inv_init: "guard_init s \<Longrightarrow> guard_inv s"
  using start_guard_stage by (fastforce simp: guard_init_def guard_inv_def MutexLock_ctor_def)

lemma bex_nth: "(\<exists>u \<in> set xs. P u) \<longleftrightarrow> (\<exists>j < length xs. P (xs ! j))"
  by (metis in_set_conv_nth)

text \<open>Replacing one thread by itself with a lock more or a lock less keeps the invariant.\<close>

lemma guard_inv_update:
  assumes inv: "guard_inv s" and i: "i < length (guards s)" and th: "th = guards s ! i"
    and th': "stage th'" "me th' = me th"
    and m: "mutex m = (if a \<in> held th' then Some (me th) else None)"
    and rest: "held th' - {a} = held th - {a}"
    and a: "mutex (mem s a) = None \<or> mutex (mem s a) = Some (me th)"
  shows "guard_inv (s\<lparr>mem := (mem s)(a := m), guards := (guards s)[i := th']\<rparr>)"
proof -
  let ?g = "guards s"
  have me: "map me (?g[i := th']) = map me ?g"
    using i th th'(2) by (metis list_update_id map_update nth_map)
  have inj: "me (?g ! j) = me th \<longleftrightarrow> j = i" if "j < length ?g" for j
    using inv i th that by (auto simp: guard_inv_def distinct_conv_nth)
  have owner: "mutex (mem s b) = Some p \<longleftrightarrow> (\<exists>j < length ?g. me (?g ! j) = p \<and> b \<in> held (?g ! j))" for b p
    using inv unfolding guard_inv_def by (metis in_set_conv_nth)
  have "mutex (((mem s)(a := m)) b) = Some p \<longleftrightarrow>
      (\<exists>j < length ?g. me (?g[i := th'] ! j) = p \<and> b \<in> held (?g[i := th'] ! j))" for b p
  proof (cases "b = a")
    case True
    have other: "a \<notin> held (?g ! j)" if "j < length ?g" "j \<noteq> i" for j
    proof
      assume "a \<in> held (?g ! j)"
      then have "mutex (mem s a) = Some (me (?g ! j))"
        using owner that by blast
      with a inj [OF that(1)] that(2) show False by auto
    qed
    show ?thesis
      using True m other i th'(2) by (auto simp: nth_list_update)
  next
    case False
    then have "b \<in> held th' \<longleftrightarrow> b \<in> held th"
      using rest by blast
    then have "me (?g[i := th'] ! j) = p \<and> b \<in> held (?g[i := th'] ! j) \<longleftrightarrow>
        me (?g ! j) = p \<and> b \<in> held (?g ! j)" if "j < length ?g" for j
      using that i th th'(2) by (cases "j = i") auto
    then show ?thesis
      using owner False by auto
  qed
  then have "mutex (((mem s)(a := m)) b) = Some p \<longleftrightarrow>
      (\<exists>u \<in> set (?g[i := th']). me u = p \<and> b \<in> held u)" for b p
    by (simp only: bex_nth length_list_update)
  moreover have "\<forall>u \<in> set (?g[i := th']). stage u"
    using inv th'(1) set_update_subset_insert [of ?g i th'] by (auto simp: guard_inv_def)
  moreover have "distinct (map me (?g[i := th']))"
    using inv unfolding me by (simp add: guard_inv_def)
  ultimately show ?thesis
    by (simp add: guard_inv_def)
qed

lemma guard_inv_step:
  assumes inv: "guard_inv s" and i: "i < length (guards s)" and step: "guard_step i expired s = Done s'"
  shows "guard_inv s'"
proof -
  let ?th = "guards s ! i"
  have "stage ?th"
    using inv i by (auto simp: guard_inv_def)
  have own: "mutex (mem s a) = Some (me ?th)" if "a \<in> held ?th" for a
    using inv i that by (auto simp: guard_inv_def)
  note upd = guard_inv_update [OF inv i refl]
  from \<open>stage ?th\<close> show ?thesis
  proof (cases rule: stageE)
    case (none lo hi)
    then have "guard_inv (s\<lparr>mem := (mem s)(lo := m), guards := (guards s)[i := ?th\<lparr>acquire := [hi]\<rparr>]\<rparr>)"
      if "mutex m = Some (me ?th)" "mutex (mem s lo) = None" for m
      using that by (intro upd) (auto simp: stage_def held_def)
    then show ?thesis
      using step none by (auto simp: guard_step_def Let_def split: if_splits)
  next
    case (low lo hi)
    then have "guard_inv (s\<lparr>mem := (mem s)(hi := m), guards := (guards s)[i := ?th\<lparr>acquire := []\<rparr>]\<rparr>)"
      if "mutex m = Some (me ?th)" "mutex (mem s hi) = None" for m
      using that by (intro upd) (auto simp: stage_def held_def)
    then show ?thesis
      using step low by (auto simp: guard_step_def Let_def split: if_splits)
  next
    case (both lo hi)
    then have "guard_inv (s\<lparr>mem := (mem s)(hi := m), guards := (guards s)[i := ?th\<lparr>release := [lo]\<rparr>]\<rparr>)"
      if "mutex m = None" "mutex (mem s hi) = Some (me ?th)" for m
      using that by (intro upd) (auto simp: stage_def held_def)
    then show ?thesis
      using step both by (auto simp: guard_step_def Let_def split: if_splits)
  next
    case (last lo)
    then have "guard_inv (s\<lparr>mem := (mem s)(lo := m), guards := (guards s)[i := ?th\<lparr>release := []\<rparr>]\<rparr>)"
      if "mutex m = None" "mutex (mem s lo) = Some (me ?th)" for m
      using that by (intro upd) (auto simp: stage_def held_def)
    then show ?thesis
      using step last by (auto simp: guard_step_def Let_def split: if_splits)
  next
    case idle
    then show ?thesis
      using step by (simp add: guard_step_def)
  qed
qed

lemma guard_reach_inv:
  assumes "guard_reach s0 s" and "guard_init s0"
  shows "guard_inv s"
  using assms
proof induction
  case start
  then show ?case by (rule guard_inv_init)
next
  case (step s i expired s')
  then show ?case using guard_inv_step by blast
qed

section \<open>Progress\<close>

lemma guard_step_free:
  assumes "acquire (guards s ! i) = a # as" and "mutex (mem s a) = None"
  shows "\<exists>s'. guard_step i expired s = Done s'"
  using assms by (simp add: guard_step_def Let_def)

lemma guard_step_release:
  assumes "guard_inv s" and "i < length (guards s)" and "acquire (guards s ! i) = []"
    and "release (guards s ! i) = a # as"
  shows "\<exists>s'. guard_step i expired s = Done s'"
proof -
  have "a \<in> held (guards s ! i)"
    using assms(3,4) by (simp add: held_def)
  then have "mutex (mem s a) = Some (me (guards s ! i))"
    using assms(1,2) by (auto simp: guard_inv_def)
  then show ?thesis
    using assms(3,4) by (simp add: guard_step_def Let_def)
qed

lemma mutex_free_or_held:
  assumes "guard_inv s"
  shows "mutex (mem s a) = None \<or> (\<exists>j < length (guards s). a \<in> held (guards s ! j))"
  using assms unfolding guard_inv_def by (metis in_set_conv_nth not_None_eq)

lemma guard_progress:
  assumes inv: "guard_inv s" and i: "i < length (guards s)" "\<not> finished (guards s ! i)"
  shows "\<exists>j < length (guards s). \<exists>s'. guard_step j expired s = Done s'"
proof (rule ccontr)
  assume stuck: "\<not> ?thesis"
  let ?g = "guards s"
  have stage: "stage (?g ! j)" if "j < length ?g" for j
    using inv that by (auto simp: guard_inv_def)
  have waiting: "acquire (?g ! j) \<noteq> [] \<or> release (?g ! j) = []" if "j < length ?g" for j
    using guard_step_release [OF inv that] stuck that by (cases "release (?g ! j)") blast+
  have low: "\<exists>lo hi. lo < hi \<and> acquire (?g ! j) = [hi] \<and> held (?g ! j) = {lo}"
    if "j < length ?g" "held (?g ! j) \<noteq> {}" for j
    using stage [OF that(1)] by (cases rule: stageE) (use waiting that in auto)
  have up: "\<exists>k < length ?g. Min (held (?g ! j)) < Min (held (?g ! k)) \<and> held (?g ! k) \<noteq> {}"
    if j: "j < length ?g" "held (?g ! j) \<noteq> {}" for j
  proof -
    obtain lo hi where lh: "lo < hi" "acquire (?g ! j) = [hi]" "held (?g ! j) = {lo}"
      using low [OF j] by blast
    have "mutex (mem s hi) \<noteq> None"
      using guard_step_free [OF lh(2)] stuck j(1) by blast
    with mutex_free_or_held [OF inv, of hi] obtain k where k: "k < length ?g" "hi \<in> held (?g ! k)"
      by blast
    then obtain lo' where "held (?g ! k) = {lo'}"
      using low [of k] by blast
    with k lh show ?thesis by (intro exI [of _ k]) auto
  qed
  let ?H = "{j. j < length ?g \<and> held (?g ! j) \<noteq> {}}"
  have "finite ?H" by simp
  have "?H = {}"
  proof (rule ccontr)
    assume "?H \<noteq> {}"
    define top where "top = Max ((\<lambda>j. Min (held (?g ! j))) ` ?H)"
    have "top \<in> (\<lambda>j. Min (held (?g ! j))) ` ?H"
      unfolding top_def using \<open>finite ?H\<close> \<open>?H \<noteq> {}\<close> by (intro Max_in) auto
    then obtain j where "j \<in> ?H" "top = Min (held (?g ! j))" by blast
    with up obtain k where "k \<in> ?H" "top < Min (held (?g ! k))" by blast
    moreover have "Min (held (?g ! k)) \<le> top"
      unfolding top_def using \<open>finite ?H\<close> \<open>k \<in> ?H\<close> by (intro Max_ge) auto
    ultimately show False by simp
  qed
  then have "mutex (mem s a) = None" for a
    using mutex_free_or_held [OF inv, of a] by blast
  moreover have "acquire (?g ! i) \<noteq> []"
    using waiting [OF i(1)] i(2) by (auto simp: finished_def)
  ultimately show False
    using guard_step_free [of s i] stuck i(1) by (metis neq_Nil_conv)
qed

text \<open>
  C15 (safety). Threads that each take two different mutexes through
  \<^verbatim>\<open>MutexLockTimedDoubleGuard\<close>, in any interleaving: as long as some guard is not finished,
  some thread can make its next step without a lock timing out, and no thread ever runs into a
  failure other than an expired deadline. There is no deadlock.
\<close>

theorem double_guard_no_deadlock:
  assumes "guard_init s0" and "guard_reach s0 s"
    and "i < length (guards s)" and "\<not> finished (guards s ! i)"
  shows "(\<exists>j < length (guards s). \<exists>s'. guard_step j False s = Done s') \<and>
     (\<forall>f. guard_step i False s \<noteq> Failed f)"
proof
  have inv: "guard_inv s"
    using assms(1,2) by (rule guard_reach_inv [rotated])
  then show "\<exists>j < length (guards s). \<exists>s'. guard_step j False s = Done s'"
    using assms(3,4) by (rule guard_progress)
  show "\<forall>f. guard_step i False s \<noteq> Failed f"
  proof (cases "acquire (guards s ! i)")
    case Nil
    then show ?thesis
      using guard_step_release [OF inv assms(3)] assms(4)
      by (metis finished_def neq_Nil_conv outcome.distinct(3))
  next
    case (Cons a as)
    then show ?thesis by (simp add: guard_step_def Let_def)
  qed
qed

theorem double_guard_no_deadlock_witness:
  "let s = \<lparr>mem = (\<lambda>_. MutexLock_ctor),
            guards = [\<lparr>me = 1, acquire = [3, 7], release = [7, 3]\<rparr>, \<lparr>me = 2, acquire = [3, 7], release = [7, 3]\<rparr>]\<rparr> in
   start_guard 1 3 7 = Done (guards s ! 0) \<and> start_guard 2 7 3 = Done (guards s ! 1) \<and>
   (\<exists>j < 2. \<exists>s'. guard_step j False s = Done s')"
proof -
  define s where "s = \<lparr>mem = (\<lambda>_. MutexLock_ctor),
    guards = [\<lparr>me = 1, acquire = [3, 7], release = [7, 3]\<rparr>, \<lparr>me = 2, acquire = [3, 7], release = [7, 3]\<rparr>]\<rparr>"
  have 1: "start_guard 1 3 7 = Done (guards s ! 0)" "start_guard 2 7 3 = Done (guards s ! 1)"
    by (simp_all add: s_def start_guard_def DoubleGuard_ctor_def DoubleGuard_dtor_def)
  then have "guard_init s"
    by (auto simp: guard_init_def s_def)
  then show ?thesis
    using 1 double_guard_no_deadlock [of s s 0] unfolding s_def [symmetric] Let_def
    by (simp add: guard_reach.start) (simp add: s_def finished_def numeral_2_eq_2)
qed

end
