(* ===== verification/RWLock.thy ===== *)
theory RWLock
  imports Mutex
begin

text \<open>
  \<^verbatim>\<open>RWLock\<close> and its guards (\<^verbatim>\<open>src/common/base/rwlock.h\<close>). The state of a \<^verbatim>\<open>pthread_rwlock_t\<close> is
  the list of threads that hold it for reading and the thread that holds it for writing.
\<close>

section \<open>pthread read-write locks\<close>

record pthread_rwlock =
  readers :: "pid list"
  writer :: "pid option"

datatype errno = NoErr | EDEADLK | ETIMEDOUT | EBUSY

definition pthread_rwlock_rdlock :: "pid \<Rightarrow> pthread_rwlock \<Rightarrow> (errno \<times> pthread_rwlock) outcome" where
  "pthread_rwlock_rdlock t k =
     (case writer k of
        None \<Rightarrow> Done (NoErr, k\<lparr>readers := t # readers k\<rparr>)
      | Some w \<Rightarrow> if w = t then Done (EDEADLK, k) else Blocked)"

definition pthread_rwlock_wrlock :: "pid \<Rightarrow> pthread_rwlock \<Rightarrow> (errno \<times> pthread_rwlock) outcome" where
  "pthread_rwlock_wrlock t k =
     (if writer k = None \<and> readers k = [] then Done (NoErr, k\<lparr>writer := Some t\<rparr>)
      else if writer k = Some t then Done (EDEADLK, k)
      else Blocked)"

definition pthread_rwlock_timedrdlock :: "pid \<Rightarrow> bool \<Rightarrow> pthread_rwlock \<Rightarrow> (errno \<times> pthread_rwlock) outcome" where
  "pthread_rwlock_timedrdlock t expired k =
     (case pthread_rwlock_rdlock t k of
        Blocked \<Rightarrow> if expired then Done (ETIMEDOUT, k) else Blocked
      | r \<Rightarrow> r)"

definition pthread_rwlock_timedwrlock :: "pid \<Rightarrow> bool \<Rightarrow> pthread_rwlock \<Rightarrow> (errno \<times> pthread_rwlock) outcome" where
  "pthread_rwlock_timedwrlock t expired k =
     (case pthread_rwlock_wrlock t k of
        Blocked \<Rightarrow> if expired then Done (ETIMEDOUT, k) else Blocked
      | r \<Rightarrow> r)"

definition pthread_rwlock_unlock :: "pid \<Rightarrow> pthread_rwlock \<Rightarrow> pthread_rwlock outcome" where
  "pthread_rwlock_unlock t k =
     (if writer k = Some t then Done (k\<lparr>writer := None\<rparr>)
      else if t \<in> set (readers k) then Done (k\<lparr>readers := remove1 t (readers k)\<rparr>)
      else Failed UndefinedBehaviour)"

definition pthread_rwlock_destroy :: "pthread_rwlock \<Rightarrow> errno" where
  "pthread_rwlock_destroy k = (if writer k = None \<and> readers k = [] then NoErr else EBUSY)"

section \<open>RWLock\<close>

record RWLock =
  rwlock :: pthread_rwlock
  rw_holder :: pid

definition RWLock_ctor :: RWLock where
  "RWLock_ctor = \<lparr>rwlock = \<lparr>readers = [], writer = None\<rparr>, rw_holder = 0\<rparr>"

definition rw_IsLockedByThisThread :: "pid \<Rightarrow> RWLock \<Rightarrow> bool" where
  "rw_IsLockedByThisThread t k \<longleftrightarrow> rw_holder k = t"

definition rw_AssertLocked :: "pid \<Rightarrow> RWLock \<Rightarrow> unit outcome" where
  "rw_AssertLocked t k = oensure (rw_IsLockedByThisThread t k)"

text \<open>The plain lock operations ignore the code that the pthread call returns.\<close>

definition rdlock :: "pid \<Rightarrow> RWLock \<Rightarrow> RWLock outcome" where
  "rdlock t k =
     obind (pthread_rwlock_rdlock t (rwlock k)) (\<lambda>(_, p). Done (k\<lparr>rwlock := p, rw_holder := t\<rparr>))"

definition wrlock :: "pid \<Rightarrow> RWLock \<Rightarrow> RWLock outcome" where
  "wrlock t k =
     obind (pthread_rwlock_wrlock t (rwlock k)) (\<lambda>(_, p). Done (k\<lparr>rwlock := p, rw_holder := t\<rparr>))"

definition rw_unlock :: "pid \<Rightarrow> RWLock \<Rightarrow> RWLock outcome" where
  "rw_unlock t k =
     (let k' = k\<lparr>rw_holder := 0\<rparr> in
      obind (pthread_rwlock_unlock t (rwlock k')) (\<lambda>p. Done (k'\<lparr>rwlock := p\<rparr>)))"

definition timed_rdlock :: "pid \<Rightarrow> bool \<Rightarrow> RWLock \<Rightarrow> RWLock outcome" where
  "timed_rdlock t expired k =
     obind (pthread_rwlock_timedrdlock t expired (rwlock k)) (\<lambda>(ret, p).
     obind (oensure (ret = NoErr)) (\<lambda>_. Done (k\<lparr>rwlock := p, rw_holder := t\<rparr>)))"

definition timed_wrlock :: "pid \<Rightarrow> bool \<Rightarrow> RWLock \<Rightarrow> RWLock outcome" where
  "timed_wrlock t expired k =
     obind (pthread_rwlock_timedwrlock t expired (rwlock k)) (\<lambda>(ret, p).
     obind (oensure (ret = NoErr)) (\<lambda>_. Done (k\<lparr>rwlock := p, rw_holder := t\<rparr>)))"

text \<open>
  The destructor, run by thread \<open>t\<close>: while the lock is busy it is taken for writing and
  released again. The first argument bounds the number of rounds.
\<close>

fun RWLock_dtor_loop :: "nat \<Rightarrow> pid \<Rightarrow> RWLock \<Rightarrow> unit outcome" where
  "RWLock_dtor_loop 0 t k = Blocked"
| "RWLock_dtor_loop (Suc n) t k =
     (case pthread_rwlock_destroy (rwlock k) of
        EBUSY \<Rightarrow> obind (wrlock t k) (\<lambda>k1. obind (rw_unlock t k1) (RWLock_dtor_loop n t))
      | ret \<Rightarrow> oensure (ret = NoErr))"

definition RWLock_dtor :: "pid \<Rightarrow> RWLock \<Rightarrow> unit outcome" where
  "RWLock_dtor t k = obind (oensure (rw_holder k = 0)) (\<lambda>_. RWLock_dtor_loop 2 t k)"

text \<open>The guards.\<close>

definition RWLockReadGuard_ctor :: "pid \<Rightarrow> RWLock \<Rightarrow> RWLock outcome" where
  "RWLockReadGuard_ctor t k = rdlock t k"

definition RWLockReadGuard_dtor :: "pid \<Rightarrow> RWLock \<Rightarrow> RWLock outcome" where
  "RWLockReadGuard_dtor t k = rw_unlock t k"

definition RWLockWriteGuard_ctor :: "pid \<Rightarrow> RWLock \<Rightarrow> RWLock outcome" where
  "RWLockWriteGuard_ctor t k = wrlock t k"

definition RWLockWriteGuard_dtor :: "pid \<Rightarrow> RWLock \<Rightarrow> RWLock outcome" where
  "RWLockWriteGuard_dtor t k = rw_unlock t k"

definition RWLockTimedReadGuard_ctor :: "pid \<Rightarrow> bool \<Rightarrow> RWLock \<Rightarrow> RWLock outcome" where
  "RWLockTimedReadGuard_ctor t expired k = timed_rdlock t expired k"

definition RWLockTimedReadGuard_dtor :: "pid \<Rightarrow> RWLock \<Rightarrow> RWLock outcome" where
  "RWLockTimedReadGuard_dtor t k = rw_unlock t k"

definition RWLockTimedWriteGuard_ctor :: "pid \<Rightarrow> bool \<Rightarrow> RWLock \<Rightarrow> RWLock outcome" where
  "RWLockTimedWriteGuard_ctor t expired k = timed_wrlock t expired k"

definition RWLockTimedWriteGuard_dtor :: "pid \<Rightarrow> RWLock \<Rightarrow> RWLock outcome" where
  "RWLockTimedWriteGuard_dtor t k = rw_unlock t k"

lemmas rwlock_defs = pthread_rwlock_rdlock_def pthread_rwlock_wrlock_def pthread_rwlock_timedrdlock_def
  pthread_rwlock_timedwrlock_def pthread_rwlock_unlock_def rdlock_def wrlock_def rw_unlock_def
  timed_rdlock_def timed_wrlock_def RWLockReadGuard_ctor_def RWLockReadGuard_dtor_def
  RWLockWriteGuard_ctor_def RWLockWriteGuard_dtor_def RWLockTimedReadGuard_ctor_def
  RWLockTimedReadGuard_dtor_def RWLockTimedWriteGuard_ctor_def RWLockTimedWriteGuard_dtor_def

section \<open>Readers or a writer\<close>

datatype rw_call = RdLock | WrLock | TimedRdLock bool | TimedWrLock bool | UnLock

fun rw_exec :: "pid \<Rightarrow> rw_call \<Rightarrow> RWLock \<Rightarrow> RWLock outcome" where
  "rw_exec t RdLock k = rdlock t k"
| "rw_exec t WrLock k = wrlock t k"
| "rw_exec t (TimedRdLock expired) k = timed_rdlock t expired k"
| "rw_exec t (TimedWrLock expired) k = timed_wrlock t expired k"
| "rw_exec t UnLock k = rw_unlock t k"

fun rw_calls :: "(pid \<times> rw_call) list \<Rightarrow> RWLock \<Rightarrow> RWLock outcome" where
  "rw_calls [] k = Done k"
| "rw_calls ((t, c) # cs) k = obind (rw_exec t c k) (rw_calls cs)"

definition rw_wf :: "RWLock \<Rightarrow> bool" where
  "rw_wf k \<longleftrightarrow> (writer (rwlock k) \<noteq> None \<longrightarrow> readers (rwlock k) = [])"

lemma rw_exec_wf: "rw_exec t c k = Done k' \<Longrightarrow> rw_wf k \<Longrightarrow> rw_wf k'"
  by (cases c) (auto simp: rw_wf_def rwlock_defs Let_def obind_eq_Done oensure_def split: option.splits if_splits outcome.splits)

lemma rw_calls_wf: "rw_calls cs k = Done k' \<Longrightarrow> rw_wf k \<Longrightarrow> rw_wf k'"
proof (induction cs k rule: rw_calls.induct)
  case (2 t c cs k)
  then show ?case using rw_exec_wf by (fastforce simp: obind_eq_Done)
qed simp

text \<open>Two rounds of the destructor's loop are enough: more do not change the outcome.\<close>

lemma RWLock_dtor_loop_rounds:
  assumes "rw_wf k"
  shows "RWLock_dtor_loop (Suc (Suc n)) t k = RWLock_dtor_loop 2 t k"
proof (cases "writer (rwlock k) = Some t")
  case True
  then show ?thesis
    using assms by (simp add: numeral_2_eq_2 pthread_rwlock_destroy_def wrlock_def pthread_rwlock_wrlock_def
        rw_unlock_def pthread_rwlock_unlock_def rw_wf_def)
next
  case False
  then show ?thesis
    by (simp add: numeral_2_eq_2 pthread_rwlock_destroy_def wrlock_def pthread_rwlock_wrlock_def)
qed





end
