(* ===== verification/Monitor.thy ===== *)
theory Monitor
  imports Mutex
begin

text \<open>
  Threads that run the methods of a class guarded by one \<^verbatim>\<open>MutexLock\<close> and some \<^verbatim>\<open>Condition\<close>s
  (\<^verbatim>\<open>src/common/base/mutex.h\<close>, \<^verbatim>\<open>condition.h\<close>). A method is the list of its synchronisation
  actions and of the statements between them; threads interleave at every action. A method
  that satisfies its proof obligation \<open>wp\<close> keeps the invariant of the class and runs into no
  failed assertion in any interleaving with any number of threads.
\<close>

section \<open>Methods and threads\<close>

text \<open>
  \<open>Body\<close> is a named statement on the fields of the object and the locals of the call, with
  the events it contributes to the history; \<open>Peek\<close> reads fields, possibly without the lock;
  \<open>WaitWhile p c\<close> is \<^verbatim>\<open>while (p) c.Wait();\<close> and \<open>NotifyIf p c\<close> is \<^verbatim>\<open>if (p) c.Notify();\<close>.
\<close>

datatype ('s, 'l, 'e) act =
    Lock
  | Unlock
  | Body string "'s \<Rightarrow> 'l \<Rightarrow> ('s \<times> 'l \<times> 'e list) result"
  | Peek "'s \<Rightarrow> 'l \<Rightarrow> 'l"
  | WaitWhile "'s \<Rightarrow> bool" nat
  | NotifyIf "'s \<Rightarrow> 'l \<Rightarrow> bool" nat
  | NotifyAll nat

abbreviation Notify :: "nat \<Rightarrow> ('s, 'l, 'e) act" where
  "Notify c \<equiv> NotifyIf (\<lambda>_ _. True) c"

datatype ('s, 'l, 'e) thread =
    Running "('s, 'l, 'e) act list" 'l
  | Waiting nat "('s, 'l, 'e) act list" 'l
  | Woken "('s, 'l, 'e) act list" 'l

record ('s, 'l, 'e) monitor_state =
  mlock :: MutexLock
  shared :: 's
  history :: "'e list"
  threads :: "('s, 'l, 'e) thread list"

definition tid_of :: "nat \<Rightarrow> pid" where
  "tid_of i = int i + 1"

fun waits_on :: "nat \<Rightarrow> ('s, 'l, 'e) thread \<Rightarrow> bool" where
  "waits_on c (Waiting c' p l) = (c' = c)"
| "waits_on c _ = False"

fun wake :: "('s, 'l, 'e) thread \<Rightarrow> ('s, 'l, 'e) thread" where
  "wake (Waiting c p l) = Woken p l"
| "wake th = th"

text \<open>\<^verbatim>\<open>Condition::Notify\<close>: a waiting thread, chosen by the scheduler, is woken if there is one.\<close>

definition Condition_Notify ::
  "nat \<Rightarrow> nat \<Rightarrow> ('s, 'l, 'e) thread list \<Rightarrow> ('s, 'l, 'e) thread list outcome" where
  "Condition_Notify c pick ths =
     (if \<not> list_ex (waits_on c) ths then Done ths
      else if pick < length ths \<and> waits_on c (ths ! pick) then Done (ths[pick := wake (ths ! pick)])
      else Blocked)"

definition Condition_NotifyAll :: "nat \<Rightarrow> ('s, 'l, 'e) thread list \<Rightarrow> ('s, 'l, 'e) thread list" where
  "Condition_NotifyAll c ths = map (\<lambda>th. if waits_on c th then wake th else th) ths"

definition with_thread ::
  "nat \<Rightarrow> ('s, 'l, 'e) thread \<Rightarrow> ('s, 'l, 'e) monitor_state \<Rightarrow> ('s, 'l, 'e) monitor_state" where
  "with_thread i th s = s\<lparr>threads := (threads s)[i := th]\<rparr>"

text \<open>The next action of thread \<open>i\<close>.\<close>

definition run_act ::
  "nat \<Rightarrow> nat \<Rightarrow> ('s, 'l, 'e) monitor_state \<Rightarrow> ('s, 'l, 'e) monitor_state outcome" where
  "run_act i pick s =
     (case threads s ! i of
        Running (a # r) l \<Rightarrow>
          (case a of
             Lock \<Rightarrow>
               obind (MutexLockGuard_ctor (tid_of i) (mlock s)) (\<lambda>m.
                 Done (with_thread i (Running r l) (s\<lparr>mlock := m\<rparr>)))
           | Unlock \<Rightarrow>
               obind (MutexLockGuard_dtor (tid_of i) (mlock s)) (\<lambda>m.
                 Done (with_thread i (Running r l) (s\<lparr>mlock := m\<rparr>)))
           | Body name f \<Rightarrow>
               (case f (shared s) l of
                  Inl e \<Rightarrow> Failed e
                | Inr (sh, l', ev) \<Rightarrow>
                    Done (with_thread i (Running r l') (s\<lparr>shared := sh, history := history s @ ev\<rparr>)))
           | Peek f \<Rightarrow> Done (with_thread i (Running r (f (shared s) l)) s)
           | WaitWhile p c \<Rightarrow>
               if p (shared s) then
                 obind (Wait_enter (tid_of i) (mlock s)) (\<lambda>m.
                   Done (with_thread i (Waiting c (a # r) l) (s\<lparr>mlock := m\<rparr>)))
               else Done (with_thread i (Running r l) s)
           | NotifyIf p c \<Rightarrow>
               if p (shared s) l then
                 obind (Condition_Notify c pick (threads s)) (\<lambda>ths.
                   Done (with_thread i (Running r l) (s\<lparr>threads := ths\<rparr>)))
               else Done (with_thread i (Running r l) s)
           | NotifyAll c \<Rightarrow>
               Done (with_thread i (Running r l) (s\<lparr>threads := Condition_NotifyAll c (threads s)\<rparr>)))
      | Woken p l \<Rightarrow>
          obind (Wait_leave (tid_of i) (mlock s)) (\<lambda>m. Done (with_thread i (Running p l) (s\<lparr>mlock := m\<rparr>)))
      | _ \<Rightarrow> Blocked)"

text \<open>
  Steps of the whole system: a thread runs its next action, a waiting thread wakes up
  spuriously, or a thread that is between calls calls a method.
\<close>

inductive monitor_step ::
  "(('s, 'l, 'e) act list \<times> 'l) set \<Rightarrow> ('s, 'l, 'e) monitor_state \<Rightarrow> ('s, 'l, 'e) monitor_state \<Rightarrow> bool"
  for methods where
  run: "i < length (threads s) \<Longrightarrow> run_act i pick s = Done s' \<Longrightarrow> monitor_step methods s s'"
| spurious: "i < length (threads s) \<Longrightarrow> monitor_step methods s (with_thread i (wake (threads s ! i)) s)"
| call: "i < length (threads s) \<Longrightarrow> threads s ! i = Running [] l0 \<Longrightarrow> (p, l) \<in> methods \<Longrightarrow>
    monitor_step methods s (with_thread i (Running p l) s)"

definition monitor_init :: "('s, 'l, 'e) monitor_state \<Rightarrow> bool" where
  "monitor_init s \<longleftrightarrow> mlock s = MutexLock_ctor \<and> history s = [] \<and>
     (\<forall>th \<in> set (threads s). \<exists>l. th = Running [] l)"

text \<open>Runs given by a schedule, to evaluate concrete interleavings.\<close>

datatype ('s, 'l, 'e) sched = Run nat nat | Call nat "('s, 'l, 'e) act list" 'l

fun run_schedule ::
  "('s, 'l, 'e) sched list \<Rightarrow> ('s, 'l, 'e) monitor_state \<Rightarrow> ('s, 'l, 'e) monitor_state outcome" where
  "run_schedule [] s = Done s"
| "run_schedule (Run i pick # es) s = obind (run_act i pick s) (run_schedule es)"
| "run_schedule (Call i p l # es) s =
     (case threads s ! i of
        Running [] _ \<Rightarrow> run_schedule es (with_thread i (Running p l) s)
      | _ \<Rightarrow> Blocked)"

fun legal :: "(('s, 'l, 'e) act list \<times> 'l) set \<Rightarrow> nat \<Rightarrow> ('s, 'l, 'e) sched \<Rightarrow> bool" where
  "legal methods n (Run i pick) \<longleftrightarrow> i < n"
| "legal methods n (Call i p l) \<longleftrightarrow> i < n \<and> (p, l) \<in> methods"

section \<open>Proof obligations\<close>

text \<open>
  What has to hold for the rest of a method to run safely, with the lock held or not, and to
  leave the invariant behind whenever it gives the lock away.
\<close>

fun wp :: "('s \<Rightarrow> 'e list \<Rightarrow> bool) \<Rightarrow> bool \<Rightarrow> ('s, 'l, 'e) act list \<Rightarrow> 's \<Rightarrow> 'l \<Rightarrow> 'e list \<Rightarrow> bool" where
  "wp I b [] s l h \<longleftrightarrow> \<not> b"
| "wp I b (Lock # r) s l h \<longleftrightarrow> \<not> b \<and> (\<forall>s h. I s h \<longrightarrow> wp I True r s l h)"
| "wp I b (Unlock # r) s l h \<longleftrightarrow> b \<and> I s h \<and> wp I False r s l h"
| "wp I b (Body name f # r) s l h \<longleftrightarrow>
     b \<and> (case f s l of Inl _ \<Rightarrow> False | Inr (s', l', ev) \<Rightarrow> wp I True r s' l' (h @ ev))"
| "wp I b (Peek f # r) s l h \<longleftrightarrow> (\<forall>v. wp I b r s (f v l) h)"
| "wp I b (WaitWhile p c # r) s l h \<longleftrightarrow>
     b \<and> (p s \<longrightarrow> I s h \<and> (\<forall>s h. I s h \<longrightarrow> \<not> p s \<longrightarrow> wp I True r s l h)) \<and> (\<not> p s \<longrightarrow> wp I True r s l h)"
| "wp I b (NotifyIf p c # r) s l h \<longleftrightarrow> wp I b r s l h"
| "wp I b (NotifyAll c # r) s l h \<longleftrightarrow> wp I b r s l h"

lemma wp_unlocked: "wp I False p s l h \<longleftrightarrow> wp I False p s' l h'"
proof (induction p arbitrary: l)
  case (Cons a p)
  then show ?case by (cases a) auto
qed simp

text \<open>What is known of each thread, and of the whole system.\<close>

definition thread_ok :: "('s \<Rightarrow> 'e list \<Rightarrow> bool) \<Rightarrow> ('s, 'l, 'e) monitor_state \<Rightarrow> nat \<Rightarrow> ('s, 'l, 'e) thread \<Rightarrow> bool" where
  "thread_ok I s i th =
     (case th of
        Running p l \<Rightarrow> wp I (mutex (mlock s) = Some (tid_of i)) p (shared s) l (history s)
      | Waiting c p l \<Rightarrow> mutex (mlock s) \<noteq> Some (tid_of i) \<and> (\<forall>s h. I s h \<longrightarrow> wp I True p s l h)
      | Woken p l \<Rightarrow> mutex (mlock s) \<noteq> Some (tid_of i) \<and> (\<forall>s h. I s h \<longrightarrow> wp I True p s l h))"

definition monitor_inv :: "('s \<Rightarrow> 'e list \<Rightarrow> bool) \<Rightarrow> ('s, 'l, 'e) monitor_state \<Rightarrow> bool" where
  "monitor_inv I s \<longleftrightarrow> mutex_wf (mlock s) \<and> (mutex (mlock s) = None \<longrightarrow> I (shared s) (history s)) \<and>
     (\<forall>i < length (threads s). thread_ok I s i (threads s ! i))"

lemma tid_of_simps [simp]: "tid_of i \<noteq> 0" "tid_of i = tid_of j \<longleftrightarrow> i = j"
  by (auto simp: tid_of_def)

lemma with_thread_simps [simp]:
  "mlock (with_thread i th s) = mlock s" "shared (with_thread i th s) = shared s"
  "history (with_thread i th s) = history s" "threads (with_thread i th s) = (threads s)[i := th]"
  by (simp_all add: with_thread_def)

text \<open>A thread without the lock does not depend on what the lock's owner does.\<close>

lemma thread_ok_frame:
  assumes "thread_ok I s i th" and "mutex (mlock s) \<noteq> Some (tid_of i)" and "mutex (mlock s') \<noteq> Some (tid_of i)"
  shows "thread_ok I s' i th"
proof (cases th)
  case (Running p l)
  then show ?thesis
    using assms wp_unlocked [of I p "shared s" l "history s" "shared s'" "history s'"]
    by (simp add: thread_ok_def)
qed (use assms in \<open>auto simp: thread_ok_def\<close>)

lemma thread_ok_cong:
  assumes "mlock s' = mlock s" and "shared s' = shared s" and "history s' = history s"
  shows "thread_ok I s' i th \<longleftrightarrow> thread_ok I s i th"
  using assms by (cases th) (simp_all add: thread_ok_def)

lemma thread_ok_wake: "thread_ok I s i th \<Longrightarrow> thread_ok I s i (wake th)"
  by (cases th) (auto simp: thread_ok_def)

lemma monitor_inv_update:
  assumes inv: "monitor_inv I s" and len: "length (threads s') = length (threads s)"
    and others: "\<And>j. j < length (threads s) \<Longrightarrow> j \<noteq> i \<Longrightarrow>
      threads s' ! j = threads s ! j \<or> threads s' ! j = wake (threads s ! j)"
    and frame: "mlock s' = mlock s \<and> shared s' = shared s \<and> history s' = history s \<or>
      {mutex (mlock s), mutex (mlock s')} \<subseteq> {None, Some (tid_of i)}"
    and wf: "mutex_wf (mlock s')" and I: "mutex (mlock s') = None \<longrightarrow> I (shared s') (history s')"
    and ok: "thread_ok I s' i (threads s' ! i)"
  shows "monitor_inv I s'"
proof -
  have "thread_ok I s' j (threads s' ! j)" if j: "j < length (threads s)" "j \<noteq> i" for j
  proof -
    have "thread_ok I s j (threads s ! j)"
      using inv j by (simp add: monitor_inv_def)
    then have "thread_ok I s j (threads s' ! j)"
      using others [OF j] thread_ok_wake by metis
    from frame show ?thesis
    proof
      assume "mlock s' = mlock s \<and> shared s' = shared s \<and> history s' = history s"
      with \<open>thread_ok I s j (threads s' ! j)\<close> show ?thesis
        using thread_ok_cong [of s' s] by simp
    next
      assume "{mutex (mlock s), mutex (mlock s')} \<subseteq> {None, Some (tid_of i)}"
      with j(2) \<open>thread_ok I s j (threads s' ! j)\<close> show ?thesis
        by (intro thread_ok_frame [of I s j _ s']) auto
    qed
  qed
  then show ?thesis
    using wf I ok len unfolding monitor_inv_def by metis
qed

lemma Condition_Notify_Done:
  assumes "Condition_Notify c pick ths = Done ths'"
  shows "length ths' = length ths" and "ths' ! j = ths ! j \<or> ths' ! j = wake (ths ! j)"
  using assms by (auto simp: Condition_Notify_def nth_list_update split: if_splits)

text \<open>Every action of a thread keeps the invariant of the system, and none fails.\<close>

lemma run_act_inv:
  assumes inv: "monitor_inv I s" and i: "i < length (threads s)"
  shows "(\<forall>s'. run_act i pick s = Done s' \<longrightarrow> monitor_inv I s') \<and> (\<forall>f. run_act i pick s \<noteq> Failed f)"
proof -
  let ?t = "tid_of i"
  have ok: "thread_ok I s i (threads s ! i)" and wf: "mutex_wf (mlock s)"
    and free: "mutex (mlock s) = None \<Longrightarrow> I (shared s) (history s)"
    using inv i by (simp_all add: monitor_inv_def)
  note upd = monitor_inv_update [OF inv, of _ i]
  show ?thesis
  proof (cases "threads s ! i")
    case (Running p l)
    note th = this
    show ?thesis
    proof (cases p)
      case Nil
      then show ?thesis using th by (simp add: run_act_def)
    next
      case (Cons a r)
      have w: "wp I (mutex (mlock s) = Some ?t) (a # r) (shared s) l (history s)"
        using ok th Cons by (simp add: thread_ok_def)
      show ?thesis
      proof (cases a)
        case Lock
        then show ?thesis
          using th Cons w i free
          by (auto simp: run_act_def thread_ok_def intro!: upd)
      next
        case Unlock
        then show ?thesis
          using th Cons w i by (auto simp: run_act_def thread_ok_def intro!: upd)
      next
        case (Body name f)
        then show ?thesis
          using th Cons w i wf
          by (auto simp: run_act_def thread_ok_def split: sum.splits intro!: upd)
      next
        case (Peek f)
        then show ?thesis
          using th Cons w i wf free by (auto simp: run_act_def thread_ok_def intro!: upd)
      next
        case (WaitWhile q c)
        then show ?thesis
          using th Cons w i wf free by (auto simp: run_act_def thread_ok_def intro!: upd)
      next
        case (NotifyIf q c)
        have "monitor_inv I (with_thread i (Running r l) (s\<lparr>threads := ths\<rparr>))"
          if "Condition_Notify c pick (threads s) = Done ths" for ths
          using NotifyIf th Cons w i wf free Condition_Notify_Done [OF that]
          by (intro upd) (auto simp: thread_ok_def)
        moreover have "monitor_inv I (with_thread i (Running r l) s)"
          using NotifyIf th Cons w i wf free by (intro upd) (auto simp: thread_ok_def)
        moreover have "Condition_Notify c pick (threads s) \<noteq> Failed f" for f
          by (simp add: Condition_Notify_def)
        ultimately show ?thesis
          using NotifyIf th Cons by (cases "Condition_Notify c pick (threads s)") (auto simp: run_act_def)
      next
        case (NotifyAll c)
        then show ?thesis
          using th Cons w i wf free
          by (auto simp: run_act_def thread_ok_def Condition_NotifyAll_def intro!: upd)
      qed
    qed
  next
    case (Waiting c p l)
    then show ?thesis by (simp add: run_act_def)
  next
    case (Woken p l)
    then show ?thesis
      using ok i free by (auto simp: run_act_def thread_ok_def intro!: upd)
  qed
qed

lemma run_act_length: "run_act i pick s = Done s' \<Longrightarrow> length (threads s') = length (threads s)"
  by (auto simp: run_act_def obind_eq_Done Condition_NotifyAll_def Condition_Notify_Done
      split: thread.splits list.splits act.splits if_splits sum.splits)

lemma run_schedule_reach:
  assumes "run_schedule es s = Done s'" and "\<forall>e \<in> set es. legal methods (length (threads s)) e"
  shows "(monitor_step methods)\<^sup>*\<^sup>* s s'"
  using assms
proof (induction es s rule: run_schedule.induct)
  case (2 i pick es s)
  then obtain s1 where "run_act i pick s = Done s1" "run_schedule es s1 = Done s'"
    by (auto simp: obind_eq_Done)
  moreover from this have "monitor_step methods s s1" "length (threads s1) = length (threads s)"
    using 2(3) by (auto intro: monitor_step.run simp: run_act_length)
  ultimately show ?case
    using 2 by (metis converse_rtranclp_into_rtranclp list.set_intros(2))
next
  case (3 i p l es s)
  then obtain l0 where "threads s ! i = Running [] l0" "run_schedule es (with_thread i (Running p l) s) = Done s'"
    by (auto split: thread.splits list.splits)
  moreover from this have "monitor_step methods s (with_thread i (Running p l) s)"
    using 3(3) by (auto intro: monitor_step.call)
  ultimately show ?case
    using 3 by (auto intro: converse_rtranclp_into_rtranclp)
qed auto

section \<open>Classes guarded by one lock\<close>

text \<open>
  The contract between a class and its callers: \<open>methods\<close> are the calls the class offers, and
  each meets its obligation for the class invariant \<open>I\<close>.
\<close>

locale monitor =
  fixes I :: "'s \<Rightarrow> 'e list \<Rightarrow> bool"
    and methods :: "(('s, 'l, 'e) act list \<times> 'l) set"
  assumes method_ok: "(p, l) \<in> methods \<Longrightarrow> wp I False p s l h"
begin

lemma step_inv:
  assumes "monitor_step methods s s'" and "monitor_inv I s"
  shows "monitor_inv I s'"
  using assms
proof cases
  case (run i pick)
  then show ?thesis using assms(2) run_act_inv by blast
next
  case (spurious i)
  then show ?thesis
    using assms(2) thread_ok_cong [of s' s I i]
    by (intro monitor_inv_update [OF assms(2), of _ i]) (auto simp: monitor_inv_def thread_ok_wake)
next
  case (call i l0 p l)
  have "mutex (mlock s) \<noteq> Some (tid_of i)"
    using call assms(2) by (auto simp: monitor_inv_def thread_ok_def)
  then show ?thesis
    using call assms(2) method_ok [of p l]
    by (intro monitor_inv_update [OF assms(2), of _ i]) (auto simp: monitor_inv_def thread_ok_def)
qed

lemma reach_inv:
  assumes "(monitor_step methods)\<^sup>*\<^sup>* s0 s" and "monitor_init s0" and "I (shared s0) []"
  shows "monitor_inv I s"
  using assms(1)
proof induction
  case base
  then show ?case
    using assms(2,3) by (auto simp: monitor_inv_def monitor_init_def thread_ok_def MutexLock_ctor_def
        mutex_wf_def all_set_conv_all_nth split: thread.splits)
next
  case (step s s')
  then show ?case using step_inv by blast
qed

text \<open>No action of any thread fails, and the invariant holds whenever the lock is free.\<close>

lemma safe:
  assumes "(monitor_step methods)\<^sup>*\<^sup>* s0 s" and "monitor_init s0" and "I (shared s0) []"
  shows "i < length (threads s) \<Longrightarrow> run_act i pick s \<noteq> Failed f"
    and "mutex (mlock s) = None \<Longrightarrow> I (shared s) (history s)"
    and "mutex_wf (mlock s)"
  using reach_inv [OF assms] run_act_inv [of I s] by (auto simp: monitor_inv_def)

end

end
