(* ===== verification/Blocking_Queue.thy ===== *)
theory Blocking_Queue
  imports Monitor "HOL-Library.Sublist"
begin

text \<open>
  \<^verbatim>\<open>BlockingQueue\<close> (\<^verbatim>\<open>src/common/base/blocking_queue.h\<close>): an unbounded queue shared by any number
  of threads. The methods are monitor programs; the history records what enters and leaves the
  queue.
\<close>

section \<open>The class\<close>

record 'a BlockingQueue =
  queue :: "'a list"

text \<open>The locals of a call: the deque passed to \<^verbatim>\<open>takeAll\<close> and the value returned.\<close>

record 'a queue_call =
  emptyQueue :: "'a list"
  ret_item :: "'a option"
  ret_size :: size_t
  ret_bool :: bool

definition no_args :: "'a queue_call" where
  "no_args = \<lparr>emptyQueue = [], ret_item = None, ret_size = 0, ret_bool = False\<rparr>"

datatype 'a queue_event = Put 'a | Took 'a | Cleared 'a

type_synonym 'a queue_method = "('a BlockingQueue, 'a queue_call, 'a queue_event) act list"

abbreviation (input) notEmpty :: nat where "notEmpty \<equiv> 0"

definition put :: "'a \<Rightarrow> 'a queue_method" where
  "put x =
     [Lock,
      Body ''push_back'' (\<lambda>q l. Inr (q\<lparr>queue := queue q @ [x]\<rparr>, l, [Put x])),
      Notify notEmpty,
      Unlock]"

definition putAll :: "'a list \<Rightarrow> 'a queue_method" where
  "putAll dataQueue =
     [Lock,
      Body ''insert'' (\<lambda>q l. Inr (q\<lparr>queue := queue q @ dataQueue\<rparr>, l, map Put dataQueue)),
      Notify notEmpty,
      Unlock]"

definition take_item :: "'a queue_method" where
  "take_item =
     [Lock,
      WaitWhile (\<lambda>q. queue q = []) notEmpty,
      Body ''pop_front'' (\<lambda>q l.
        rbind (ensure (queue q \<noteq> []) AssertFailed) (\<lambda>_.
        let front = hd (queue q) in
        Inr (q\<lparr>queue := tl (queue q)\<rparr>, l\<lparr>ret_item := Some front\<rparr>, [Took front]))),
      Unlock]"

definition takeAll :: "'a queue_method" where
  "takeAll =
     [Lock,
      WaitWhile (\<lambda>q. queue q = []) notEmpty,
      Body ''swap'' (\<lambda>q l.
        rbind (ensure (queue q \<noteq> [] \<and> emptyQueue l = []) AssertFailed) (\<lambda>_.
        Inr (q\<lparr>queue := emptyQueue l\<rparr>, l\<lparr>emptyQueue := queue q\<rparr>, map Took (queue q)))),
      Unlock]"

definition size_method :: "'a queue_method" where
  "size_method =
     [Lock,
      Body ''size'' (\<lambda>q l. Inr (q, l\<lparr>ret_size := of_nat (length (queue q))\<rparr>, [])),
      Unlock]"

definition empty_method :: "'a queue_method" where
  "empty_method = [Peek (\<lambda>q l. l\<lparr>ret_bool := (queue q = [])\<rparr>)]"

definition clearAll :: "'a queue_method" where
  "clearAll =
     [Lock,
      Body ''clear'' (\<lambda>q l. Inr (q\<lparr>queue := []\<rparr>, l, map Cleared (queue q))),
      Unlock]"

text \<open>The calls of the class; \<^verbatim>\<open>takeAll\<close> asks for an empty deque.\<close>

definition put_calls :: "('a queue_method \<times> 'a queue_call) set" where
  "put_calls = {(put x, l) | x l. True}"

definition other_calls :: "('a queue_method \<times> 'a queue_call) set" where
  "other_calls =
     {(p, l). p \<in> {take_item, size_method, empty_method, clearAll} \<or> p = takeAll \<and> emptyQueue l = []}"

definition BlockingQueue_calls :: "('a queue_method \<times> 'a queue_call) set" where
  "BlockingQueue_calls = put_calls \<union> {(putAll xs, l) | xs l. True} \<union> other_calls"

section \<open>First in, first out\<close>

definition inserted :: "'a queue_event list \<Rightarrow> 'a list" where
  "inserted h = concat (map (\<lambda>e. case e of Put x \<Rightarrow> [x] | _ \<Rightarrow> []) h)"

definition removed :: "'a queue_event list \<Rightarrow> 'a list" where
  "removed h = concat (map (\<lambda>e. case e of Put _ \<Rightarrow> [] | Took x \<Rightarrow> [x] | Cleared x \<Rightarrow> [x]) h)"

lemma inserted_simps [simp]:
  "inserted [] = []" "inserted (g @ h) = inserted g @ inserted h"
  "inserted [Put x] = [x]" "inserted [Took x] = []"
  "inserted (map Put xs) = xs" "inserted (map Took xs) = []" "inserted (map Cleared xs) = []"
  by (induction xs) (simp_all add: inserted_def)

lemma removed_simps [simp]:
  "removed [] = []" "removed (g @ h) = removed g @ removed h"
  "removed [Put x] = []" "removed [Took x] = [x]"
  "removed (map Put xs) = []" "removed (map Took xs) = xs" "removed (map Cleared xs) = xs"
  by (induction xs) (simp_all add: removed_def)

text \<open>The class invariant: what was inserted is what was removed followed by what is there.\<close>

definition fifo :: "'a BlockingQueue \<Rightarrow> 'a queue_event list \<Rightarrow> bool" where
  "fifo q h \<longleftrightarrow> inserted h = removed h @ queue q"

lemmas queue_method_defs = put_def putAll_def take_item_def takeAll_def size_method_def empty_method_def
  clearAll_def

interpretation bq: monitor fifo BlockingQueue_calls
proof
  fix p :: "'a queue_method" and l s h
  assume "(p, l) \<in> BlockingQueue_calls"
  then show "wp fifo False p s l h"
    by (auto simp: BlockingQueue_calls_def put_calls_def other_calls_def queue_method_defs fifo_def Let_def)
qed

text \<open>
  C7 (invariant). Any number of threads call the methods of one \<^verbatim>\<open>BlockingQueue\<close>, interleaved
  in any way and with spurious wakeups: no assertion fails and no mutex is released by a thread
  that does not hold it; whenever the mutex is free, the items inserted so far, in order, are
  the items removed so far, in order, followed by the content of the queue. Items are neither
  lost, duplicated nor reordered.
\<close>

theorem blocking_queue_fifo:
  assumes "monitor_init s0" and "queue (shared s0) = []"
    and "(monitor_step BlockingQueue_calls)\<^sup>*\<^sup>* s0 s"
  shows "(\<forall>i < length (threads s). \<forall>pick f. run_act i pick s \<noteq> Failed f) \<and>
     (mutex (mlock s) = None \<longrightarrow>
       inserted (history s) = removed (history s) @ queue (shared s))"
  using bq.safe(1,2) [OF assms(3,1)] assms(2) by (auto simp: fifo_def)

definition idle_threads :: "nat \<Rightarrow> ('a BlockingQueue, 'a queue_call, 'a queue_event) monitor_state" where
  "idle_threads n =
     \<lparr>mlock = MutexLock_ctor, shared = \<lparr>queue = []\<rparr>, history = [], threads = replicate n (Running [] no_args)\<rparr>"

lemma idle_threads_init [simp]:
  "monitor_init (idle_threads n)" "queue (shared (idle_threads n)) = []"
  "length (threads (idle_threads n)) = n"
  by (auto simp: idle_threads_def monitor_init_def)

text \<open>Two takers and one producer that inserts two items.\<close>

definition two_takers_run :: "(nat BlockingQueue, nat queue_call, nat queue_event) sched list" where
  "two_takers_run =
     [Call 0 take_item no_args, Run 0 0, Run 0 0,
      Call 1 take_item no_args, Run 1 0, Run 1 0,
      Call 2 (putAll [7, 8]) no_args, Run 2 0, Run 2 0, Run 2 0, Run 2 0,
      Run 0 0, Run 0 0, Run 0 0, Run 0 0]"

definition two_takers_end :: "(nat BlockingQueue, nat queue_call, nat queue_event) monitor_state" where
  "two_takers_end =
     \<lparr>mlock = MutexLock_ctor, shared = \<lparr>queue = [8]\<rparr>, history = [Put 7, Put 8, Took 7],
      threads = [Running [] (no_args\<lparr>ret_item := Some 7\<rparr>), Waiting notEmpty (tl take_item) no_args,
                 Running [] no_args]\<rparr>"

lemma two_takers_run_end: "run_schedule two_takers_run (idle_threads 3) = Done two_takers_end"
  by (simp add: two_takers_run_def two_takers_end_def idle_threads_def numeral_3_eq_3 run_act_def
      queue_method_defs with_thread_def MutexLock_ctor_def tid_of_def Condition_Notify_def numeral_2_eq_2)

lemma two_takers_reach: "(monitor_step BlockingQueue_calls)\<^sup>*\<^sup>* (idle_threads 3) two_takers_end"
  by (rule run_schedule_reach [OF two_takers_run_end])
    (auto simp: two_takers_run_def BlockingQueue_calls_def other_calls_def)

theorem blocking_queue_fifo_witness:
  "inserted [Put 7, Put 8, Took (7 :: nat)] = removed [Put 7, Put 8, Took 7] @ [8]"
  using blocking_queue_fifo [OF idle_threads_init(1,2) two_takers_reach]
  by (simp add: two_takers_end_def MutexLock_ctor_def)

section \<open>Wakeups\<close>

text \<open>A thread that is on its way to an item or to a notification.\<close>

fun obliged :: "('s, 'l, 'e) thread \<Rightarrow> bool" where
  "obliged (Woken p l) = True"
| "obliged (Waiting c p l) = False"
| "obliged (Running [] l) = False"
| "obliged (Running (a # r) l) =
     (case a of
        WaitWhile _ _ \<Rightarrow> True
      | NotifyIf _ _ \<Rightarrow> True
      | Body name _ \<Rightarrow> name = ''pop_front'' \<or> name = ''swap''
      | _ \<Rightarrow> False)"

text \<open>Where the threads can be when all insertions use \<^verbatim>\<open>put\<close>.\<close>

definition at_method :: "'a queue_method \<Rightarrow> bool" where
  "at_method p \<longleftrightarrow>
     (\<exists>x. suffix p (put x)) \<or> suffix p take_item \<or> suffix p takeAll \<or> suffix p size_method \<or>
     suffix p empty_method \<or> suffix p clearAll"

fun queue_thread :: "('a BlockingQueue, 'a queue_call, 'a queue_event) thread \<Rightarrow> bool" where
  "queue_thread (Running p l) = at_method p"
| "queue_thread (Waiting c p l) = (c = notEmpty \<and> (p = tl take_item \<or> p = tl takeAll))"
| "queue_thread (Woken p l) = (p = tl take_item \<or> p = tl takeAll)"

text \<open>
  While a thread waits for an item, there are no more items than threads on their way to one
  or to a notification.
\<close>

definition wakeup_inv :: "('a BlockingQueue, 'a queue_call, 'a queue_event) monitor_state \<Rightarrow> bool" where
  "wakeup_inv s \<longleftrightarrow> (\<forall>th \<in> set (threads s). queue_thread th) \<and>
     (list_ex (waits_on notEmpty) (threads s) \<longrightarrow> length (queue (shared s)) \<le> count_if obliged (threads s))"

lemma suffix_methods:
  "suffix p (put x) \<longleftrightarrow> p \<in> {put x, tl (put x), [Notify notEmpty, Unlock], [Unlock], []}"
  "suffix p take_item \<longleftrightarrow> p \<in> {take_item, tl take_item, tl (tl take_item), [Unlock], []}"
  "suffix p takeAll \<longleftrightarrow> p \<in> {takeAll, tl takeAll, tl (tl takeAll), [Unlock], []}"
  "suffix p size_method \<longleftrightarrow> p \<in> {size_method, tl size_method, [Unlock], []}"
  "suffix p empty_method \<longleftrightarrow> p \<in> {empty_method, []}"
  "suffix p clearAll \<longleftrightarrow> p \<in> {clearAll, tl clearAll, [Unlock], []}"
  by (auto simp: queue_method_defs suffix_Cons)

lemma at_method_cases:
  assumes "at_method p"
  obtains "p = []" | "p = [Unlock]"
    | x where "p = put x" | x where "p = tl (put x)" | "p = [Notify notEmpty, Unlock]"
    | "p = take_item" | "p = tl take_item" | "p = tl (tl take_item)"
    | "p = takeAll" | "p = tl takeAll" | "p = tl (tl takeAll)"
    | "p = size_method" | "p = tl size_method" | "p = empty_method"
    | "p = clearAll" | "p = tl clearAll"
  using assms unfolding at_method_def suffix_methods by blast

lemma at_method_tl: "at_method p \<Longrightarrow> at_method (tl p)"
  unfolding at_method_def using suffix_tl [of p] by (meson suffix_order.trans)

lemma wakeup_inv_update:
  assumes inv: "wakeup_inv s" and i: "i < length (threads s)"
    and one: "threads s' = (threads s)[i := threads s' ! i]" and th: "queue_thread (threads s' ! i)"
    and wait: "waits_on notEmpty (threads s' ! i) \<Longrightarrow> queue (shared s') = []"
    and count: "queue (shared s') = [] \<or>
      length (queue (shared s')) + (if obliged (threads s ! i) then 1 else 0) \<le>
      length (queue (shared s)) + (if obliged (threads s' ! i) then 1 else 0)"
  shows "wakeup_inv s'"
proof -
  define th' where "th' = threads s' ! i"
  have "length (queue (shared s')) \<le> count_if obliged ((threads s)[i := th'])"
    if "list_ex (waits_on notEmpty) ((threads s)[i := th'])" "queue (shared s') \<noteq> []"
  proof -
    have "list_ex (waits_on notEmpty) (threads s)"
      using that wait i by (auto simp: list_ex_length nth_list_update th'_def split: if_splits)
    then show ?thesis
      using inv count that(2) count_if_update [OF i, of obliged th']
      by (auto simp: wakeup_inv_def th'_def split: if_splits)
  qed
  moreover have "\<forall>u \<in> set ((threads s)[i := th']). queue_thread u"
    using inv th ball_update [of "threads s" queue_thread] by (auto simp: wakeup_inv_def th'_def)
  ultimately show ?thesis
    using one unfolding wakeup_inv_def th'_def [symmetric] by (metis le0 list.size(3))
qed

lemma wakeup_inv_notify:
  assumes inv: "wakeup_inv s" and i: "i < length (threads s)"
    and th: "threads s ! i = Running [Notify notEmpty, Unlock] l"
    and ths: "Condition_Notify notEmpty pick (threads s) = Done ths"
  shows "wakeup_inv (with_thread i (Running [Unlock] l) (s\<lparr>threads := ths\<rparr>))"
proof -
  have unlock: "at_method [Unlock]"
    by (simp add: at_method_def suffix_methods)
  show ?thesis
  proof (cases "list_ex (waits_on notEmpty) (threads s)")
    case False
    then have "ths = threads s"
      using ths by (simp add: Condition_Notify_def)
    moreover have "\<not> list_ex (waits_on notEmpty) ((threads s)[i := Running [Unlock] l])"
      using False i by (auto simp: list_ex_length nth_list_update)
    ultimately show ?thesis
      using inv unlock ball_update [of "threads s" queue_thread "Running [Unlock] l"]
      by (auto simp: wakeup_inv_def)
  next
    case True
    then have pick: "pick < length (threads s)" "waits_on notEmpty (threads s ! pick)"
      and ths': "ths = (threads s)[pick := wake (threads s ! pick)]"
      using ths by (auto simp: Condition_Notify_def split: if_splits)
    then obtain p l' where p: "threads s ! pick = Waiting notEmpty p l'"
      by (cases "threads s ! pick") auto
    have "pick \<noteq> i"
      using p th by auto
    have "queue_thread (threads s ! pick)"
      using inv pick(1) by (auto simp: wakeup_inv_def)
    then have "\<forall>th \<in> set ths. queue_thread th"
      using inv p ball_update [of "threads s" queue_thread "Woken p l'" pick]
      by (auto simp: wakeup_inv_def ths')
    then have "\<forall>th \<in> set (ths[i := Running [Unlock] l]). queue_thread th"
      using unlock by (intro ball_update) simp_all
    moreover have "count_if obliged (ths[i := Running [Unlock] l]) = count_if obliged (threads s)"
      using count_if_update [OF pick(1), of obliged "Woken p l'"] p ths' th \<open>pick \<noteq> i\<close>
        count_if_update [of i ths obliged "Running [Unlock] l"] i by simp
    ultimately show ?thesis
      using inv True by (simp add: wakeup_inv_def)
  qed
qed

lemma wakeup_inv_run:
  assumes inv: "wakeup_inv s" and i: "i < length (threads s)" and run: "run_act i pick s = Done s'"
  shows "wakeup_inv s'"
proof -
  note upd = wakeup_inv_update [OF inv i]
  have th: "queue_thread (threads s ! i)"
    using inv i by (auto simp: wakeup_inv_def)
  show ?thesis
  proof (cases "threads s ! i")
    case (Running p l)
    then have "at_method p"
      using th by simp
    then have "at_method (tl p)"
      by (rule at_method_tl)
    note facts = Running this run i
    from \<open>at_method p\<close> show ?thesis
    proof (cases rule: at_method_cases)
      case 5
      then obtain ths where "Condition_Notify notEmpty pick (threads s) = Done ths"
        "s' = with_thread i (Running [Unlock] l) (s\<lparr>threads := ths\<rparr>)"
        using facts by (auto simp: run_act_def obind_eq_Done)
      then show ?thesis
        using wakeup_inv_notify [OF inv i, of l pick ths] Running 5 by simp
    qed (use facts in \<open>auto simp: run_act_def queue_method_defs Let_def obind_eq_Done
          split: if_splits intro!: upd\<close>)
  next
    case (Waiting c p l)
    then show ?thesis using run by (simp add: run_act_def)
  next
    case (Woken p l)
    then have p: "p = tl take_item \<or> p = tl takeAll"
      using th by simp
    then have "at_method p"
      by (auto simp: at_method_def)
    moreover have "obliged (Running p l)"
      using p by (auto simp: take_item_def takeAll_def)
    ultimately show ?thesis
      using Woken run i by (auto simp: run_act_def split: if_splits intro!: upd)
  qed
qed

lemma wakeup_inv_step:
  assumes "monitor_step (put_calls \<union> other_calls) s s'" and inv: "wakeup_inv s"
  shows "wakeup_inv s'"
  using assms(1)
proof cases
  case (run i pick)
  then show ?thesis using wakeup_inv_run [OF inv] by blast
next
  case (spurious i)
  then have "queue_thread (threads s ! i)"
    using inv by (auto simp: wakeup_inv_def)
  then show ?thesis
    using spurious
    by (intro wakeup_inv_update [OF inv, where i = i]) (cases "threads s ! i"; auto)+
next
  case (call i l0 p l)
  then have "at_method p" "\<not> obliged (Running p l)"
    by (auto simp: put_calls_def other_calls_def at_method_def queue_method_defs)
  then show ?thesis
    using call by (intro wakeup_inv_update [OF inv, where i = i]) auto
qed

lemma wakeup_inv_reach:
  assumes "(monitor_step (put_calls \<union> other_calls))\<^sup>*\<^sup>* s0 s" and "monitor_init s0" and "queue (shared s0) = []"
  shows "wakeup_inv s"
  using assms(1)
proof induction
  case base
  then show ?case
    using assms(2,3) by (auto simp: wakeup_inv_def monitor_init_def at_method_def)
next
  case (step s s')
  then show ?case using wakeup_inv_step by blast
qed

definition at_rest :: "('s, 'l, 'e) thread \<Rightarrow> bool" where
  "at_rest th = (case th of Running [] _ \<Rightarrow> True | Waiting _ _ _ \<Rightarrow> True | _ \<Rightarrow> False)"

lemma at_rest_not_obliged: "at_rest th \<Longrightarrow> \<not> obliged th"
  by (cases th rule: obliged.cases) (auto simp: at_rest_def)

text \<open>
  C19 (liveness). No lost wakeup with \<^verbatim>\<open>put\<close>: as long as items are inserted one at a time, a
  state in which every thread is between calls or waits on the condition, and at least one
  waits, has an empty queue. A thread never sleeps beside an item that nobody is going for.
\<close>

theorem put_no_lost_wakeup:
  assumes "monitor_init s0" and "queue (shared s0) = []"
    and "(monitor_step (put_calls \<union> other_calls))\<^sup>*\<^sup>* s0 s"
    and "list_all at_rest (threads s)" and "list_ex (waits_on notEmpty) (threads s)"
  shows "queue (shared s) = []"
proof -
  have "wakeup_inv s"
    using wakeup_inv_reach assms(1-3) by blast
  moreover have "count_if obliged (threads s) = 0"
    using assms(4)
    by (auto simp: count_if_zero list_all_length at_rest_not_obliged)
  ultimately show ?thesis
    using assms(5) by (simp add: wakeup_inv_def)
qed

definition one_waiting :: "(nat BlockingQueue, nat queue_call, nat queue_event) monitor_state" where
  "one_waiting = (idle_threads 1)\<lparr>threads := [Waiting notEmpty (tl take_item) no_args]\<rparr>"

lemma one_waiting_reach: "(monitor_step (put_calls \<union> other_calls))\<^sup>*\<^sup>* (idle_threads 1) one_waiting"
proof (rule run_schedule_reach)
  show "run_schedule [Call 0 take_item no_args, Run 0 0, Run 0 0] (idle_threads 1) = Done one_waiting"
    by (simp add: one_waiting_def idle_threads_def run_act_def take_item_def with_thread_def MutexLock_ctor_def)
qed (auto simp: other_calls_def)

theorem put_no_lost_wakeup_witness:
  "list_ex (waits_on notEmpty) (threads one_waiting) \<and> queue (shared one_waiting) = []"
  using put_no_lost_wakeup [OF idle_threads_init(1,2) one_waiting_reach]
  by (simp add: one_waiting_def at_rest_def)

text \<open>
  C28 (liveness). \<^verbatim>\<open>putAll\<close> wakes one thread however many items it inserts: two threads wait in
  \<^verbatim>\<open>take\<close>, a third inserts two items with \<^verbatim>\<open>putAll\<close>, and the system comes to rest with one of
  the takers still waiting beside an item in the queue.
\<close>

theorem putAll_lost_wakeup:
  "\<exists>s. (monitor_step BlockingQueue_calls)\<^sup>*\<^sup>* (idle_threads 3) s \<and> list_all at_rest (threads s) \<and>
     list_ex (waits_on notEmpty) (threads s) \<and> queue (shared s) = [8 :: nat]"
  by (intro exI [of _ two_takers_end] conjI two_takers_reach)
    (simp_all add: two_takers_end_def at_rest_def)

end
