(* ===== verification/RWLock_Queue.thy ===== *)
theory RWLock_Queue
  imports RWLock Blocking_Queue
begin

text \<open>
  \<^verbatim>\<open>RWLockQueue\<close> (\<^verbatim>\<open>src/common/base/rwlock_queue.h\<close>): a queue guarded by a read-write lock. The
  methods are lists of guards and statements, and threads interleave at each of them, so that
  two threads inside read guards really run side by side.
\<close>

section \<open>The class\<close>

datatype 'a rwq_act =
    RdGuard \<comment> \<open>constructor of \<^verbatim>\<open>RWLockTimedReadGuard\<close>\<close>
  | RdDone  \<comment> \<open>its destructor\<close>
  | WrGuard \<comment> \<open>constructor of \<^verbatim>\<open>RWLockTimedWriteGuard\<close>\<close>
  | WrDone  \<comment> \<open>its destructor\<close>
  | Stmt string "'a list \<Rightarrow> 'a queue_call \<Rightarrow> ('a list \<times> 'a queue_call \<times> 'a queue_event list) result"

type_synonym 'a rwq_method = "'a rwq_act list"

definition rwq_put :: "'a \<Rightarrow> 'a rwq_method" where
  "rwq_put x = [WrGuard, Stmt ''push_back'' (\<lambda>q l. Inr (q @ [x], l, [Put x])), WrDone]"

definition rwq_putAll :: "'a list \<Rightarrow> 'a rwq_method" where
  "rwq_putAll dataQueue =
     [WrGuard, Stmt ''insert'' (\<lambda>q l. Inr (q @ dataQueue, l, map Put dataQueue)), WrDone]"

text \<open>\<^verbatim>\<open>pop_front\<close> on an empty deque is undefined.\<close>

definition rwq_take :: "'a rwq_method" where
  "rwq_take =
     [RdGuard,
      Stmt ''assert'' (\<lambda>q l. rbind (ensure (q \<noteq> []) AssertFailed) (\<lambda>_. Inr (q, l, []))),
      Stmt ''front'' (\<lambda>q l. rbind (ensure (q \<noteq> []) UndefinedBehaviour) (\<lambda>_. Inr (q, l\<lparr>ret_item := Some (hd q)\<rparr>, []))),
      Stmt ''pop_front'' (\<lambda>q l. rbind (ensure (q \<noteq> []) UndefinedBehaviour) (\<lambda>_. Inr (tl q, l, case ret_item l of None \<Rightarrow> [] | Some x \<Rightarrow> [Took x]))),
      RdDone]"

definition rwq_takeAll :: "'a rwq_method" where
  "rwq_takeAll =
     [RdGuard,
      Stmt ''assert'' (\<lambda>q l. rbind (ensure (emptyQueue l = []) AssertFailed) (\<lambda>_. Inr (q, l, []))),
      Stmt ''swap'' (\<lambda>q l. Inr (emptyQueue l, l\<lparr>emptyQueue := q\<rparr>, map Took q)),
      RdDone]"

definition rwq_size :: "'a rwq_method" where
  "rwq_size = [RdGuard, Stmt ''size'' (\<lambda>q l. Inr (q, l\<lparr>ret_size := of_nat (length q)\<rparr>, [])), RdDone]"

definition rwq_empty :: "'a rwq_method" where
  "rwq_empty = [Stmt ''empty'' (\<lambda>q l. Inr (q, l\<lparr>ret_bool := (q = [])\<rparr>, []))]"

definition rwq_clearAll :: "'a rwq_method" where
  "rwq_clearAll = [WrGuard, Stmt ''clear'' (\<lambda>q l. Inr ([], l, map Cleared q)), WrDone]"

section \<open>Threads\<close>

record 'a RWLockQueue =
  rw :: RWLock
  rwq_items :: "'a list"
  rwq_history :: "'a queue_event list"
  rwq_threads :: "('a rwq_method \<times> 'a queue_call) list"

definition rwq_thread :: "nat \<Rightarrow> 'a rwq_method \<Rightarrow> 'a queue_call \<Rightarrow> 'a RWLockQueue \<Rightarrow> 'a RWLockQueue" where
  "rwq_thread i p l s = s\<lparr>rwq_threads := (rwq_threads s)[i := (p, l)]\<rparr>"

definition rwq_run :: "nat \<Rightarrow> bool \<Rightarrow> 'a RWLockQueue \<Rightarrow> 'a RWLockQueue outcome" where
  "rwq_run i expired s =
     (case rwq_threads s ! i of
        ([], l) \<Rightarrow> Blocked
      | (a # r, l) \<Rightarrow>
          (case a of
             RdGuard \<Rightarrow> obind (RWLockTimedReadGuard_ctor (tid_of i) expired (rw s)) (\<lambda>k. Done (rwq_thread i r l (s\<lparr>rw := k\<rparr>)))
           | RdDone \<Rightarrow> obind (RWLockTimedReadGuard_dtor (tid_of i) (rw s)) (\<lambda>k. Done (rwq_thread i r l (s\<lparr>rw := k\<rparr>)))
           | WrGuard \<Rightarrow> obind (RWLockTimedWriteGuard_ctor (tid_of i) expired (rw s)) (\<lambda>k. Done (rwq_thread i r l (s\<lparr>rw := k\<rparr>)))
           | WrDone \<Rightarrow> obind (RWLockTimedWriteGuard_dtor (tid_of i) (rw s)) (\<lambda>k. Done (rwq_thread i r l (s\<lparr>rw := k\<rparr>)))
           | Stmt name f \<Rightarrow>
               (case f (rwq_items s) l of
                  Inl e \<Rightarrow> Failed e
                | Inr (q, l', ev) \<Rightarrow>
                    Done (rwq_thread i r l' (s\<lparr>rwq_items := q, rwq_history := rwq_history s @ ev\<rparr>)))))"

text \<open>Calls: \<open>consumers\<close> are the threads that call \<^verbatim>\<open>take\<close> and \<^verbatim>\<open>takeAll\<close>.\<close>

definition rwq_producer_call :: "'a rwq_method \<Rightarrow> bool" where
  "rwq_producer_call p \<longleftrightarrow> (\<exists>x. p = rwq_put x) \<or> (\<exists>xs. p = rwq_putAll xs) \<or> p = rwq_size \<or> p = rwq_empty \<or> p = rwq_clearAll"

definition rwq_call_ok :: "nat set \<Rightarrow> nat \<Rightarrow> 'a rwq_method \<Rightarrow> bool" where
  "rwq_call_ok consumers i p \<longleftrightarrow> rwq_producer_call p \<or> i \<in> consumers \<and> (p = rwq_take \<or> p = rwq_takeAll)"

inductive rwq_step :: "nat set \<Rightarrow> 'a RWLockQueue \<Rightarrow> 'a RWLockQueue \<Rightarrow> bool" for consumers where
  run: "i < length (rwq_threads s) \<Longrightarrow> rwq_run i expired s = Done s' \<Longrightarrow> rwq_step consumers s s'"
| call: "i < length (rwq_threads s) \<Longrightarrow> rwq_threads s ! i = ([], l0) \<Longrightarrow> rwq_call_ok consumers i p \<Longrightarrow>
    rwq_step consumers s (rwq_thread i p l s)"

definition rwq_init :: "'a RWLockQueue \<Rightarrow> bool" where
  "rwq_init s \<longleftrightarrow> rw s = RWLock_ctor \<and> rwq_items s = [] \<and> rwq_history s = [] \<and>
     (\<forall>th \<in> set (rwq_threads s). fst th = [])"

section \<open>Who holds the lock\<close>

datatype mode = Free | Reading | Writing

fun mode_of :: "'a rwq_method \<Rightarrow> mode" where
  "mode_of [] = Free"
| "mode_of (RdDone # r) = Reading"
| "mode_of (WrDone # r) = Writing"
| "mode_of (Stmt name f # r) = mode_of r"
| "mode_of (RdGuard # r) = Free"
| "mode_of (WrGuard # r) = Free"

fun bracketed :: "'a rwq_method \<Rightarrow> bool" where
  "bracketed [] = True"
| "bracketed (RdGuard # r) = (mode_of r = Reading \<and> bracketed r)"
| "bracketed (WrGuard # r) = (mode_of r = Writing \<and> bracketed r)"
| "bracketed (RdDone # r) = (mode_of r = Free \<and> bracketed r)"
| "bracketed (WrDone # r) = (mode_of r = Free \<and> bracketed r)"
| "bracketed (Stmt name f # r) = bracketed r"

definition thread_mode :: "'a RWLockQueue \<Rightarrow> nat \<Rightarrow> mode" where
  "thread_mode s i = mode_of (fst (rwq_threads s ! i))"

definition lock_inv :: "'a RWLockQueue \<Rightarrow> bool" where
  "lock_inv s \<longleftrightarrow> rw_wf (rw s) \<and> distinct (readers (rwlock (rw s))) \<and>
     (\<forall>i < length (rwq_threads s). bracketed (fst (rwq_threads s ! i)) \<and>
        (tid_of i \<in> set (readers (rwlock (rw s))) \<longleftrightarrow> thread_mode s i = Reading) \<and>
        (writer (rwlock (rw s)) = Some (tid_of i) \<longleftrightarrow> thread_mode s i = Writing))"

lemma rwq_thread_simps [simp]:
  "rw (rwq_thread i p l s) = rw s" "rwq_items (rwq_thread i p l s) = rwq_items s"
  "rwq_history (rwq_thread i p l s) = rwq_history s"
  "rwq_threads (rwq_thread i p l s) = (rwq_threads s)[i := (p, l)]"
  by (simp_all add: rwq_thread_def)

text \<open>The effect of the timed lock calls of \<^verbatim>\<open>RWLock\<close> where they complete.\<close>

lemma timed_Done:
  "timed_rdlock t e k = Done k' \<Longrightarrow> writer (rwlock k) = None \<and>
     rwlock k' = (rwlock k)\<lparr>readers := t # readers (rwlock k)\<rparr>"
  "timed_wrlock t e k = Done k' \<Longrightarrow> writer (rwlock k) = None \<and> readers (rwlock k) = [] \<and>
     rwlock k' = (rwlock k)\<lparr>writer := Some t\<rparr>"
  by (auto simp: rwlock_defs obind_eq_Done oensure_def split: option.splits if_splits outcome.splits)

lemma rw_unlock_Done:
  "rw_unlock t k = Done k' \<Longrightarrow>
     writer (rwlock k) = Some t \<and> rwlock k' = (rwlock k)\<lparr>writer := None\<rparr> \<or>
     writer (rwlock k) \<noteq> Some t \<and> t \<in> set (readers (rwlock k)) \<and>
       rwlock k' = (rwlock k)\<lparr>readers := remove1 t (readers (rwlock k))\<rparr>"
  by (auto simp: rw_unlock_def pthread_rwlock_unlock_def Let_def split: if_splits)

lemma lock_inv_run:
  assumes inv: "lock_inv s" and i: "i < length (rwq_threads s)" and run: "rwq_run i expired s = Done s'"
  shows "lock_inv s'"
proof -
  obtain a r l where th: "rwq_threads s ! i = (a # r, l)"
    using run by (auto simp: rwq_run_def split: prod.splits list.splits)
  have m: "bracketed (a # r)" "tid_of i \<in> set (readers (rwlock (rw s))) \<longleftrightarrow> mode_of (a # r) = Reading"
    "writer (rwlock (rw s)) = Some (tid_of i) \<longleftrightarrow> mode_of (a # r) = Writing"
    using inv i th by (auto simp: lock_inv_def thread_mode_def dest: spec [of _ i])
  have others: "tid_of j \<in> set (readers (rwlock (rw s))) \<longleftrightarrow> thread_mode s j = Reading"
    "writer (rwlock (rw s)) = Some (tid_of j) \<longleftrightarrow> thread_mode s j = Writing"
    "bracketed (fst (rwq_threads s ! j))"
    if "j < length (rwq_threads s)" for j
    using inv that by (auto simp: lock_inv_def)
  have wf: "rw_wf (rw s)" "distinct (readers (rwlock (rw s)))"
    using inv by (auto simp: lock_inv_def)
  show ?thesis
  proof (cases a)
    case RdGuard
    then show ?thesis
      using run th m others wf i
      by (auto simp: rwq_run_def obind_eq_Done RWLockTimedReadGuard_ctor_def lock_inv_def thread_mode_def
          rw_wf_def nth_list_update split: if_splits dest!: timed_Done)
  next
    case RdDone
    then show ?thesis
      using run th m others wf i
      by (auto simp: rwq_run_def obind_eq_Done RWLockTimedReadGuard_dtor_def lock_inv_def thread_mode_def
          rw_wf_def nth_list_update split: if_splits dest!: rw_unlock_Done)
  next
    case WrGuard
    then show ?thesis
      using run th m others wf i
      by (auto simp: rwq_run_def obind_eq_Done RWLockTimedWriteGuard_ctor_def lock_inv_def thread_mode_def
          rw_wf_def nth_list_update split: if_splits dest!: timed_Done)
  next
    case WrDone
    then show ?thesis
      using run th m others wf i
      by (auto simp: rwq_run_def obind_eq_Done RWLockTimedWriteGuard_dtor_def lock_inv_def thread_mode_def
          rw_wf_def nth_list_update split: if_splits dest!: rw_unlock_Done)
  next
    case (Stmt name f)
    then show ?thesis
      using run th m others wf i
      by (auto simp: rwq_run_def lock_inv_def thread_mode_def nth_list_update split: sum.splits if_splits)
  qed
qed

section \<open>One consumer\<close>

text \<open>
  With a single consumer the queue is first in, first out: producers change it only under the
  write lock, so the item that the consumer has looked at is still the first when it is removed.
\<close>

definition consumer_ok :: "'a list \<Rightarrow> 'a rwq_method \<times> 'a queue_call \<Rightarrow> bool" where
  "consumer_ok q th =
     (case th of
        (Stmt name f # r, l) \<Rightarrow>
          (name = ''front'' \<longrightarrow> q \<noteq> []) \<and> (name = ''pop_front'' \<longrightarrow> q \<noteq> [] \<and> ret_item l = Some (hd q)) \<and>
          (name = ''swap'' \<longrightarrow> emptyQueue l = [])
      | _ \<Rightarrow> True)"

definition at_producer :: "'a rwq_method \<Rightarrow> bool" where
  "at_producer p \<longleftrightarrow> (\<exists>m. rwq_producer_call m \<and> suffix p m)"

definition at_consumer :: "'a rwq_method \<Rightarrow> bool" where
  "at_consumer p \<longleftrightarrow> at_producer p \<or> suffix p rwq_take \<or> suffix p rwq_takeAll"

definition rwq_inv :: "nat \<Rightarrow> 'a RWLockQueue \<Rightarrow> bool" where
  "rwq_inv c s \<longleftrightarrow> lock_inv s \<and> inserted (rwq_history s) = removed (rwq_history s) @ rwq_items s \<and>
     (\<forall>i < length (rwq_threads s).
        if i = c then at_consumer (fst (rwq_threads s ! i)) \<and> consumer_ok (rwq_items s) (rwq_threads s ! i)
        else at_producer (fst (rwq_threads s ! i)))"

lemmas rwq_method_defs = rwq_put_def rwq_putAll_def rwq_take_def rwq_takeAll_def rwq_size_def rwq_empty_def
  rwq_clearAll_def

lemma rwq_suffixes:
  "suffix p (rwq_put x) \<longleftrightarrow> p \<in> {rwq_put x, tl (rwq_put x), [WrDone], []}"
  "suffix p (rwq_putAll xs) \<longleftrightarrow> p \<in> {rwq_putAll xs, tl (rwq_putAll xs), [WrDone], []}"
  "suffix p rwq_size \<longleftrightarrow> p \<in> {rwq_size, tl rwq_size, [RdDone], []}"
  "suffix p rwq_empty \<longleftrightarrow> p \<in> {rwq_empty, []}"
  "suffix p rwq_clearAll \<longleftrightarrow> p \<in> {rwq_clearAll, tl rwq_clearAll, [WrDone], []}"
  "suffix p rwq_take \<longleftrightarrow>
     p \<in> {rwq_take, tl rwq_take, tl (tl rwq_take), tl (tl (tl rwq_take)), [RdDone], []}"
  "suffix p rwq_takeAll \<longleftrightarrow> p \<in> {rwq_takeAll, tl rwq_takeAll, tl (tl rwq_takeAll), [RdDone], []}"
  by (auto simp: rwq_method_defs suffix_Cons)

lemma at_producer_alt:
  "at_producer p \<longleftrightarrow> (\<exists>x. suffix p (rwq_put x)) \<or> (\<exists>xs. suffix p (rwq_putAll xs)) \<or> suffix p rwq_size \<or>
     suffix p rwq_empty \<or> suffix p rwq_clearAll"
  unfolding at_producer_def rwq_producer_call_def by blast

lemma at_producer_tl: "at_producer (a # p) \<Longrightarrow> at_producer p"
  by (auto simp: at_producer_def dest: suffix_ConsD)

lemma at_consumer_tl: "at_consumer (a # p) \<Longrightarrow> at_consumer p"
  by (auto simp: at_consumer_def dest: at_producer_tl suffix_ConsD)

text \<open>What a statement does to a queue that is first in, first out.\<close>

definition stmt_ok :: "bool \<Rightarrow> 'a list \<Rightarrow> ('a list \<times> 'a queue_call \<times> 'a queue_event list) result \<Rightarrow> bool" where
  "stmt_ok change q res =
     (case res of
        Inl e \<Rightarrow> False
      | Inr (q', l', ev) \<Rightarrow>
          (\<forall>h. inserted h = removed h @ q \<longrightarrow> inserted (h @ ev) = removed (h @ ev) @ q') \<and> (\<not> change \<longrightarrow> q' = q))"

lemma producer_stmt:
  assumes "at_producer (Stmt name f # r)"
  shows "name \<noteq> ''front'' \<and> name \<noteq> ''pop_front'' \<and> name \<noteq> ''swap'' \<and> stmt_ok (mode_of r = Writing) q (f q l)"
  using assms by (auto simp: at_producer_alt suffix_Cons rwq_method_defs stmt_ok_def)

lemma producer_rest: "at_producer (Stmt name f # r) \<Longrightarrow> consumer_ok q (r, l)"
  by (auto simp: at_producer_alt suffix_Cons rwq_method_defs consumer_ok_def)

lemma take_stmts:
  assumes "suffix (Stmt name f # r) rwq_take"
  obtains "Stmt name f # r = tl rwq_take" | "Stmt name f # r = tl (tl rwq_take)"
    | "Stmt name f # r = tl (tl (tl rwq_take))"
  using assms by (auto simp: rwq_suffixes) (simp add: rwq_take_def)

lemma takeAll_stmts:
  assumes "suffix (Stmt name f # r) rwq_takeAll"
  obtains "Stmt name f # r = tl rwq_takeAll" | "Stmt name f # r = tl (tl rwq_takeAll)"
  using assms by (auto simp: rwq_suffixes) (simp add: rwq_takeAll_def)

lemma consumer_stmt:
  assumes "at_consumer (Stmt name f # r)" and "consumer_ok q (Stmt name f # r, l)"
  shows "f q l = Inl AssertFailed \<or>
    (\<exists>q' l' ev. f q l = Inr (q', l', ev) \<and> stmt_ok True q (f q l) \<and> consumer_ok q' (r, l'))"
proof -
  consider "at_producer (Stmt name f # r)" | "suffix (Stmt name f # r) rwq_take"
    | "suffix (Stmt name f # r) rwq_takeAll"
    using assms(1) by (auto simp: at_consumer_def)
  then show ?thesis
  proof cases
    case 1
    then show ?thesis
      using producer_stmt [OF 1, of q l] producer_rest [OF 1] by (auto simp: stmt_ok_def split: sum.splits)
  next
    case 2
    then show ?thesis
    proof (cases rule: take_stmts)
      case 1
      then show ?thesis by (auto simp: rwq_take_def stmt_ok_def consumer_ok_def)
    next
      case 2
      then show ?thesis using assms(2) by (auto simp: rwq_take_def stmt_ok_def consumer_ok_def)
    next
      case 3
      then have "name = ''pop_front''" "r = [RdDone]"
        by (simp_all add: rwq_take_def)
      moreover from this have "q \<noteq> []" "ret_item l = Some (hd q)"
        using assms(2) by (simp_all add: consumer_ok_def)
      moreover from 3 this have "f q l = Inr (tl q, l, [Took (hd q)])"
        by (simp add: rwq_take_def)
      ultimately show ?thesis
        by (simp add: stmt_ok_def consumer_ok_def)
    qed
  next
    case 3
    then show ?thesis
      using assms(2) by (cases rule: takeAll_stmts) (auto simp: rwq_takeAll_def stmt_ok_def consumer_ok_def)
  qed
qed

lemma consumer_not_reading:
  assumes "at_consumer p" and "mode_of p \<noteq> Reading"
  shows "consumer_ok q (p, l)"
proof (cases p)
  case (Cons a r)
  then show ?thesis
    using assms unfolding at_consumer_def
    by (cases a) (auto simp: consumer_ok_def suffix_Cons rwq_take_def rwq_takeAll_def dest: producer_stmt)
qed (simp add: consumer_ok_def)

lemma rwq_run_Stmt:
  assumes "rwq_threads s ! i = (Stmt name f # r, l)"
  shows "rwq_run i expired s =
     (case f (rwq_items s) l of
        Inl e \<Rightarrow> Failed e
      | Inr (q, l', ev) \<Rightarrow> Done (rwq_thread i r l' (s\<lparr>rwq_items := q, rwq_history := rwq_history s @ ev\<rparr>)))"
  using assms by (simp add: rwq_run_def)

text \<open>A guard changes neither the queue nor the history.\<close>

lemma rwq_run_guard:
  assumes "rwq_threads s ! i = (a # r, l)" and "\<And>name f. a \<noteq> Stmt name f" and "rwq_run i expired s = Done s'"
  shows "rwq_items s' = rwq_items s \<and> rwq_history s' = rwq_history s \<and> rwq_threads s' = (rwq_threads s)[i := (r, l)]"
  using assms by (cases a) (auto simp: rwq_run_def obind_eq_Done)

lemma after_guard_ok:
  assumes "at_consumer (a # r)" and "\<And>name f. a \<noteq> Stmt name f"
  shows "consumer_ok q (r, l)"
  using assms unfolding at_consumer_def
  by (auto simp: consumer_ok_def at_producer_alt suffix_Cons rwq_method_defs)

lemma rwq_inv_run:
  assumes inv: "rwq_inv c s" and i: "i < length (rwq_threads s)" and run: "rwq_run i expired s = Done s'"
  shows "rwq_inv c s'"
proof -
  have lock: "lock_inv s" and fifo: "inserted (rwq_history s) = removed (rwq_history s) @ rwq_items s"
    using inv by (simp_all add: rwq_inv_def)
  have th: "if j = c then at_consumer (fst (rwq_threads s ! j)) \<and> consumer_ok (rwq_items s) (rwq_threads s ! j)
      else at_producer (fst (rwq_threads s ! j))" if "j < length (rwq_threads s)" for j
    using inv that by (simp add: rwq_inv_def)
  have lock': "lock_inv s'"
    using lock_inv_run [OF lock i run] .
  obtain a r l where ar: "rwq_threads s ! i = (a # r, l)"
    using run by (auto simp: rwq_run_def split: prod.splits list.splits)
  show ?thesis
  proof (cases "\<exists>name f. a = Stmt name f")
    case False
    then have eq: "rwq_items s' = rwq_items s" "rwq_history s' = rwq_history s"
      "rwq_threads s' = (rwq_threads s)[i := (r, l)]"
      using rwq_run_guard [OF ar _ run] by blast+
    have "if i = c then at_consumer r \<and> consumer_ok (rwq_items s) (r, l) else at_producer r"
      using th [OF i] ar after_guard_ok [of a r "rwq_items s" l] False
      by (auto dest: at_consumer_tl at_producer_tl)
    then show ?thesis
      using lock' fifo th i eq by (auto simp: rwq_inv_def nth_list_update)
  next
    case True
    then obtain name f where a: "a = Stmt name f" by blast
    then obtain q l' ev where f: "f (rwq_items s) l = Inr (q, l', ev)"
      and s': "s' = rwq_thread i r l' (s\<lparr>rwq_items := q, rwq_history := rwq_history s @ ev\<rparr>)"
      using run ar by (auto simp: rwq_run_Stmt split: sum.splits)
    show ?thesis
    proof (cases "i = c")
      case True
      then have "stmt_ok True (rwq_items s) (f (rwq_items s) l)" "consumer_ok q (r, l')" "at_consumer r"
        using th [OF i] ar a f consumer_stmt [of name f r "rwq_items s" l] by (auto dest: at_consumer_tl)
      then show ?thesis
        using True lock' fifo th i f s' by (auto simp: rwq_inv_def nth_list_update stmt_ok_def)
    next
      case False
      then have "stmt_ok (mode_of r = Writing) (rwq_items s) (f (rwq_items s) l)" "at_producer r"
        using th [OF i] ar a producer_stmt [of name f r] by (auto dest: at_producer_tl)
      moreover have "consumer_ok q (rwq_threads s ! c)" if "c < length (rwq_threads s)"
      proof (cases "mode_of r = Writing")
        case True
        then have "writer (rwlock (rw s)) = Some (tid_of i)"
          using lock i ar a by (auto simp: lock_inv_def thread_mode_def dest!: spec [of _ i])
        then have "readers (rwlock (rw s)) = []"
          using lock by (simp add: lock_inv_def rw_wf_def)
        then have "thread_mode s c \<noteq> Reading"
          using lock that by (auto simp: lock_inv_def)
        then show ?thesis
          using th [OF that] consumer_not_reading by (metis prod.collapse thread_mode_def)
      next
        case False
        then have "q = rwq_items s"
          using \<open>stmt_ok _ _ _\<close> f by (simp add: stmt_ok_def)
        then show ?thesis using th [OF that] by simp
      qed
      ultimately show ?thesis
        using False lock' fifo th i f s' by (auto simp: rwq_inv_def nth_list_update stmt_ok_def)
    qed
  qed
qed

lemma rwq_inv_call:
  assumes inv: "rwq_inv c s" and i: "i < length (rwq_threads s)" and idle: "rwq_threads s ! i = ([], l0)"
    and ok: "rwq_call_ok {c} i p"
  shows "rwq_inv c (rwq_thread i p l s)"
proof -
  have p: "mode_of p = Free" "bracketed p"
    using ok by (auto simp: rwq_call_ok_def rwq_producer_call_def rwq_method_defs)
  have at: "if i = c then at_consumer p else at_producer p"
    using ok by (auto simp: rwq_call_ok_def at_consumer_def at_producer_def split: if_splits)
  have "consumer_ok (rwq_items s) (p, l)" if "i = c"
    using at that p by (intro consumer_not_reading) auto
  moreover have "lock_inv (rwq_thread i p l s)"
    using inv i idle p by (auto simp: rwq_inv_def lock_inv_def thread_mode_def nth_list_update dest: spec [of _ i])
  ultimately show ?thesis
    using inv i at by (auto simp: rwq_inv_def nth_list_update)
qed

lemma rwq_inv_reach:
  assumes "(rwq_step {c})\<^sup>*\<^sup>* s0 s" and "rwq_init s0"
  shows "rwq_inv c s"
  using assms(1)
proof induction
  case base
  have nil: "rwq_threads s0 ! i = ([], snd (rwq_threads s0 ! i))" if "i < length (rwq_threads s0)" for i
    using assms(2) that by (simp add: rwq_init_def prod_eq_iff)
  have "lock_inv s0"
    using assms(2) nil
    by (auto simp: rwq_init_def lock_inv_def thread_mode_def rw_wf_def RWLock_ctor_def)
  moreover have "consumer_ok q ([], l)" "at_producer []" "at_consumer []" for q :: "'a list" and l
    by (simp_all add: consumer_ok_def at_consumer_def at_producer_alt)
  ultimately show ?case
    using assms(2) nil unfolding rwq_inv_def rwq_init_def by (metis append_Nil fst_conv inserted_simps(1) removed_simps(1))
next
  case (step s s')
  from step.hyps(2) show ?case
  proof cases
    case (run i expired)
    then show ?thesis using rwq_inv_run [OF step.IH] by blast
  next
    case (call i l0 p l)
    then show ?thesis using rwq_inv_call [OF step.IH] by blast
  qed
qed

lemma rwq_run_no_undefined:
  assumes inv: "rwq_inv c s" and i: "i < length (rwq_threads s)"
  shows "rwq_run i expired s = Failed f \<Longrightarrow> f = AssertFailed"
proof -
  assume fail: "rwq_run i expired s = Failed f"
  then obtain a r l where ar: "rwq_threads s ! i = (a # r, l)"
    by (auto simp: rwq_run_def split: prod.splits list.splits)
  have lock: "tid_of i \<in> set (readers (rwlock (rw s))) \<longleftrightarrow> mode_of (a # r) = Reading"
    "writer (rwlock (rw s)) = Some (tid_of i) \<longleftrightarrow> mode_of (a # r) = Writing"
    using inv i ar by (auto simp: rwq_inv_def lock_inv_def thread_mode_def dest: spec [of _ i])
  have th: "if i = c then at_consumer (a # r) \<and> consumer_ok (rwq_items s) (a # r, l) else at_producer (a # r)"
    using inv i ar by (auto simp: rwq_inv_def dest: spec [of _ i])
  show ?thesis
  proof (cases a)
    case (Stmt name g)
    then show ?thesis
      using fail ar th consumer_stmt [of name g r "rwq_items s" l] producer_stmt [of name g r "rwq_items s" l]
      by (auto simp: rwq_run_Stmt stmt_ok_def split: sum.splits if_splits)
  qed (use fail ar lock in \<open>auto simp: rwq_run_def rwlock_defs Let_def oensure_def split: option.splits if_splits outcome.splits\<close>)
qed


section \<open>Concrete runs\<close>

datatype 'a rwq_sched = RunRW nat | CallRW nat "'a rwq_method"

fun rwq_schedule :: "'a rwq_sched list \<Rightarrow> 'a RWLockQueue \<Rightarrow> 'a RWLockQueue outcome" where
  "rwq_schedule [] s = Done s"
| "rwq_schedule (RunRW i # es) s = obind (rwq_run i False s) (rwq_schedule es)"
| "rwq_schedule (CallRW i p # es) s =
     (case rwq_threads s ! i of
        ([], _) \<Rightarrow> rwq_schedule es (rwq_thread i p no_args s)
      | _ \<Rightarrow> Blocked)"

fun rwq_legal :: "nat set \<Rightarrow> nat \<Rightarrow> 'a rwq_sched \<Rightarrow> bool" where
  "rwq_legal consumers n (RunRW i) \<longleftrightarrow> i < n"
| "rwq_legal consumers n (CallRW i p) \<longleftrightarrow> i < n \<and> rwq_call_ok consumers i p"

lemma rwq_run_length: "rwq_run i e s = Done s' \<Longrightarrow> length (rwq_threads s') = length (rwq_threads s)"
  by (auto simp: rwq_run_def obind_eq_Done split: prod.splits list.splits rwq_act.splits sum.splits)

lemma rwq_schedule_reach:
  assumes "rwq_schedule es s = Done s'" and "\<forall>e \<in> set es. rwq_legal consumers (length (rwq_threads s)) e"
  shows "(rwq_step consumers)\<^sup>*\<^sup>* s s'"
  using assms
proof (induction es s rule: rwq_schedule.induct)
  case (2 i es s)
  then obtain s1 where "rwq_run i False s = Done s1" "rwq_schedule es s1 = Done s'"
    by (auto simp: obind_eq_Done)
  moreover from this have "rwq_step consumers s s1" "length (rwq_threads s1) = length (rwq_threads s)"
    using 2(3) by (auto intro: rwq_step.run simp: rwq_run_length)
  ultimately show ?case
    using 2 by (metis converse_rtranclp_into_rtranclp list.set_intros(2))
next
  case (3 i p es s)
  then obtain l0 where "rwq_threads s ! i = ([], l0)" "rwq_schedule es (rwq_thread i p no_args s) = Done s'"
    by (auto split: prod.splits list.splits)
  moreover from this have "rwq_step consumers s (rwq_thread i p no_args s)"
    using 3(3) by (auto intro: rwq_step.call)
  ultimately show ?case
    using 3 by (auto intro: converse_rtranclp_into_rtranclp)
qed auto

definition rwq_idle :: "nat \<Rightarrow> 'a RWLockQueue" where
  "rwq_idle n = \<lparr>rw = RWLock_ctor, rwq_items = [], rwq_history = [], rwq_threads = replicate n ([], no_args)\<rparr>"

lemma rwq_idle_init [simp]: "rwq_init (rwq_idle n)" "length (rwq_threads (rwq_idle n)) = n"
  by (auto simp: rwq_idle_def rwq_init_def)

lemmas rwq_eval = rwq_run_def rwq_thread_def rwq_idle_def rwq_method_defs rwlock_defs RWLock_ctor_def
  tid_of_def numeral_2_eq_2 numeral_3_eq_3

text \<open>A producer and a consumer, one after the other.\<close>

definition handed_over :: "nat RWLockQueue" where
  "handed_over =
     \<lparr>rw = RWLock_ctor, rwq_items = [8], rwq_history = [Put 7, Put 8, Took 7],
      rwq_threads = [([], no_args\<lparr>ret_item := Some 7\<rparr>), ([], no_args)]\<rparr>"

lemma handed_over_reach: "(rwq_step {0})\<^sup>*\<^sup>* (rwq_idle 2) handed_over"
proof (rule rwq_schedule_reach)
  show "rwq_schedule
      ([CallRW 1 (rwq_putAll [7, 8]), RunRW 1, RunRW 1, RunRW 1, CallRW 0 rwq_take] @ replicate 5 (RunRW 0))
      (rwq_idle 2) = Done handed_over"
    by (simp add: rwq_eval handed_over_def numeral_eq_Suc)
qed (auto simp: rwq_call_ok_def rwq_producer_call_def)


text \<open>
  C31 (error). \<^verbatim>\<open>take\<close> removes from the queue under a read guard, which does not exclude another
  \<^verbatim>\<open>take\<close>: two consumers inside it at once both return the first of two items and the second
  item is lost; with a single item in the queue the second \<^verbatim>\<open>pop_front\<close> is undefined behaviour.
\<close>

theorem rwlock_queue_two_consumers:
  "(\<exists>s. (rwq_step {0, 1})\<^sup>*\<^sup>* (rwq_idle 3) s \<and> inserted (rwq_history s) = [7, 8 :: nat] \<and> rwq_items s = [] \<and>
      map (\<lambda>(p, l). (p, ret_item l)) (rwq_threads s) = [([], Some 7), ([], Some 7), ([], None)]) \<and>
   (\<exists>s. (rwq_step {0, 1})\<^sup>*\<^sup>* (rwq_idle 3) s \<and> inserted (rwq_history s) = [7 :: nat] \<and>
      rwq_run 1 False s = Failed UndefinedBehaviour)"
proof
  let ?two = "[CallRW 0 rwq_take, CallRW 1 rwq_take, RunRW 0, RunRW 1, RunRW 0, RunRW 1, RunRW 0, RunRW 1,
    RunRW 0, RunRW 1, RunRW 0, RunRW 1] :: nat rwq_sched list"
  let ?put = "\<lambda>xs. [CallRW 2 (rwq_putAll xs), RunRW 2, RunRW 2, RunRW 2] :: nat rwq_sched list"
  let ?fin = "\<lparr>rw = RWLock_ctor, rwq_items = [], rwq_history = [Put 7, Put 8, Took 7, Took 7],
      rwq_threads = [([], no_args\<lparr>ret_item := Some 7\<rparr>), ([], no_args\<lparr>ret_item := Some 7\<rparr>), ([], no_args)]\<rparr> :: nat RWLockQueue"
  have "rwq_schedule (?put [7, 8] @ ?two) (rwq_idle 3) = Done ?fin"
    by (simp add: rwq_eval)
  then have "(rwq_step {0, 1})\<^sup>*\<^sup>* (rwq_idle 3) ?fin"
    by (rule rwq_schedule_reach) (auto simp: rwq_call_ok_def rwq_producer_call_def)
  then show "\<exists>s. (rwq_step {0, 1})\<^sup>*\<^sup>* (rwq_idle 3) s \<and> inserted (rwq_history s) = [7, 8 :: nat] \<and> rwq_items s = [] \<and>
      map (\<lambda>(p, l). (p, ret_item l)) (rwq_threads s) = [([], Some 7), ([], Some 7), ([], None)]"
    by (intro exI [of _ ?fin]) (simp add: inserted_def no_args_def)
  let ?ub = "\<lparr>rw = \<lparr>rwlock = \<lparr>readers = [2, 1], writer = None\<rparr>, rw_holder = 2\<rparr>, rwq_items = [],
      rwq_history = [Put 7, Took 7],
      rwq_threads = [([RdDone], no_args\<lparr>ret_item := Some 7\<rparr>),
                     (tl (tl (tl rwq_take)), no_args\<lparr>ret_item := Some 7\<rparr>), ([], no_args)]\<rparr> :: nat RWLockQueue"
  have "rwq_schedule (?put [7] @ take 9 ?two) (rwq_idle 3) = Done ?ub"
    by (simp add: rwq_eval)
  then have "(rwq_step {0, 1})\<^sup>*\<^sup>* (rwq_idle 3) ?ub"
    by (rule rwq_schedule_reach) (auto simp: rwq_call_ok_def rwq_producer_call_def)
  moreover have "rwq_run 1 False ?ub = Failed UndefinedBehaviour"
    by (simp add: rwq_run_def rwq_take_def)
  ultimately show "\<exists>s. (rwq_step {0, 1})\<^sup>*\<^sup>* (rwq_idle 3) s \<and> inserted (rwq_history s) = [7 :: nat] \<and>
      rwq_run 1 False s = Failed UndefinedBehaviour"
    by (intro exI [of _ ?ub]) (simp add: inserted_def)
qed

end
