(* ===== verification/Zero_Copy_Output.thy ===== *)
theory Zero_Copy_Output
  imports Airnet_Prelude
begin

text \<open>
  The block-wise output streams of protocol buffers
  (\<^verbatim>\<open>google/protobuf/io/zero_copy_stream_impl_lite.cc\<close>, protobuf 2.6.1). The abstract class
  \<^verbatim>\<open>ZeroCopyOutputStream\<close> is a record of operations. \<^verbatim>\<open>Next\<close> lends the client a buffer, given by its
  address in the memory of the stream and its size; the operation \<open>zo_Store\<close> is the client's
  store through such an address. The documented contract is the locale \<open>zero_copy_sink\<close>, and the
  array stream and the string stream are shown to satisfy it.
\<close>

section \<open>The interface\<close>

record 's zero_copy_output =
  zo_Next :: "'s \<Rightarrow> ((int \<times> int) option \<times> 's) result"
  zo_Store :: "int \<Rightarrow> byte list \<Rightarrow> 's \<Rightarrow> 's result"
  zo_BackUp :: "int \<Rightarrow> 's \<Rightarrow> 's result"
  zo_ByteCount :: "'s \<Rightarrow> int"
  zo_WriteAliasedRaw :: "byte list \<Rightarrow> 's \<Rightarrow> (bool \<times> 's) result"
  zo_AllowsAliasing :: "'s \<Rightarrow> bool"

text \<open>The default implementations of the two aliasing operations.\<close>

definition ZeroCopyOutputStream_WriteAliasedRaw :: "byte list \<Rightarrow> 's \<Rightarrow> (bool \<times> 's) result" where
  "ZeroCopyOutputStream_WriteAliasedRaw data s = Inl FatalCheck"

definition ZeroCopyOutputStream_AllowsAliasing :: "'s \<Rightarrow> bool" where
  "ZeroCopyOutputStream_AllowsAliasing s = False"

text \<open>
  The contract in the comments of \<^verbatim>\<open>zero_copy_stream.h\<close>: \<open>out\<close> is what the stream would have
  written if no buffer were backed up, \<open>held s p n\<close> says that the client holds the last \<open>n\<close> bytes of
  it at address \<open>p\<close>, \<open>gap\<close> bounds the empty buffers that \<^verbatim>\<open>Next\<close> may return in a row, and \<open>cap\<close> is
  how much the stream can take: \<^verbatim>\<open>Next\<close> does not fail below it.
\<close>

locale zero_copy_sink =
  fixes ops :: "'s zero_copy_output"
    and ok :: "'s \<Rightarrow> bool"
    and out :: "'s \<Rightarrow> byte list"
    and held :: "'s \<Rightarrow> int \<Rightarrow> int \<Rightarrow> bool"
    and gap :: "'s \<Rightarrow> nat"
    and cap :: "'s \<Rightarrow> nat"
  assumes next_law: "ok s \<Longrightarrow> \<exists>r s'. zo_Next ops s = Inr (r, s') \<and> ok s' \<and> cap s' = cap s \<and>
      (case r of None \<Rightarrow> out s' = out s \<and> cap s \<le> length (out s)
       | Some (p, n) \<Rightarrow> 0 \<le> n \<and> (\<exists>fresh. out s' = out s @ fresh \<and> int (length fresh) = n) \<and>
           held s' p n \<and> (n = 0 \<longrightarrow> gap s' < gap s))"
    and store_law: "ok s \<Longrightarrow> held s p n \<Longrightarrow> p \<le> q \<Longrightarrow> q + int (length data) \<le> p + n \<Longrightarrow>
      \<exists>s'. zo_Store ops q data s = Inr s' \<and> ok s' \<and> held s' p n \<and> gap s' = gap s \<and> cap s' = cap s \<and>
        out s' = overwrite (out s) (length (out s) - nat (p + n - q)) data"
    and held_law: "ok s \<Longrightarrow> held s p n \<Longrightarrow> n \<le> int (length (out s))"
    and backup_law: "ok s \<Longrightarrow> held s p n \<Longrightarrow> 0 < c \<Longrightarrow> c \<le> n \<Longrightarrow>
      \<exists>s'. zo_BackUp ops c s = Inr s' \<and> ok s' \<and> cap s' = cap s \<and> out s' = take (length (out s) - nat c) (out s)"
    and count_law: "ok s \<Longrightarrow> zo_ByteCount ops s = int (length (out s))"
    and size_law: "ok s \<Longrightarrow> int (length (out s)) \<le> INT_MAX"

section \<open>Writing into a byte array\<close>

record ArrayOutputStream =
  ao_data :: "byte list"
  ao_size :: int
  ao_block_size :: int
  ao_position :: int
  ao_last_returned_size :: int

definition ArrayOutputStream_ctor :: "byte list \<Rightarrow> int \<Rightarrow> int \<Rightarrow> ArrayOutputStream" where
  "ArrayOutputStream_ctor data sz block_size =
     \<lparr>ao_data = data, ao_size = sz, ao_block_size = (if block_size > 0 then block_size else sz),
      ao_position = 0, ao_last_returned_size = 0\<rparr>"

definition ArrayOutputStream_Next :: "ArrayOutputStream \<Rightarrow> ((int \<times> int) option \<times> ArrayOutputStream) result" where
  "ArrayOutputStream_Next a =
     (if ao_position a < ao_size a then
        let last = min (ao_block_size a) (ao_size a - ao_position a) in
        Inr (Some (ao_position a, last), a\<lparr>ao_last_returned_size := last, ao_position := ao_position a + last\<rparr>)
      else Inr (None, a\<lparr>ao_last_returned_size := 0\<rparr>))"

definition ArrayOutputStream_BackUp :: "int \<Rightarrow> ArrayOutputStream \<Rightarrow> ArrayOutputStream result" where
  "ArrayOutputStream_BackUp count a =
     rbind (ensure (ao_last_returned_size a > 0) FatalCheck) (\<lambda>_.
     rbind (ensure (count \<le> ao_last_returned_size a) FatalCheck) (\<lambda>_.
     rbind (ensure (count \<ge> 0) FatalCheck) (\<lambda>_.
       Inr (a\<lparr>ao_position := ao_position a - count, ao_last_returned_size := 0\<rparr>))))"

definition ArrayOutputStream_ByteCount :: "ArrayOutputStream \<Rightarrow> int" where
  "ArrayOutputStream_ByteCount a = ao_position a"

definition array_store :: "int \<Rightarrow> byte list \<Rightarrow> ArrayOutputStream \<Rightarrow> ArrayOutputStream result" where
  "array_store q data a = rbind (mem_write (ao_data a) q data) (\<lambda>d. Inr (a\<lparr>ao_data := d\<rparr>))"

definition array_output :: "ArrayOutputStream zero_copy_output" where
  "array_output = \<lparr>zo_Next = ArrayOutputStream_Next, zo_Store = array_store, zo_BackUp = ArrayOutputStream_BackUp,
     zo_ByteCount = ArrayOutputStream_ByteCount, zo_WriteAliasedRaw = ZeroCopyOutputStream_WriteAliasedRaw,
     zo_AllowsAliasing = ZeroCopyOutputStream_AllowsAliasing\<rparr>"

definition array_out_ok :: "ArrayOutputStream \<Rightarrow> bool" where
  "array_out_ok a \<longleftrightarrow> ao_size a = int (length (ao_data a)) \<and> ao_size a \<le> INT_MAX \<and> 0 \<le> ao_position a \<and>
     ao_position a \<le> ao_size a \<and> (0 < ao_block_size a \<or> ao_size a = 0) \<and>
     0 \<le> ao_last_returned_size a \<and> ao_last_returned_size a \<le> ao_position a"

definition array_out :: "ArrayOutputStream \<Rightarrow> byte list" where
  "array_out a = take (nat (ao_position a)) (ao_data a)"

definition array_held :: "ArrayOutputStream \<Rightarrow> int \<Rightarrow> int \<Rightarrow> bool" where
  "array_held a p n \<longleftrightarrow> n = ao_last_returned_size a \<and> p = ao_position a - n"

lemma array_out_ctor:
  "sz = int (length data) \<Longrightarrow> sz \<le> INT_MAX \<Longrightarrow> array_out_ok (ArrayOutputStream_ctor data sz block_size)"
  "array_out (ArrayOutputStream_ctor data sz block_size) = []"
  by (auto simp: array_out_ok_def array_out_def ArrayOutputStream_ctor_def)

lemma take_overwrite:
  "off + length data \<le> k \<Longrightarrow> k \<le> length blk \<Longrightarrow> take k (overwrite blk off data) = overwrite (take k blk) off data"
  by (cases "k = off") (simp_all add: overwrite_def min_def drop_take)

interpretation aout: zero_copy_sink array_output array_out_ok array_out array_held "\<lambda>_. 0" "\<lambda>a. nat (ao_size a)"
proof (unfold_locales, goal_cases)
  case (1 a)
  show ?case
  proof (cases "ao_position a < ao_size a")
    case True
    let ?n = "min (ao_block_size a) (ao_size a - ao_position a)"
    have "take (nat (ao_position a + ?n)) (ao_data a) =
        take (nat (ao_position a)) (ao_data a) @ take (nat ?n) (drop (nat (ao_position a)) (ao_data a))"
      using 1 True by (auto simp: array_out_ok_def nat_add_distrib take_add)
    then show ?thesis
      using 1 True by (auto simp: array_output_def ArrayOutputStream_Next_def Let_def array_out_ok_def array_out_def array_held_def
          intro!: exI [of _ "take (nat ?n) (drop (nat (ao_position a)) (ao_data a))"])
  next
    case False
    then show ?thesis
      using 1 by (auto simp: array_output_def ArrayOutputStream_Next_def array_out_ok_def array_out_def)
  qed
next
  case (2 a p n q data)
  then have b: "0 \<le> q" "q + int (length data) \<le> ao_position a" "ao_position a \<le> int (length (ao_data a))" "p + n = ao_position a"
    by (simp_all add: array_out_ok_def array_held_def)
  then have nat: "nat q + length data \<le> nat (ao_position a)" "nat (ao_position a) \<le> length (ao_data a)"
    by linarith+
  have "mem_write (ao_data a) q data = Inr (overwrite (ao_data a) (nat q) data)"
    using b by (intro mem_write_Inr) simp_all
  moreover have "take (nat (ao_position a)) (overwrite (ao_data a) (nat q) data) =
      overwrite (take (nat (ao_position a)) (ao_data a)) (nat q) data"
    using nat by (rule take_overwrite)
  moreover have "length (array_out a) - nat (p + n - q) = nat q"
    using b nat by (simp add: array_out_def)
  moreover have "nat q + length data \<le> length (ao_data a)"
    using nat by simp
  ultimately show ?case
    using 2 by (auto simp: array_output_def array_store_def array_out_ok_def array_held_def array_out_def)
next
  case (3 a p n)
  then have "n \<le> ao_position a" "0 \<le> ao_position a" "ao_position a \<le> int (length (ao_data a))"
    by (simp_all add: array_out_ok_def array_held_def)
  then show ?case
    by (simp add: array_out_def)
next
  case (4 a p n c)
  then have "0 < ao_last_returned_size a" "c \<le> ao_last_returned_size a" "c \<le> ao_position a" "length (array_out a) = nat (ao_position a)"
    by (auto simp: array_out_ok_def array_held_def array_out_def)
  with 4 show ?case
    by (auto simp: array_output_def ArrayOutputStream_BackUp_def array_out_ok_def array_out_def nat_diff_distrib min_def)
next
  case (5 a)
  then show ?case
    by (auto simp: array_output_def ArrayOutputStream_ByteCount_def array_out_ok_def array_out_def)
next
  case (6 a)
  then show ?case
    by (auto simp: array_out_ok_def array_out_def min_def)
qed

section \<open>Appending to a string\<close>

text \<open>
  A \<^verbatim>\<open>std::string\<close> has its characters and a capacity. The standard only says that the
  capacity is at least the size after a \<^verbatim>\<open>resize\<close>; what the library allocates on top of it is
  the parameter \<open>grow\<close>, a function of the old capacity and the new size.
\<close>

record std_string =
  str_data :: "byte list"
  str_capacity :: int

definition string_size :: "std_string \<Rightarrow> int" where
  "string_size t = int (length (str_data t))"

definition string_resize :: "(int \<Rightarrow> int \<Rightarrow> int) \<Rightarrow> int \<Rightarrow> std_string \<Rightarrow> std_string" where
  "string_resize grow n t =
     (if n \<le> string_size t then t\<lparr>str_data := take (nat n) (str_data t)\<rparr>
      else \<lparr>str_data = str_data t @ replicate (nat (n - string_size t)) 0,
        str_capacity = (if n \<le> str_capacity t then str_capacity t else max n (grow (str_capacity t) n))\<rparr>)"

definition STLStringResizeUninitialized :: "(int \<Rightarrow> int \<Rightarrow> int) \<Rightarrow> std_string \<Rightarrow> int \<Rightarrow> std_string" where
  "STLStringResizeUninitialized grow s new_size = string_resize grow new_size s"

record StringOutputStream =
  so_target :: std_string

definition kMinimumSize :: int where
  "kMinimumSize = 16"

definition StringOutputStream_ctor :: "std_string \<Rightarrow> StringOutputStream" where
  "StringOutputStream_ctor target = \<lparr>so_target = target\<rparr>"

definition StringOutputStream_Next ::
    "(int \<Rightarrow> int \<Rightarrow> int) \<Rightarrow> StringOutputStream \<Rightarrow> ((int \<times> int) option \<times> StringOutputStream) result" where
  "StringOutputStream_Next grow s =
     (let old_size = string_size (so_target s);
          lend = (\<lambda>t. Inr (Some (old_size, string_size t - old_size), s\<lparr>so_target := t\<rparr>)) in
      if old_size < str_capacity (so_target s) then
        lend (STLStringResizeUninitialized grow (so_target s) (str_capacity (so_target s)))
      else if old_size > INT_MAX div 2 then Inr (None, s)
      else lend (STLStringResizeUninitialized grow (so_target s) (max (old_size * 2) (kMinimumSize + 0))))"

definition StringOutputStream_BackUp :: "(int \<Rightarrow> int \<Rightarrow> int) \<Rightarrow> int \<Rightarrow> StringOutputStream \<Rightarrow> StringOutputStream result" where
  "StringOutputStream_BackUp grow count s =
     rbind (ensure (count \<ge> 0) FatalCheck) (\<lambda>_.
     rbind (ensure (count \<le> string_size (so_target s)) FatalCheck) (\<lambda>_.
       Inr (s\<lparr>so_target := string_resize grow (string_size (so_target s) - count) (so_target s)\<rparr>)))"

definition StringOutputStream_ByteCount :: "StringOutputStream \<Rightarrow> int" where
  "StringOutputStream_ByteCount s = string_size (so_target s)"

definition string_store :: "int \<Rightarrow> byte list \<Rightarrow> StringOutputStream \<Rightarrow> StringOutputStream result" where
  "string_store q data s =
     rbind (mem_write (str_data (so_target s)) q data) (\<lambda>d. Inr (s\<lparr>so_target := (so_target s)\<lparr>str_data := d\<rparr>\<rparr>))"

definition string_output :: "(int \<Rightarrow> int \<Rightarrow> int) \<Rightarrow> StringOutputStream zero_copy_output" where
  "string_output grow = \<lparr>zo_Next = StringOutputStream_Next grow, zo_Store = string_store,
     zo_BackUp = StringOutputStream_BackUp grow, zo_ByteCount = StringOutputStream_ByteCount,
     zo_WriteAliasedRaw = ZeroCopyOutputStream_WriteAliasedRaw, zo_AllowsAliasing = ZeroCopyOutputStream_AllowsAliasing\<rparr>"

text \<open>The capacity must stay within an \<^verbatim>\<open>int\<close>, or the sizes computed by \<^verbatim>\<open>Next\<close> would not be exact.\<close>

definition string_out_ok :: "(int \<Rightarrow> int \<Rightarrow> int) \<Rightarrow> StringOutputStream \<Rightarrow> bool" where
  "string_out_ok grow s \<longleftrightarrow> string_size (so_target s) \<le> str_capacity (so_target s) \<and> str_capacity (so_target s) \<le> INT_MAX \<and>
     (\<forall>c n. n \<le> INT_MAX \<longrightarrow> grow c n \<le> INT_MAX)"

definition string_out :: "StringOutputStream \<Rightarrow> byte list" where
  "string_out s = str_data (so_target s)"

definition string_held :: "StringOutputStream \<Rightarrow> int \<Rightarrow> int \<Rightarrow> bool" where
  "string_held s p n \<longleftrightarrow> 0 \<le> p \<and> p + n = string_size (so_target s)"

lemma string_resize_up:
  assumes "string_size t \<le> n" and "string_size t \<le> str_capacity t" and "str_capacity t \<le> INT_MAX" and "n \<le> INT_MAX"
    and "\<forall>c n. n \<le> INT_MAX \<longrightarrow> grow c n \<le> INT_MAX"
  shows "str_data (string_resize grow n t) = str_data t @ replicate (nat (n - string_size t)) 0"
    and "string_size (string_resize grow n t) = n"
    and "n \<le> str_capacity (string_resize grow n t)" and "str_capacity (string_resize grow n t) \<le> INT_MAX"
  using assms by (auto simp: string_resize_def string_size_def)

interpretation sout: zero_copy_sink "string_output grow" "string_out_ok grow" string_out string_held "\<lambda>_. 0"
  "\<lambda>_. nat (INT_MAX div 2 + 1)" for grow
proof (unfold_locales, goal_cases)
  case (1 s)
  let ?t = "so_target s"
  have lend: "0 \<le> n - string_size ?t \<and> (\<exists>fresh. str_data (string_resize grow n ?t) = str_data ?t @ fresh \<and>
      int (length fresh) = n - string_size ?t) \<and> string_size (string_resize grow n ?t) = n \<and>
      string_out_ok grow (s\<lparr>so_target := string_resize grow n ?t\<rparr>)"
    if "string_size ?t \<le> n" "n \<le> INT_MAX" for n
    using string_resize_up [of ?t n grow] that 1 by (auto simp: string_out_ok_def)
  have "0 \<le> string_size ?t"
    by (simp add: string_size_def)
  consider "string_size ?t < str_capacity ?t" | "\<not> string_size ?t < str_capacity ?t" "string_size ?t > INT_MAX div 2"
    | "\<not> string_size ?t < str_capacity ?t" "string_size ?t \<le> INT_MAX div 2"
    by linarith
  then show ?case
  proof cases
    case a: 1
    then show ?thesis
      using 1 lend [of "str_capacity ?t"] \<open>0 \<le> string_size ?t\<close>
      by (auto simp: string_output_def StringOutputStream_Next_def Let_def STLStringResizeUninitialized_def string_out_def string_held_def string_out_ok_def)
  next
    case 2
    then show ?thesis
      using 1 by (auto simp: string_output_def StringOutputStream_Next_def Let_def string_out_def string_size_def)
  next
    case 3
    let ?n = "max (string_size ?t * 2) 16"
    have n: "string_size ?t \<le> ?n" "?n \<le> INT_MAX" "string_size ?t < ?n"
      using 3 \<open>0 \<le> string_size ?t\<close> by (auto simp: INT_MAX_def)
    then show ?thesis
      using 3 lend [OF n(1,2)] \<open>0 \<le> string_size ?t\<close>
      by (auto simp: string_output_def StringOutputStream_Next_def Let_def STLStringResizeUninitialized_def string_out_def string_held_def kMinimumSize_def)
  qed
next
  case (2 s p n q data)
  then have "mem_write (str_data (so_target s)) q data = Inr (overwrite (str_data (so_target s)) (nat q) data)"
    by (intro mem_write_Inr) (auto simp: string_held_def string_size_def)
  moreover have "length (string_out s) - nat (p + n - q) = nat q" "nat q + length data \<le> length (str_data (so_target s))"
    using 2 by (auto simp: string_held_def string_size_def string_out_def)
  ultimately show ?case
    using 2 by (simp add: string_output_def string_store_def string_out_ok_def string_held_def string_out_def string_size_def)
next
  case (3 s p n)
  then show ?case
    by (simp add: string_held_def string_out_def string_size_def)
next
  case (4 s p n c)
  then show ?case
    by (auto simp: string_output_def StringOutputStream_BackUp_def string_resize_def string_out_ok_def string_held_def
        string_out_def string_size_def nat_diff_distrib)
next
  case (5 s)
  then show ?case
    by (simp add: string_output_def StringOutputStream_ByteCount_def string_out_def string_size_def)
next
  case (6 s)
  then show ?case
    by (simp add: string_out_ok_def string_out_def string_size_def)
qed

end
