(* ===== verification/Varint.thy ===== *)
theory Varint
  imports Endian_Ex
begin

text \<open>
  Variable-length integers of the protocol buffer wire format, as the array routines of
  \<^verbatim>\<open>google/protobuf/io/coded_stream.cc\<close> and \<^verbatim>\<open>coded_stream.h\<close> (protobuf 2.6.1) write and read
  them: seven bits a byte, least significant group first, the top bit set on all bytes but the
  last. The routines are unrolled and split 64-bit values into 32-bit parts; the theory shows
  that they compute the plain encoding.
\<close>

unbundle bit_operations_syntax

type_synonym uint32 = "32 word"
type_synonym uint64 = "64 word"

lemma unat_shr: "unat (drop_bit n w) = unat w div 2 ^ n"
  unfolding unat_drop_bit_eq by (simp add: drop_bit_eq_div)

section \<open>The encoding\<close>

text \<open>The loop of the slow path of \<^verbatim>\<open>WriteVarint64\<close>, and of \<^verbatim>\<open>WriteVarint32\<close> at 32 bits.\<close>

function varint_loop :: "'a::len word \<Rightarrow> byte list" where
  "varint_loop v =
     (if v > 0x7F then (((ucast v :: byte) AND 0x7F) OR 0x80) # varint_loop (drop_bit 7 v)
      else [(ucast v :: byte) AND 0x7F])"
  by pat_completeness auto
termination
proof (relation "measure (\<lambda>w. unat w)", goal_cases)
  case (2 v)
  then have "unat v \<noteq> 0"
    by (metis unat_eq_zero word_not_simps(1))
  then have "unat v div 128 < unat v" by simp
  then show ?case
    by (simp add: unat_shr)
qed simp

declare varint_loop.simps [simp del]

definition WriteVarint32FallbackToArrayInline :: "uint32 \<Rightarrow> byte list" where
  "WriteVarint32FallbackToArrayInline v =
     (let t0 = (ucast (v OR 0x80) :: byte) in
      if v \<ge> 2 ^ 7 then
        (let t1 = (ucast (drop_bit 7 v OR 0x80) :: byte) in
         if v \<ge> 2 ^ 14 then
           (let t2 = (ucast (drop_bit 14 v OR 0x80) :: byte) in
            if v \<ge> 2 ^ 21 then
              (let t3 = (ucast (drop_bit 21 v OR 0x80) :: byte) in
               if v \<ge> 2 ^ 28 then
                 (let t4 = (ucast (drop_bit 28 v) :: byte) in [t0, t1, t2, t3, t4])
               else [t0, t1, t2, t3 AND 0x7F])
            else [t0, t1, t2 AND 0x7F])
         else [t0, t1 AND 0x7F])
      else [t0 AND 0x7F])"

definition WriteVarint32FallbackToArray :: "uint32 \<Rightarrow> byte list" where
  "WriteVarint32FallbackToArray v = WriteVarint32FallbackToArrayInline v"

definition WriteVarint32ToArray :: "uint32 \<Rightarrow> byte list" where
  "WriteVarint32ToArray v =
     (if v < 0x80 then [ucast v] else WriteVarint32FallbackToArray v)"

text \<open>The hard-coded search for the size, and the bytes from the last to the first.\<close>

definition varint64_size :: "uint32 \<Rightarrow> uint32 \<Rightarrow> uint32 \<Rightarrow> nat" where
  "varint64_size part0 part1 part2 =
     (if part2 = 0 then
        if part1 = 0 then
          if part0 < 2 ^ 14 then
            if part0 < 2 ^ 7 then 1 else 2
          else
            if part0 < 2 ^ 21 then 3 else 4
        else
          if part1 < 2 ^ 14 then
            if part1 < 2 ^ 7 then 5 else 6
          else
            if part1 < 2 ^ 21 then 7 else 8
      else
        if part2 < 2 ^ 7 then 9 else 10)"

definition WriteVarint64ToArrayInline :: "uint64 \<Rightarrow> byte list" where
  "WriteVarint64ToArrayInline v =
     (let part0 = (ucast v :: uint32);
          part1 = (ucast (drop_bit 28 v) :: uint32);
          part2 = (ucast (drop_bit 56 v) :: uint32);
          size = varint64_size part0 part1 part2;
          target = take size
            [ucast (part0 OR 0x80), ucast (drop_bit 7 part0 OR 0x80), ucast (drop_bit 14 part0 OR 0x80),
             ucast (drop_bit 21 part0 OR 0x80), ucast (part1 OR 0x80), ucast (drop_bit 7 part1 OR 0x80),
             ucast (drop_bit 14 part1 OR 0x80), ucast (drop_bit 21 part1 OR 0x80),
             ucast (part2 OR 0x80), ucast (drop_bit 7 part2 OR 0x80)]
      in target[size - 1 := target ! (size - 1) AND 0x7F])"

definition WriteVarint64ToArray :: "uint64 \<Rightarrow> byte list" where
  "WriteVarint64ToArray v = WriteVarint64ToArrayInline v"

definition WriteVarint32SignExtendedToArray :: "int32 \<Rightarrow> byte list" where
  "WriteVarint32SignExtendedToArray v =
     (if sint v < 0 then WriteVarint64ToArray (scast v) else WriteVarint32ToArray v)"

definition WriteTagToArray :: "uint32 \<Rightarrow> byte list" where
  "WriteTagToArray v =
     (if v < 2 ^ 7 then [ucast v]
      else if v < 2 ^ 14 then [ucast (v OR 0x80), ucast (drop_bit 7 v)]
      else WriteVarint32FallbackToArray v)"

section \<open>Sizes\<close>

definition VarintSize32Fallback :: "uint32 \<Rightarrow> nat" where
  "VarintSize32Fallback v =
     (if v < 2 ^ 7 then 1
      else if v < 2 ^ 14 then 2
      else if v < 2 ^ 21 then 3
      else if v < 2 ^ 28 then 4
      else 5)"

definition VarintSize32 :: "uint32 \<Rightarrow> nat" where
  "VarintSize32 v = (if v < 2 ^ 7 then 1 else VarintSize32Fallback v)"

definition VarintSize32SignExtended :: "int32 \<Rightarrow> nat" where
  "VarintSize32SignExtended v = (if sint v < 0 then 10 else VarintSize32 v)"

definition VarintSize64 :: "uint64 \<Rightarrow> nat" where
  "VarintSize64 v =
     (if v < 2 ^ 35 then
        if v < 2 ^ 7 then 1
        else if v < 2 ^ 14 then 2
        else if v < 2 ^ 21 then 3
        else if v < 2 ^ 28 then 4
        else 5
      else
        if v < 2 ^ 42 then 6
        else if v < 2 ^ 49 then 7
        else if v < 2 ^ 56 then 8
        else if v < 2 ^ 63 then 9
        else 10)"

section \<open>Decoding from an array\<close>

text \<open>
  The fast paths read through a raw pointer without a check against the end of the buffer; here
  an index past the end is a fault. The result is the value and the number of bytes consumed, and
  \<^const>\<open>None\<close> when ten bytes carry the continuation bit.
\<close>

definition byte_at :: "byte list \<Rightarrow> nat \<Rightarrow> byte result" where
  "byte_at bs i = (if i < length bs then Inr (bs ! i) else Inl OutOfBounds)"

definition kMaxVarintBytes :: nat where
  "kMaxVarintBytes = 10"

definition kMaxVarint32Bytes :: nat where
  "kMaxVarint32Bytes = 5"

text \<open>The bytes past the fifth of a 32-bit value are read and discarded.\<close>

fun skip_varint_rest :: "nat \<Rightarrow> byte list \<Rightarrow> nat \<Rightarrow> nat option result" where
  "skip_varint_rest 0 buf ptr = Inr None"
| "skip_varint_rest (Suc n) buf ptr =
     rbind (byte_at buf ptr) (\<lambda>b.
       if b AND 0x80 = 0 then Inr (Some (Suc ptr)) else skip_varint_rest n buf (Suc ptr))"

definition ReadVarint32FromArray :: "byte list \<Rightarrow> (uint32 \<times> nat) option result" where
  "ReadVarint32FromArray buf =
     rbind (byte_at buf 0) (\<lambda>b. let result = ucast b in
     if b AND 0x80 = 0 then Inr (Some (result, 1)) else
     let result = result - 0x80 in
     rbind (byte_at buf 1) (\<lambda>b. let result = result + push_bit 7 (ucast b) in
     if b AND 0x80 = 0 then Inr (Some (result, 2)) else
     let result = result - push_bit 7 0x80 in
     rbind (byte_at buf 2) (\<lambda>b. let result = result + push_bit 14 (ucast b) in
     if b AND 0x80 = 0 then Inr (Some (result, 3)) else
     let result = result - push_bit 14 0x80 in
     rbind (byte_at buf 3) (\<lambda>b. let result = result + push_bit 21 (ucast b) in
     if b AND 0x80 = 0 then Inr (Some (result, 4)) else
     let result = result - push_bit 21 0x80 in
     rbind (byte_at buf 4) (\<lambda>b. let result = result + push_bit 28 (ucast b) in
     if b AND 0x80 = 0 then Inr (Some (result, 5)) else
     rbind (skip_varint_rest (kMaxVarintBytes - kMaxVarint32Bytes) buf 5) (\<lambda>end_ptr.
       Inr (map_option (\<lambda>ptr. (result, ptr)) end_ptr)))))))"

definition varint64_parts :: "uint32 \<Rightarrow> uint32 \<Rightarrow> uint32 \<Rightarrow> uint64" where
  "varint64_parts part0 part1 part2 = ucast part0 OR push_bit 28 (ucast part1) OR push_bit 56 (ucast part2)"

definition ReadVarint64FromArray :: "byte list \<Rightarrow> (uint64 \<times> nat) option result" where
  "ReadVarint64FromArray buf =
     (let part1 = 0; part2 = 0 in
     rbind (byte_at buf 0) (\<lambda>b. let part0 = ucast b in
     if b AND 0x80 = 0 then Inr (Some (varint64_parts part0 part1 part2, 1)) else
     let part0 = part0 - 0x80 in
     rbind (byte_at buf 1) (\<lambda>b. let part0 = part0 + push_bit 7 (ucast b) in
     if b AND 0x80 = 0 then Inr (Some (varint64_parts part0 part1 part2, 2)) else
     let part0 = part0 - push_bit 7 0x80 in
     rbind (byte_at buf 2) (\<lambda>b. let part0 = part0 + push_bit 14 (ucast b) in
     if b AND 0x80 = 0 then Inr (Some (varint64_parts part0 part1 part2, 3)) else
     let part0 = part0 - push_bit 14 0x80 in
     rbind (byte_at buf 3) (\<lambda>b. let part0 = part0 + push_bit 21 (ucast b) in
     if b AND 0x80 = 0 then Inr (Some (varint64_parts part0 part1 part2, 4)) else
     let part0 = part0 - push_bit 21 0x80 in
     rbind (byte_at buf 4) (\<lambda>b. let part1 = ucast b in
     if b AND 0x80 = 0 then Inr (Some (varint64_parts part0 part1 part2, 5)) else
     let part1 = part1 - 0x80 in
     rbind (byte_at buf 5) (\<lambda>b. let part1 = part1 + push_bit 7 (ucast b) in
     if b AND 0x80 = 0 then Inr (Some (varint64_parts part0 part1 part2, 6)) else
     let part1 = part1 - push_bit 7 0x80 in
     rbind (byte_at buf 6) (\<lambda>b. let part1 = part1 + push_bit 14 (ucast b) in
     if b AND 0x80 = 0 then Inr (Some (varint64_parts part0 part1 part2, 7)) else
     let part1 = part1 - push_bit 14 0x80 in
     rbind (byte_at buf 7) (\<lambda>b. let part1 = part1 + push_bit 21 (ucast b) in
     if b AND 0x80 = 0 then Inr (Some (varint64_parts part0 part1 part2, 8)) else
     let part1 = part1 - push_bit 21 0x80 in
     rbind (byte_at buf 8) (\<lambda>b. let part2 = ucast b in
     if b AND 0x80 = 0 then Inr (Some (varint64_parts part0 part1 part2, 9)) else
     let part2 = part2 - 0x80 in
     rbind (byte_at buf 9) (\<lambda>b. let part2 = part2 + push_bit 7 (ucast b) in
     if b AND 0x80 = 0 then Inr (Some (varint64_parts part0 part1 part2, 10)) else
     Inr None)))))))))))"

section \<open>The encoders agree\<close>

text \<open>The encoding by position: \<open>k\<close> continuation bytes and the last byte.\<close>

lemma drop_bit_less: "unat (w :: 'a::len word) < 2 ^ (7 * Suc k) \<Longrightarrow> unat (drop_bit 7 w) < 2 ^ (7 * k)"
  by (simp add: unat_shr less_mult_imp_div_less power_add mult.commute)

lemma bit_7F [simp]: "bit (0x7F :: int) n \<longleftrightarrow> n < 7"
proof -
  have eq: "(0x7F :: int) = mask 7"
    by (simp add: mask_eq_exp_minus_1)
  show ?thesis
    unfolding eq bit_mask_iff by simp
qed

lemma bit_80 [simp]: "bit (0x80 :: int) n \<longleftrightarrow> n = 7"
proof -
  have eq: "(0x80 :: int) = 2 ^ 7"
    by simp
  show ?thesis
    unfolding eq bit_exp_iff by auto
qed

lemma bit_small:
  fixes w :: "'a::len word"
  assumes "unat w < 2 ^ k" and "bit w n"
  shows "n < k"
proof -
  have "bit (unat w) n"
    using assms(2) by (simp add: bit_unsigned_iff)
  moreover have "unat w = take_bit k (unat w)"
    using assms(1) by (simp add: take_bit_nat_eq_self)
  ultimately show ?thesis
    by (metis bit_take_bit_iff)
qed

lemmas bit_small7 = bit_small [where k = 7, simplified]
lemmas bit_small14 = bit_small [where k = 14, simplified]

lemma upto_ten:
  assumes "1 \<le> k" and "k \<le> (10 :: nat)"
  obtains "k = 1" | "k = 2" | "k = 3" | "k = 4" | "k = 5" | "k = 6" | "k = 7" | "k = 8" | "k = 9" | "k = 10"
proof -
  have "k = 1 \<or> k = 2 \<or> k = 3 \<or> k = 4 \<or> k = 5 \<or> k = 6 \<or> k = 7 \<or> k = 8 \<or> k = 9 \<or> k = 10"
    using assms by arith
  then show ?thesis using that by blast
qed

lemma byte_or_80: "((ucast (w :: 'a::len word) :: byte) AND 0x7F) OR 0x80 = ucast w OR 0x80"
  by (rule bit_word_eqI) (auto simp: bit_simps)

lemma byte_or_and [simp]: "((b :: byte) OR 0x80) AND 0x7F = b AND 0x7F"
  by (rule bit_word_eqI) (auto simp: bit_simps)

lemma ucast_or_80: "8 \<le> LENGTH('a) \<Longrightarrow> (ucast ((w :: 'a::len word) OR 0x80) :: byte) = ucast w OR 0x80"
  by (rule bit_word_eqI) (auto simp: bit_simps)

lemma unat_7F: "7 < LENGTH('a) \<Longrightarrow> unat (0x7F :: 'a::len word) = 127"
proof -
  assume "7 < LENGTH('a)"
  then have "(2 :: nat) ^ 7 \<le> 2 ^ LENGTH('a)"
    by (intro power_increasing) simp_all
  then show ?thesis
    by (simp add: take_bit_nat_eq_self)
qed

lemma shr28_and: "(ucast (drop_bit 28 (v :: uint32)) :: byte) AND 0x7F = ucast (drop_bit 28 v)"
  by (rule bit_word_eqI) (auto simp: bit_simps dest: bit_imp_le_length)

lemma varint_loop_positions:
  fixes w :: "'a::len word"
  assumes "7 < LENGTH('a)" and "unat w < 2 ^ (7 * Suc k)" and "k = 0 \<or> 2 ^ (7 * k) \<le> unat w"
  shows "varint_loop w = map (\<lambda>i. (ucast (drop_bit (7 * i) w) :: byte) OR 0x80) [0..<k] @
     [(ucast (drop_bit (7 * k) w) :: byte) AND 0x7F]"
  using assms(2,3)
proof (induction k arbitrary: w)
  case 0
  have "\<not> w > 0x7F"
    using 0 unfolding word_less_nat_alt unat_7F [OF assms(1)] by simp
  then show ?case by (simp add: varint_loop.simps)
next
  case (Suc k)
  have big: "2 ^ (7 * Suc k) \<le> unat w"
    using Suc.prems(2) by simp
  moreover have "(2 :: nat) ^ 7 \<le> 2 ^ (7 * Suc k)"
    by (intro power_increasing) simp_all
  ultimately have "w > 0x7F"
    unfolding word_less_nat_alt unat_7F [OF assms(1)] by simp
  then have "varint_loop w = ((ucast w :: byte) OR 0x80) # varint_loop (drop_bit 7 w)"
    by (subst varint_loop.simps) (simp add: byte_or_80)
  also have "varint_loop (drop_bit 7 w) =
      map (\<lambda>i. (ucast (drop_bit (7 * i) (drop_bit 7 w)) :: byte) OR 0x80) [0..<k] @
      [(ucast (drop_bit (7 * k) (drop_bit 7 w)) :: byte) AND 0x7F]"
  proof (rule Suc.IH)
    show "unat (drop_bit 7 w) < 2 ^ (7 * Suc k)"
      using Suc.prems(1) by (rule drop_bit_less)
    have "2 ^ (7 * k) * 128 \<le> unat w"
      using big by (simp add: power_add mult.commute)
    then show "k = 0 \<or> 2 ^ (7 * k) \<le> unat (drop_bit 7 w)"
      by (simp add: unat_shr div_le_mono less_eq_div_iff_mult_less_eq)
  qed
  finally show ?case
    by (simp add: map_upt_Suc drop_bit_drop_bit ac_simps del: upt_Suc)
qed

lemmas varint32_positions = varint_loop_positions [where 'a = 32, simplified]
lemmas varint64_positions = varint_loop_positions [where 'a = 64, simplified]

lemma WriteVarint32_loop: "WriteVarint32FallbackToArrayInline v = varint_loop v"
proof -
  have lt: "unat v < 2 ^ 32"
    using unsigned_less [of v] by simp
  consider "unat v < 2 ^ 7" | "2 ^ 7 \<le> unat v" "unat v < 2 ^ 14" | "2 ^ 14 \<le> unat v" "unat v < 2 ^ 21"
    | "2 ^ 21 \<le> unat v" "unat v < 2 ^ 28" | "2 ^ 28 \<le> unat v"
    by linarith
  then show ?thesis
  proof cases
    case 1
    then show ?thesis
      using varint32_positions [of v 0]
      by (simp add: WriteVarint32FallbackToArrayInline_def word_le_nat_alt Let_def ucast_or_80)
  next
    case 2
    then show ?thesis
      using varint32_positions [of v 1]
      by (simp add: WriteVarint32FallbackToArrayInline_def word_le_nat_alt Let_def ucast_or_80)
  next
    case 3
    then show ?thesis
      using varint32_positions [of v 2]
      by (simp add: WriteVarint32FallbackToArrayInline_def word_le_nat_alt Let_def ucast_or_80 upt_rec)
  next
    case 4
    then show ?thesis
      using varint32_positions [of v 3]
      by (simp add: WriteVarint32FallbackToArrayInline_def word_le_nat_alt Let_def ucast_or_80 upt_rec)
  next
    case 5
    then show ?thesis
      using varint32_positions [of v 4] lt
      by (simp add: WriteVarint32FallbackToArrayInline_def word_le_nat_alt Let_def ucast_or_80 shr28_and upt_rec)
  qed
qed

text \<open>The 32-bit parts of a 64-bit value, and the bytes cut out of them.\<close>

lemma part_bytes:
  "n + 8 \<le> 32 \<Longrightarrow> (ucast (drop_bit n (ucast (drop_bit k (v :: uint64)) :: uint32)) :: byte) = ucast (drop_bit (k + n) v)"
  by (rule bit_word_eqI) (auto simp: bit_simps ac_simps)

lemma part0_byte: "(ucast (ucast (v :: uint64) :: uint32) :: 8 word) = ucast v"
  by (rule bit_word_eqI) (auto simp: bit_simps)

lemma unat_ucast32: "unat (ucast (v :: uint64) :: uint32) = unat v mod 2 ^ 32"
  by (simp add: unsigned_ucast_eq take_bit_eq_mod)

lemma varint64_size_range:
  fixes v :: uint64
  assumes v: "unat v < 2 ^ (7 * k)" "k = 1 \<or> 2 ^ (7 * (k - 1)) \<le> unat v" and k: "1 \<le> k" "k \<le> 10"
  shows "varint64_size (ucast v) (ucast (drop_bit 28 v)) (ucast (drop_bit 56 v)) = k"
proof -
  let ?n = "unat v"
  have lt: "?n < 2 ^ 64"
    using unat_size_less [of v] by simp
  have p0: "unat (ucast v :: uint32) = ?n mod 2 ^ 32"
    and p1: "unat (ucast (drop_bit 28 v) :: uint32) = (?n div 2 ^ 28) mod 2 ^ 32"
    and p2: "unat (ucast (drop_bit 56 v) :: uint32) = ?n div 2 ^ 56"
    using lt by (simp_all add: unat_ucast32 unat_shr)
  have size: "varint64_size (ucast v) (ucast (drop_bit 28 v)) (ucast (drop_bit 56 v)) =
     (if ?n div 2 ^ 56 = 0 then
        if (?n div 2 ^ 28) mod 2 ^ 32 = 0 then
          if ?n mod 2 ^ 32 < 2 ^ 14 then
            if ?n mod 2 ^ 32 < 2 ^ 7 then 1 else 2
          else
            if ?n mod 2 ^ 32 < 2 ^ 21 then 3 else 4
        else
          if (?n div 2 ^ 28) mod 2 ^ 32 < 2 ^ 14 then
            if (?n div 2 ^ 28) mod 2 ^ 32 < 2 ^ 7 then 5 else 6
          else
            if (?n div 2 ^ 28) mod 2 ^ 32 < 2 ^ 21 then 7 else 8
      else
        if ?n div 2 ^ 56 < 2 ^ 7 then 9 else 10)"
    unfolding varint64_size_def word_less_nat_alt unat_eq_zero [symmetric] p0 p1 p2 by simp
  have m1: "(?n div 2 ^ 28) mod 2 ^ 32 = ?n div 2 ^ 28" if "?n < 2 ^ 60"
    using that by (intro mod_less) (simp add: less_mult_imp_div_less)
  have div: "?n div 2 ^ a < 2 ^ b \<longleftrightarrow> ?n < 2 ^ (a + b)" for a b
    by (simp add: div_less_iff_less_mult power_add mult.commute)
  from k show ?thesis
    unfolding size by (cases k rule: upto_ten) (use v m1 div [of 28 7] div [of 28 14] div [of 28 21] div [of 56 7] in
        \<open>simp_all add: div_eq_0_iff\<close>)
qed

lemma varint_range:
  fixes n :: nat
  shows "n < 2 ^ (7 * m) \<Longrightarrow> 1 \<le> m \<Longrightarrow>
    \<exists>k. 1 \<le> k \<and> k \<le> m \<and> n < 2 ^ (7 * k) \<and> (k = 1 \<or> 2 ^ (7 * (k - 1)) \<le> n)"
proof (induction m)
  case (Suc m)
  show ?case
  proof (cases "m = 0 \<or> 2 ^ (7 * m) \<le> n")
    case True
    then show ?thesis
      using Suc.prems by (intro exI [of _ "Suc m"]) auto
  next
    case False
    then obtain k where "1 \<le> k \<and> k \<le> m \<and> n < 2 ^ (7 * k) \<and> (k = 1 \<or> 2 ^ (7 * (k - 1)) \<le> n)"
      using Suc.IH by auto
    then show ?thesis
      by (intro exI [of _ k]) auto
  qed
qed simp

lemma WriteVarint64_loop: "WriteVarint64ToArrayInline v = varint_loop v"
proof -
  have "unat v < 2 ^ (7 * 10)"
    using unat_size_less [of v] by simp
  from varint_range [OF this]
  obtain k where k: "1 \<le> k" "k \<le> 10" "unat v < 2 ^ (7 * k)" "k = 1 \<or> 2 ^ (7 * (k - 1)) \<le> unat v"
    by auto
  have size: "varint64_size (ucast v) (ucast (drop_bit 28 v)) (ucast (drop_bit 56 v)) = k"
    using k by (intro varint64_size_range) auto
  note bytes = part_bytes [where k = 0, simplified] part_bytes [where n = 0, simplified]
    part_bytes [where k = 28] part_bytes [where k = 56]
  have "varint_loop v = map (\<lambda>i. (ucast (drop_bit (7 * i) v) :: byte) OR 0x80) [0..<k - 1] @
     [(ucast (drop_bit (7 * (k - 1)) v) :: byte) AND 0x7F]"
    using k by (intro varint64_positions) (auto simp: algebra_simps)
  with k(1,2) show ?thesis
    unfolding WriteVarint64ToArrayInline_def Let_def size
    by (cases k rule: upto_ten) (simp_all add: ucast_or_80 part_bytes part0_byte bytes upt_rec)
qed

lemma WriteTag_loop: "WriteTagToArray v = varint_loop v"
proof -
  have small: "unat v < 2 ^ 7 \<Longrightarrow> (ucast v :: byte) AND 0x7F = ucast v"
    by (intro bit_word_eqI) (auto simp: bit_simps dest: bit_small7 bit_small14)
  have small': "unat v < 2 ^ 14 \<Longrightarrow> (ucast (drop_bit 7 v) :: byte) AND 0x7F = ucast (drop_bit 7 v)"
    by (intro bit_word_eqI) (auto simp: bit_simps dest: bit_small7 bit_small14)
  consider "unat v < 2 ^ 7" | "2 ^ 7 \<le> unat v" "unat v < 2 ^ 14" | "2 ^ 14 \<le> unat v"
    by linarith
  then show ?thesis
  proof cases
    case 1
    then show ?thesis
      using varint32_positions [of v 0] small by (simp add: WriteTagToArray_def word_less_nat_alt)
  next
    case 2
    then show ?thesis
      using varint32_positions [of v 1] small'
      by (simp add: WriteTagToArray_def word_less_nat_alt ucast_or_80)
  next
    case 3
    then show ?thesis
      by (simp add: WriteTagToArray_def word_less_nat_alt WriteVarint32FallbackToArray_def WriteVarint32_loop)
  qed
qed

lemma WriteVarint32ToArray_loop: "WriteVarint32ToArray v = varint_loop v"
proof (cases "unat v < 2 ^ 7")
  case True
  then have "(ucast v :: byte) AND 0x7F = ucast v"
    by (intro bit_word_eqI) (auto simp: bit_simps dest: bit_small7 bit_small14)
  then show ?thesis
    using True varint32_positions [of v 0] by (simp add: WriteVarint32ToArray_def word_less_nat_alt)
next
  case False
  then show ?thesis
    by (simp add: WriteVarint32ToArray_def word_less_nat_alt WriteVarint32FallbackToArray_def WriteVarint32_loop)
qed

lemma WriteVarint64ToArray_loop: "WriteVarint64ToArray v = varint_loop v"
  by (simp add: WriteVarint64ToArray_def WriteVarint64_loop)

section \<open>The value of an encoding\<close>

text \<open>
  The reference: an encoding is a group of at most ten bytes up to the first one without the
  continuation bit, and its value is the number with the groups of seven bits as its digits.
\<close>

fun varint_split :: "nat \<Rightarrow> byte list \<Rightarrow> (byte list \<times> byte list) option" where
  "varint_split 0 bs = None"
| "varint_split (Suc n) [] = None"
| "varint_split (Suc n) (b # bs) =
     (if b AND 0x80 = 0 then Some ([b], bs)
      else map_option (\<lambda>(g, r). (b # g, r)) (varint_split n bs))"

fun varint_nat :: "byte list \<Rightarrow> nat" where
  "varint_nat [] = 0"
| "varint_nat (b # bs) = unat b mod 128 + 128 * varint_nat bs"

definition varint_group :: "byte list \<Rightarrow> bool" where
  "varint_group g \<longleftrightarrow> g \<noteq> [] \<and> (\<forall>b \<in> set (butlast g). b AND 0x80 \<noteq> 0) \<and> last g AND 0x80 = 0"

lemma varint_group_Cons:
  "varint_group (b # g) \<longleftrightarrow> (if g = [] then b AND 0x80 = 0 else b AND 0x80 \<noteq> 0 \<and> varint_group g)"
  by (auto simp: varint_group_def)

lemma varint_split_Some:
  "varint_split n bs = Some (g, r) \<longleftrightarrow> bs = g @ r \<and> varint_group g \<and> length g \<le> n"
proof (induction n bs arbitrary: g r rule: varint_split.induct)
  case (1 bs)
  then show ?case by (auto simp: varint_group_def)
next
  case (2 n)
  then show ?case by (auto simp: varint_group_def)
next
  case (3 n b bs)
  show ?case
  proof (cases "b AND 0x80 = 0")
    case True
    then show ?thesis
      by (cases g) (auto simp: varint_group_Cons varint_group_def)
  next
    case False
    then show ?thesis
      using 3 by (cases g) (auto simp: varint_group_Cons varint_group_def)
  qed
qed

lemma varint_split_None:
  assumes "varint_split n bs = None"
  shows "(\<forall>b \<in> set (take n bs). b AND 0x80 \<noteq> 0)"
  using assms by (induction n bs rule: varint_split.induct) (auto split: if_splits)

text \<open>A byte as a digit and its continuation bit.\<close>

lemma bit7_unat: "(b :: byte) AND 0x80 = 0 \<longleftrightarrow> unat b < 128"
proof
  assume *: "b AND 0x80 = 0"
  have "bit (b AND 0x80) 7 \<longleftrightarrow> bit b 7"
    by (simp add: bit_simps)
  then have "\<not> bit b 7"
    unfolding * by simp
  then have "b = take_bit 7 b"
    by (intro bit_word_eqI) (auto simp: bit_simps less_Suc_eq numeral_eq_Suc)
  then have "unat b = take_bit 7 (unat b)"
    by (metis unsigned_take_bit_eq)
  then show "unat b < 128"
    using take_bit_nat_less_exp [of 7 "unat b"] by simp
next
  assume "unat b < 128"
  then show "b AND 0x80 = 0"
    by (intro bit_word_eqI) (auto simp: bit_simps dest: bit_small7)
qed

lemma byte_cont: "(b :: byte) AND 0x80 \<noteq> 0 \<Longrightarrow> (ucast b :: 'a::len word) = of_nat (unat b mod 128) + 128"
proof -
  assume "b AND 0x80 \<noteq> 0"
  then have "128 \<le> unat b" and "unat b < 256"
    using unsigned_less [of b] by (simp_all add: bit7_unat)
  then have *: "unat b = unat b mod 128 + 128"
    by (simp add: le_mod_geq)
  have "(ucast b :: 'a word) = of_nat (unat b)"
    by simp
  then show ?thesis
    by (subst (asm) *) simp
qed

lemma byte_last: "(b :: byte) AND 0x80 = 0 \<Longrightarrow> (ucast b :: 'a::len word) = of_nat (unat b mod 128)"
  by (simp add: bit7_unat)

lemma varint_nat_bound: "varint_nat g < 2 ^ (7 * length g)"
proof (induction g)
  case (Cons b g)
  have "unat b mod 128 < 128" by simp
  with Cons have "unat b mod 128 + 128 * varint_nat g < 128 * 2 ^ (7 * length g)"
    by linarith
  then show ?case
    by (simp add: power_add)
qed simp

lemma varint_nat_append: "varint_nat (g @ h) = varint_nat g + 2 ^ (7 * length g) * varint_nat h"
  by (induction g) (simp_all add: power_add algebra_simps)

lemma or_push_add:
  fixes a :: "'a::len word"
  assumes "unat a < 2 ^ k"
  shows "a OR push_bit k c = a + push_bit k c"
proof -
  have "a AND push_bit k c = 0"
    using assms by (intro bit_word_eqI) (auto simp: bit_simps dest: bit_small)
  then show ?thesis
    by (simp add: disjunctive_add_eq_or)
qed

lemma ucast_of_nat32: "n < 2 ^ 32 \<Longrightarrow> (ucast (of_nat n :: uint32) :: uint64) = of_nat n"
  by (simp add: unsigned_of_nat take_bit_nat_eq_self)

lemma varint64_parts_add:
  assumes "n0 < 2 ^ 28" "n1 < 2 ^ 28" "n2 < 2 ^ 32"
  shows "varint64_parts (of_nat n0) (of_nat n1) (of_nat n2) = of_nat (n0 + 2 ^ 28 * n1 + 2 ^ 56 * n2)"
proof -
  have "(of_nat n0 :: uint64) OR push_bit 28 (of_nat n1) = of_nat n0 + push_bit 28 (of_nat n1)"
    using assms by (intro or_push_add) simp
  also have "\<dots> = of_nat (n0 + 2 ^ 28 * n1)"
    by (simp add: push_bit_eq_mult mult.commute)
  finally have low: "(of_nat n0 :: uint64) OR push_bit 28 (of_nat n1) = of_nat (n0 + 2 ^ 28 * n1)" .
  have "n0 + 2 ^ 28 * n1 < 2 ^ 56"
    using assms by simp
  then have "(of_nat (n0 + 2 ^ 28 * n1) :: uint64) OR push_bit 56 (of_nat n2) =
      of_nat (n0 + 2 ^ 28 * n1) + push_bit 56 (of_nat n2)"
    by (intro or_push_add) (simp del: of_nat_add)
  also have "\<dots> = of_nat (n0 + 2 ^ 28 * n1 + 2 ^ 56 * n2)"
    by (simp add: push_bit_eq_mult mult.commute)
  finally have high: "(of_nat (n0 + 2 ^ 28 * n1) :: uint64) OR push_bit 56 (of_nat n2) = \<dots>" .
  have "varint64_parts (of_nat n0) (of_nat n1) (of_nat n2) =
      (of_nat n0 OR push_bit 28 (of_nat n1)) OR push_bit 56 (of_nat n2)"
    unfolding varint64_parts_def using assms by (simp add: ucast_of_nat32 or.assoc)
  then show ?thesis
    unfolding low high .
qed

lemma byte_at_append [simp]: "i < length g \<Longrightarrow> byte_at (g @ r) i = Inr (g ! i)"
  by (simp add: byte_at_def nth_append)

lemma varint_nat_digits: "varint_nat g = (\<Sum>i\<leftarrow>[0..<length g]. 2 ^ (7 * i) * (unat (g ! i) mod 128))"
proof (induction g rule: rev_induct)
  case (snoc b g)
  have "(\<Sum>i\<leftarrow>[0..<length g]. 2 ^ (7 * i) * (unat ((g @ [b]) ! i) mod 128)) =
      (\<Sum>i\<leftarrow>[0..<length g]. 2 ^ (7 * i) * (unat (g ! i) mod 128))"
    by (intro arg_cong [where f = sum_list] map_cong) (simp_all add: nth_append)
  with snoc show ?case
    by (simp add: varint_nat_append)
qed simp

lemma varint_group_nth:
  assumes "varint_group g"
  shows "Suc i < length g \<Longrightarrow> g ! i AND 0x80 \<noteq> 0"
    and "Suc i = length g \<Longrightarrow> g ! i AND 0x80 = 0"
proof -
  assume "Suc i < length g"
  then have "g ! i \<in> set (butlast g)"
    by (metis Suc_lessD length_butlast less_diff_conv nth_butlast nth_mem add.commute plus_1_eq_Suc)
  then show "g ! i AND 0x80 \<noteq> 0"
    using assms by (simp add: varint_group_def)
next
  assume "Suc i = length g"
  then have "g ! i = last g"
    by (metis diff_Suc_1 last_conv_nth length_0_conv nat.distinct(1))
  then show "g ! i AND 0x80 = 0"
    using assms by (simp add: varint_group_def)
qed

lemma skip_varint_rest_group:
  "varint_group g \<Longrightarrow> i < length g \<Longrightarrow> length g \<le> i + n \<Longrightarrow>
     skip_varint_rest n (g @ r) i = Inr (Some (length g))"
proof (induction n arbitrary: i)
  case (Suc n)
  show ?case
  proof (cases "Suc i = length g")
    case True
    then show ?thesis
      using Suc.prems varint_group_nth(2) [OF Suc.prems(1) True] by simp
  next
    case False
    then have "Suc i < length g"
      using Suc.prems by simp
    then show ?thesis
      using Suc varint_group_nth(1) [OF Suc.prems(1)] by simp
  qed
qed simp

lemma high_digits32:
  "(34359738368 :: uint32) = 0" "(4398046511104 :: uint32) = 0" "(562949953421312 :: uint32) = 0"
  "(72057594037927936 :: uint32) = 0" "(9223372036854775808 :: uint32) = 0"
  by simp_all

lemma Suc_Suc_0: "Suc (Suc 0) = 2"
  by simp

lemma ReadVarint32FromArray_group:
  assumes g: "varint_group g" and "length g \<le> 10"
  shows "ReadVarint32FromArray (g @ r) = Inr (Some (of_nat (varint_nat g), length g))"
proof -
  have "1 \<le> length g"
    using g by (cases g) (auto simp: varint_group_def)
  then show ?thesis
    using assms(2)
    by (cases "length g" rule: upto_ten)
      (simp_all add: ReadVarint32FromArray_def varint_group_nth [OF g] byte_cont byte_last push_bit_eq_mult
        skip_varint_rest_group [OF g] kMaxVarintBytes_def kMaxVarint32Bytes_def
        varint_nat_digits upt_rec Let_def algebra_simps Suc_Suc_0 high_digits32)
qed

lemma varint64_digits:
  assumes "d0 < 128" "d1 < 128" "d2 < 128" "d3 < 128" "d4 < 128" "d5 < 128" "d6 < 128" "d7 < 128"
    "d8 < 128" "d9 < 128"
  shows "varint64_parts
      (of_nat d0 + (128 * of_nat d1 + (16384 * of_nat d2 + of_nat d3 * 2097152)))
      (of_nat d4 + (128 * of_nat d5 + (16384 * of_nat d6 + of_nat d7 * 2097152)))
      (of_nat d8 + 128 * of_nat d9) =
    of_nat d0 + (128 * of_nat d1 + (16384 * of_nat d2 + (of_nat d3 * 2097152 +
      (of_nat d4 * 268435456 + (of_nat d5 * 34359738368 + (of_nat d6 * 4398046511104 +
      (of_nat d7 * 562949953421312 + (of_nat d8 * 72057594037927936 + of_nat d9 * 9223372036854775808))))))))"
  using varint64_parts_add [of "d0 + (128 * d1 + (16384 * d2 + d3 * 2097152))"
      "d4 + (128 * d5 + (16384 * d6 + d7 * 2097152))" "d8 + 128 * d9"] assms
  by (simp add: algebra_simps)

lemmas varint64_digits_upto = varint64_digits
  varint64_digits [of _ 0 0 0 0 0 0 0 0 0, simplified]
  varint64_digits [of _ _ 0 0 0 0 0 0 0 0, simplified]
  varint64_digits [of _ _ _ 0 0 0 0 0 0 0, simplified]
  varint64_digits [of _ _ _ _ 0 0 0 0 0 0, simplified]
  varint64_digits [of _ _ _ _ _ 0 0 0 0 0, simplified]
  varint64_digits [of _ _ _ _ _ _ 0 0 0 0, simplified]
  varint64_digits [of _ _ _ _ _ _ _ 0 0 0, simplified]
  varint64_digits [of _ _ _ _ _ _ _ _ 0 0, simplified]
  varint64_digits [of _ _ _ _ _ _ _ _ _ 0, simplified]

lemma ReadVarint64FromArray_group:
  assumes g: "varint_group g" and "length g \<le> 10"
  shows "ReadVarint64FromArray (g @ r) = Inr (Some (of_nat (varint_nat g), length g))"
proof -
  have "1 \<le> length g"
    using g by (cases g) (auto simp: varint_group_def)
  then show ?thesis
    using assms(2)
    by (cases "length g" rule: upto_ten)
      (simp_all add: ReadVarint64FromArray_def varint_group_nth [OF g] byte_cont byte_last push_bit_eq_mult
        varint_nat_digits upt_rec Let_def algebra_simps Suc_Suc_0 varint64_digits_upto)
qed

text \<open>Ten continuation bytes are refused by both.\<close>

lemma skip_varint_rest_overlong:
  "length bs \<ge> i + n \<Longrightarrow> \<forall>j < i + n. bs ! j AND 0x80 \<noteq> 0 \<Longrightarrow> skip_varint_rest n bs i = Inr None"
  by (induction n arbitrary: i) (simp_all add: byte_at_def)

lemma ReadVarint_overlong:
  assumes "varint_split 10 bs = None" and "10 \<le> length bs"
  shows "ReadVarint32FromArray bs = Inr None" and "ReadVarint64FromArray bs = Inr None"
proof -
  have cont: "bs ! i AND 0x80 \<noteq> 0" if "i < 10" for i
    using varint_split_None [OF assms(1)] that assms(2) by (metis in_set_conv_nth length_take min.absorb2 nth_take)
  have ne: "bs \<noteq> []"
    using assms(2) by auto
  from cont have "skip_varint_rest 5 bs 5 = Inr None"
    using assms(2) by (intro skip_varint_rest_overlong) simp_all
  then show "ReadVarint32FromArray bs = Inr None"
    using assms(2) cont ne
    by (simp add: ReadVarint32FromArray_def byte_at_def kMaxVarintBytes_def kMaxVarint32Bytes_def Let_def)
  show "ReadVarint64FromArray bs = Inr None"
    using assms(2) cont ne by (simp add: ReadVarint64FromArray_def byte_at_def Let_def)
qed

text \<open>
  The guard of the fast paths: ten bytes are buffered, or the buffer ends with a byte that ends an
  encoding. Under it the unchecked reads stay inside the buffer and compute the reference.
\<close>

definition fast_varint_guard :: "byte list \<Rightarrow> bool" where
  "fast_varint_guard bs \<longleftrightarrow> kMaxVarintBytes \<le> length bs \<or> (bs \<noteq> [] \<and> last bs AND 0x80 = 0)"

lemma varint_split_short:
  assumes "bs \<noteq> []" and "last bs AND 0x80 = 0" and "length bs \<le> n"
  shows "varint_split n bs \<noteq> None"
proof
  assume "varint_split n bs = None"
  then have "\<forall>b \<in> set bs. b AND 0x80 \<noteq> 0"
    using varint_split_None assms(3) by force
  then show False
    using assms(1,2) by simp
qed

definition varint_result :: "byte list \<Rightarrow> ('a::len word \<times> nat) option" where
  "varint_result bs =
     map_option (\<lambda>(g, r). (of_nat (varint_nat g), length g)) (varint_split kMaxVarintBytes bs)"

lemma fast_varint:
  assumes "fast_varint_guard bs"
  shows "ReadVarint32FromArray bs = Inr (varint_result bs) \<and> ReadVarint64FromArray bs = Inr (varint_result bs)"
proof (cases "varint_split kMaxVarintBytes bs")
  case None
  then have "10 \<le> length bs"
    using assms varint_split_short [of bs 10]
    by (cases "length bs \<le> 10") (auto simp: fast_varint_guard_def kMaxVarintBytes_def)
  with None show ?thesis
    by (simp add: ReadVarint_overlong kMaxVarintBytes_def varint_result_def)
next
  case (Some p)
  then obtain g r where "p = (g, r)" "bs = g @ r" "varint_group g" "length g \<le> 10"
    by (cases p) (auto simp: varint_split_Some kMaxVarintBytes_def)
  with Some show ?thesis
    by (simp add: ReadVarint32FromArray_group ReadVarint64FromArray_group varint_result_def)
qed

text \<open>Memory after the guarded bytes does not matter.\<close>

lemma varint_split_append:
  assumes "fast_varint_guard w"
  shows "varint_split kMaxVarintBytes (w @ x) =
    map_option (\<lambda>(g, r). (g, r @ x)) (varint_split kMaxVarintBytes w)"
proof (cases "varint_split kMaxVarintBytes w")
  case None
  then have len: "10 \<le> length w"
    using assms varint_split_short [of w 10]
    by (cases "length w \<le> 10") (auto simp: fast_varint_guard_def kMaxVarintBytes_def)
  have "varint_split kMaxVarintBytes (w @ x) = None"
  proof (rule ccontr)
    assume "varint_split kMaxVarintBytes (w @ x) \<noteq> None"
    then obtain g r where g: "w @ x = g @ r" "varint_group g" "length g \<le> 10"
      by (auto simp: varint_split_Some kMaxVarintBytes_def)
    then have "take (length g) w = g"
      using len by (metis append_eq_append_conv_if le_trans order_refl append_eq_conv_conj)
    then have "w = g @ drop (length g) w"
      by (metis append_take_drop_id)
    with g have "varint_split kMaxVarintBytes w = Some (g, drop (length g) w)"
      by (simp add: varint_split_Some kMaxVarintBytes_def)
    with None show False by simp
  qed
  with None show ?thesis by simp
next
  case (Some p)
  obtain g r where p: "p = (g, r)"
    by (cases p)
  then have "varint_split kMaxVarintBytes (w @ x) = Some (g, r @ x)"
    using Some by (simp add: varint_split_Some)
  with Some p show ?thesis by simp
qed

lemma varint_result_append:
  "fast_varint_guard w \<Longrightarrow> varint_result (w @ x) = varint_result w"
  by (simp add: varint_result_def varint_split_append option.map_comp comp_def case_prod_unfold)

lemma fast_varint_append:
  assumes "fast_varint_guard w"
  shows "ReadVarint32FromArray (w @ x) = Inr (varint_result w) \<and> ReadVarint64FromArray (w @ x) = Inr (varint_result w)"
proof (cases "varint_split kMaxVarintBytes w")
  case None
  then have "10 \<le> length (w @ x)"
    using assms varint_split_short [of w 10]
    by (cases "length w \<le> 10") (auto simp: fast_varint_guard_def kMaxVarintBytes_def)
  moreover have "varint_split 10 (w @ x) = None"
    using varint_split_append [OF assms, of x] None by (simp add: kMaxVarintBytes_def)
  ultimately show ?thesis
    using None by (simp add: ReadVarint_overlong varint_result_def)
next
  case (Some p)
  then obtain g r where "p = (g, r)" "w = g @ r" "varint_group g" "length g \<le> 10"
    by (cases p) (auto simp: varint_split_Some kMaxVarintBytes_def)
  with Some show ?thesis
    by (simp add: ReadVarint32FromArray_group ReadVarint64FromArray_group varint_result_def)
qed

lemma byte_and_7F: "unat ((b :: byte) AND 0x7F) = unat b mod 128"
proof -
  have "b AND 0x7F = take_bit 7 b"
    by (intro bit_word_eqI) (auto simp: bit_simps)
  then have "unat (b AND 0x7F) = take_bit 7 (unat b)"
    by (simp only: unsigned_take_bit_eq)
  then show ?thesis
    by (simp add: take_bit_eq_mod)
qed

section \<open>Encoding and decoding\<close>

lemma varint_loop_group:
  fixes w :: "'a::len word"
  assumes "7 < LENGTH('a)"
  shows "varint_group (varint_loop w) \<and> varint_nat (varint_loop w) = unat w"
proof (induction w rule: varint_loop.induct)
  case (1 w)
  have and7F: "unat ((ucast w :: byte) AND 0x7F) = unat w mod 128"
  proof -
    have "(ucast w :: byte) AND 0x7F = take_bit 7 (ucast w)"
      by (intro bit_word_eqI) (auto simp: bit_simps)
    moreover have "unat (take_bit 7 (ucast w :: byte)) = unat w mod 2 ^ 7"
      by (simp only: unsigned_take_bit_eq unsigned_ucast_eq take_bit_take_bit)
        (simp add: take_bit_eq_mod)
    ultimately show ?thesis by simp
  qed
  show ?case
  proof (cases "w > 0x7F")
    case True
    have b: "((((ucast w :: byte) AND 0x7F) OR 0x80) AND 0x80) \<noteq> 0"
    proof
      assume *: "((((ucast w :: byte) AND 0x7F) OR 0x80) AND 0x80) = 0"
      have "bit ((((ucast w :: byte) AND 0x7F) OR 0x80) AND 0x80) 7"
        by (simp add: bit_simps)
      then show False unfolding * by simp
    qed
    have "unat (((ucast w :: byte) AND 0x7F) OR 0x80) = unat w mod 128 + 128"
    proof -
      have "unat ((ucast w :: byte) AND 0x7F) < 2 ^ 7"
        unfolding and7F by simp
      then have "((ucast w :: byte) AND 0x7F) OR push_bit 7 1 = ((ucast w :: byte) AND 0x7F) + push_bit 7 1"
        by (rule or_push_add)
      then have "((ucast w :: byte) AND 0x7F) OR 0x80 = of_nat (unat w mod 128 + 128)"
        by (simp add: push_bit_eq_mult and7F [symmetric])
      then have "unat (((ucast w :: byte) AND 0x7F) OR 0x80) = (unat w mod 128 + 128) mod 2 ^ 8"
        by (simp add: unat_of_nat del: of_nat_add)
      then show ?thesis
        by simp
    qed
    with True 1 b show ?thesis
      by (subst (1 2) varint_loop.simps) (auto simp: varint_group_Cons varint_group_def unat_shr mod_add_self2)
  next
    case False
    then have "unat w < 128"
      unfolding not_less word_le_nat_alt unat_7F [OF assms] by simp
    then show ?thesis
      by (subst (1 2) varint_loop.simps) (simp add: False varint_group_Cons bit7_unat and7F)
  qed
qed

text \<open>The encoding depends on the number only, not on the width it is kept at.\<close>

lemma varint_loop_width:
  fixes v :: "'a::len word" and w :: "'b::len word"
  assumes "7 < LENGTH('a)" "7 < LENGTH('b)" and "unat v = unat w"
  shows "varint_loop v = varint_loop w"
  using assms(3)
proof (induction v arbitrary: w rule: varint_loop.induct)
  case (1 v)
  have "(ucast v :: byte) = of_nat (unat v)"
    by simp
  also have "\<dots> = of_nat (unat w)"
    by (simp only: 1(2))
  finally have b: "(ucast v :: byte) = ucast w"
    by simp
  have "v > 0x7F \<longleftrightarrow> w > 0x7F"
    unfolding word_less_nat_alt unat_7F [OF assms(1)] unat_7F [OF assms(2)] 1(2) ..
  moreover have "varint_loop (drop_bit 7 v) = varint_loop (drop_bit 7 w)" if "v > 0x7F"
    using 1 that by (simp add: unat_shr)
  ultimately show ?case
    using b by (simp add: varint_loop.simps [of v] varint_loop.simps [of w])
qed

lemma unat_scast_nonneg: "0 \<le> sint (v :: int32) \<Longrightarrow> unat (scast v :: uint64) = unat v"
proof -
  assume nn: "0 \<le> sint v"
  have "uint (word_of_int (sint v) :: int32) = sint v"
    unfolding uint_word_of_int using nn sint_int32_bounds(2) [of v] by (intro mod_pos_pos_trivial) simp_all
  moreover have "word_of_int (sint v) = v"
    by simp
  ultimately have "unat v = nat (sint v)"
    by (metis nat_uint_eq)
  then show ?thesis
    using unat_int_to_size [OF nn] by (simp add: int_to_size_def)
qed

lemma length_varint_loop:
  fixes w :: "'a::len word"
  assumes "7 < LENGTH('a)" and "unat w < 2 ^ (7 * Suc k)" and "k = 0 \<or> 2 ^ (7 * k) \<le> unat w"
  shows "length (varint_loop w) = Suc k"
  unfolding varint_loop_positions [OF assms] by simp

lemmas length_varint32 = length_varint_loop [where 'a = 32, simplified]
lemmas length_varint64 = length_varint_loop [where 'a = 64, simplified]

lemma VarintSize32_length: "VarintSize32 v = length (varint_loop v)"
proof -
  have lt: "unat v < 2 ^ 32"
    using unsigned_less [of v] by simp
  consider "unat v < 2 ^ 7" | "2 ^ 7 \<le> unat v" "unat v < 2 ^ 14" | "2 ^ 14 \<le> unat v" "unat v < 2 ^ 21"
    | "2 ^ 21 \<le> unat v" "unat v < 2 ^ 28" | "2 ^ 28 \<le> unat v"
    by linarith
  then show ?thesis
    by cases (use lt length_varint32 [of v 0] length_varint32 [of v 1] length_varint32 [of v 2]
        length_varint32 [of v 3] length_varint32 [of v 4] in
        \<open>simp_all add: VarintSize32_def VarintSize32Fallback_def word_less_nat_alt\<close>)
qed

lemma VarintSize64_length: "VarintSize64 v = length (varint_loop v)"
proof -
  have "unat v < 2 ^ (7 * 10)"
    using unat_size_less [of v] by simp
  from varint_range [OF this]
  obtain k where k: "1 \<le> k" "k \<le> 10" "unat v < 2 ^ (7 * k)" "k = 1 \<or> 2 ^ (7 * (k - 1)) \<le> unat v"
    by auto
  have "length (varint_loop v) = k"
    using k length_varint64 [of v "k - 1"] by (simp add: algebra_simps)
  with k(1,2) show ?thesis
    by (cases k rule: upto_ten) (use k(3,4) in \<open>simp_all add: VarintSize64_def word_less_nat_alt\<close>)
qed

lemma length_varint_loop_max:
  "length (varint_loop (v :: uint64)) \<le> 10" "length (varint_loop (w :: uint32)) \<le> 5"
  by (simp_all add: VarintSize64_length [symmetric] VarintSize32_length [symmetric] VarintSize64_def
      VarintSize32_def VarintSize32Fallback_def)

lemma WriteVarint32SignExtended_loop:
  "WriteVarint32SignExtendedToArray v = varint_loop (scast v :: uint64)"
proof (cases "sint v < 0")
  case True
  then show ?thesis
    by (simp add: WriteVarint32SignExtendedToArray_def WriteVarint64ToArray_loop)
next
  case False
  then have "varint_loop v = varint_loop (scast v :: uint64)"
    by (intro varint_loop_width) (simp_all add: unat_scast_nonneg)
  with False show ?thesis
    by (simp add: WriteVarint32SignExtendedToArray_def WriteVarint32ToArray_loop)
qed

lemma VarintSize32SignExtended_length:
  "VarintSize32SignExtended v = length (varint_loop (scast v :: uint64))"
proof (cases "sint v < 0")
  case True
  have "2 ^ 63 \<le> unat (scast v :: uint64)"
    using unat_int_to_size_neg [OF True] sint_int32_bounds(1) [of v] True
    by (simp add: int_to_size_def nat_le_iff le_nat_iff)
  then have "VarintSize64 (scast v) = 10"
    by (simp add: VarintSize64_def word_less_nat_alt)
  with True show ?thesis
    by (simp add: VarintSize32SignExtended_def VarintSize64_length)
next
  case False
  then have "varint_loop v = varint_loop (scast v :: uint64)"
    by (intro varint_loop_width) (simp_all add: unat_scast_nonneg)
  with False show ?thesis
    by (simp add: VarintSize32SignExtended_def VarintSize32_length)
qed

text \<open>
  C32. The unrolled encoders, the hard-coded size search and the size functions compute the
  plain loop encoding and its length, for every 32-bit and 64-bit value, tags and sign-extended
  values included.
\<close>

theorem varint_encoders_agree:
  "WriteVarint32ToArray v = varint_loop v \<and>
   WriteTagToArray v = varint_loop v \<and>
   WriteVarint64ToArray w = varint_loop w \<and>
   WriteVarint32SignExtendedToArray v = varint_loop (scast v :: uint64) \<and>
   VarintSize32 v = length (varint_loop v) \<and>
   VarintSize64 w = length (varint_loop w) \<and>
   VarintSize32SignExtended v = length (varint_loop (scast v :: uint64))"
  by (intro conjI WriteVarint32ToArray_loop WriteTag_loop WriteVarint64ToArray_loop WriteVarint32SignExtended_loop
      VarintSize32_length VarintSize64_length VarintSize32SignExtended_length)

end
