(* ===== verification/Coded_Output.thy ===== *)
theory Coded_Output
  imports Zero_Copy_Output Varint
begin

text \<open>
  The encoder of protocol buffers, \<^verbatim>\<open>CodedOutputStream\<close> (\<^verbatim>\<open>google/protobuf/io/coded_stream.cc\<close> and
  \<^verbatim>\<open>coded_stream.h\<close>, protobuf 2.6.1), over any \<^verbatim>\<open>ZeroCopyOutputStream\<close>.
\<close>

unbundle bit_operations_syntax

section \<open>The state\<close>

text \<open>\<^verbatim>\<open>buffer_\<close> is an address in the memory of the stream below, or null.\<close>

record 's CodedOutputStream =
  co_output :: 's
  co_buffer :: "int option"
  co_buffer_size :: int
  co_total_bytes :: int
  co_had_error :: bool
  co_aliasing_enabled :: bool

definition CodedOutputStream_Advance :: "int \<Rightarrow> 's CodedOutputStream \<Rightarrow> 's CodedOutputStream" where
  "CodedOutputStream_Advance amount c =
     c\<lparr>co_buffer := map_option (\<lambda>p. p + amount) (co_buffer c), co_buffer_size := co_buffer_size c - amount\<rparr>"

definition CodedOutputStream_ByteCount :: "'s CodedOutputStream \<Rightarrow> int" where
  "CodedOutputStream_ByteCount c = co_total_bytes c - co_buffer_size c"

text \<open>\<^verbatim>\<open>total_bytes_\<close> is an \<^verbatim>\<open>int\<close>: adding past its range is undefined.\<close>

definition CodedOutputStream_Refresh ::
    "'s zero_copy_output \<Rightarrow> 's CodedOutputStream \<Rightarrow> (bool \<times> 's CodedOutputStream) result" where
  "CodedOutputStream_Refresh ops c =
     rbind (zo_Next ops (co_output c)) (\<lambda>(r, s).
       case r of
         Some (void_buffer, n) \<Rightarrow>
           rbind (ensure (co_total_bytes c + n \<le> INT_MAX) UndefinedBehaviour) (\<lambda>_.
             Inr (True, c\<lparr>co_output := s, co_buffer := Some void_buffer, co_buffer_size := n,
               co_total_bytes := co_total_bytes c + n\<rparr>))
       | None \<Rightarrow> Inr (False, c\<lparr>co_output := s, co_buffer := None, co_buffer_size := 0, co_had_error := True\<rparr>))"

definition CodedOutputStream_ctor :: "'s zero_copy_output \<Rightarrow> 's \<Rightarrow> 's CodedOutputStream result" where
  "CodedOutputStream_ctor ops output =
     rbind (CodedOutputStream_Refresh ops \<lparr>co_output = output, co_buffer = None, co_buffer_size = 0, co_total_bytes = 0,
         co_had_error = False, co_aliasing_enabled = False\<rparr>) (\<lambda>(_, c).
       Inr (c\<lparr>co_had_error := False\<rparr>))"

definition CodedOutputStream_dtor :: "'s zero_copy_output \<Rightarrow> 's CodedOutputStream \<Rightarrow> 's result" where
  "CodedOutputStream_dtor ops c =
     (if co_buffer_size c > 0 then zo_BackUp ops (co_buffer_size c) (co_output c) else Inr (co_output c))"

definition EnableAliasing :: "'s zero_copy_output \<Rightarrow> bool \<Rightarrow> 's CodedOutputStream \<Rightarrow> 's CodedOutputStream" where
  "EnableAliasing ops enabled c = c\<lparr>co_aliasing_enabled := enabled \<and> zo_AllowsAliasing ops (co_output c)\<rparr>"

section \<open>Raw output\<close>

text \<open>\<^verbatim>\<open>memcpy(buffer_, data, size)\<close>.\<close>

definition copy_to_buffer :: "'s zero_copy_output \<Rightarrow> byte list \<Rightarrow> 's CodedOutputStream \<Rightarrow> 's CodedOutputStream result" where
  "copy_to_buffer ops data c =
     (if data = [] then Inr c
      else case co_buffer c of
        None \<Rightarrow> Inl NullDeref
      | Some p \<Rightarrow> rbind (zo_Store ops p data (co_output c)) (\<lambda>s. Inr (c\<lparr>co_output := s\<rparr>)))"

text \<open>\<^verbatim>\<open>Next\<close> may return empty buffers, so nothing in the loops themselves bounds their number of rounds.\<close>

partial_function (option) Skip_out_loop ::
    "'s zero_copy_output \<Rightarrow> int \<Rightarrow> 's CodedOutputStream \<Rightarrow> (bool \<times> 's CodedOutputStream) result option" where
  "Skip_out_loop ops count c =
     (if count > co_buffer_size c then
        case CodedOutputStream_Refresh ops c of
          Inl e \<Rightarrow> Some (Inl e)
        | Inr (b, c') \<Rightarrow> if b then Skip_out_loop ops (count - co_buffer_size c) c' else Some (Inr (False, c'))
      else Some (Inr (True, CodedOutputStream_Advance count c)))"

definition CodedOutputStream_Skip ::
    "'s zero_copy_output \<Rightarrow> int \<Rightarrow> 's CodedOutputStream \<Rightarrow> (bool \<times> 's CodedOutputStream) result" where
  "CodedOutputStream_Skip ops count c =
     (if count < 0 then Inr (False, c)
      else case Skip_out_loop ops count c of None \<Rightarrow> Inl NonTermination | Some r \<Rightarrow> r)"

definition GetDirectBufferPointer_out ::
    "'s zero_copy_output \<Rightarrow> 's CodedOutputStream \<Rightarrow> ((int option \<times> int) option \<times> 's CodedOutputStream) result" where
  "GetDirectBufferPointer_out ops c =
     (if co_buffer_size c = 0 then
        rbind (CodedOutputStream_Refresh ops c) (\<lambda>(b, c).
          Inr (if b then Some (co_buffer c, co_buffer_size c) else None, c))
      else Inr (Some (co_buffer c, co_buffer_size c), c))"

definition GetDirectBufferForNBytesAndAdvance :: "int \<Rightarrow> 's CodedOutputStream \<Rightarrow> int option \<times> 's CodedOutputStream" where
  "GetDirectBufferForNBytesAndAdvance n c =
     (if co_buffer_size c < n then (None, c) else (co_buffer c, CodedOutputStream_Advance n c))"

partial_function (option) WriteRaw_loop ::
    "'s zero_copy_output \<Rightarrow> byte list \<Rightarrow> 's CodedOutputStream \<Rightarrow> 's CodedOutputStream result option" where
  "WriteRaw_loop ops data c =
     (if co_buffer_size c < int (length data) then
        case copy_to_buffer ops (take (nat (co_buffer_size c)) data) c of
          Inl e \<Rightarrow> Some (Inl e)
        | Inr c' \<Rightarrow>
            (case CodedOutputStream_Refresh ops c' of
               Inl e \<Rightarrow> Some (Inl e)
             | Inr (b, c'') \<Rightarrow>
                 if b then WriteRaw_loop ops (drop (nat (co_buffer_size c)) data) c'' else Some (Inr c''))
      else Some (rbind (copy_to_buffer ops data c) (\<lambda>c. Inr (CodedOutputStream_Advance (int (length data)) c))))"

definition WriteRaw :: "'s zero_copy_output \<Rightarrow> byte list \<Rightarrow> 's CodedOutputStream \<Rightarrow> 's CodedOutputStream result" where
  "WriteRaw ops data c = (case WriteRaw_loop ops data c of None \<Rightarrow> Inl NonTermination | Some r \<Rightarrow> r)"

definition WriteAliasedRaw ::
    "'s zero_copy_output \<Rightarrow> byte list \<Rightarrow> 's CodedOutputStream \<Rightarrow> 's CodedOutputStream result" where
  "WriteAliasedRaw ops data c =
     (if int (length data) < co_buffer_size c then WriteRaw ops data c
      else
        rbind (if co_buffer_size c > 0 then
                 rbind (zo_BackUp ops (co_buffer_size c) (co_output c)) (\<lambda>s.
                   Inr (c\<lparr>co_output := s, co_total_bytes := co_total_bytes c - co_buffer_size c,
                     co_buffer := None, co_buffer_size := 0\<rparr>))
               else Inr c) (\<lambda>c.
        rbind (ensure (co_total_bytes c + int (length data) \<le> INT_MAX) UndefinedBehaviour) (\<lambda>_.
        rbind (zo_WriteAliasedRaw ops data (co_output c)) (\<lambda>(b, s).
          Inr (c\<lparr>co_output := s, co_total_bytes := co_total_bytes c + int (length data),
            co_had_error := co_had_error c \<or> \<not> b\<rparr>)))))"

definition WriteRawMaybeAliased ::
    "'s zero_copy_output \<Rightarrow> byte list \<Rightarrow> 's CodedOutputStream \<Rightarrow> 's CodedOutputStream result" where
  "WriteRawMaybeAliased ops data c =
     (if co_aliasing_enabled c then WriteAliasedRaw ops data c else WriteRaw ops data c)"

definition WriteString :: "'s zero_copy_output \<Rightarrow> byte list \<Rightarrow> 's CodedOutputStream \<Rightarrow> 's CodedOutputStream result" where
  "WriteString ops str c = WriteRaw ops str c"

text \<open>The encoders that write through a pointer give the bytes they leave behind it.\<close>

definition WriteRawToArray :: "byte list \<Rightarrow> byte list" where
  "WriteRawToArray data = data"

definition WriteStringToArray :: "byte list \<Rightarrow> byte list" where
  "WriteStringToArray str = WriteRawToArray str"

definition WriteStringWithSizeToArray :: "byte list \<Rightarrow> byte list result" where
  "WriteStringWithSizeToArray str =
     rbind (ensure (length str \<le> 2 ^ 32 - 1) FatalCheck) (\<lambda>_.
       Inr (WriteVarint32ToArray (of_nat (length str)) @ WriteStringToArray str))"

section \<open>Integers\<close>

definition WriteLittleEndian32ToArray :: "uint32 \<Rightarrow> byte list" where
  "WriteLittleEndian32ToArray v = [ucast v, ucast (drop_bit 8 v), ucast (drop_bit 16 v), ucast (drop_bit 24 v)]"

definition WriteLittleEndian64ToArray :: "uint64 \<Rightarrow> byte list" where
  "WriteLittleEndian64ToArray v =
     (let part0 = ucast v :: uint32; part1 = ucast (drop_bit 32 v) :: uint32 in
      [ucast part0, ucast (drop_bit 8 part0), ucast (drop_bit 16 part0), ucast (drop_bit 24 part0),
       ucast part1, ucast (drop_bit 8 part1), ucast (drop_bit 16 part1), ucast (drop_bit 24 part1)])"

text \<open>Both fast paths store an encoding at \<^verbatim>\<open>buffer_\<close> and advance over it.\<close>

definition write_direct :: "'s zero_copy_output \<Rightarrow> byte list \<Rightarrow> 's CodedOutputStream \<Rightarrow> 's CodedOutputStream result" where
  "write_direct ops data c =
     rbind (copy_to_buffer ops data c) (\<lambda>c. Inr (CodedOutputStream_Advance (int (length data)) c))"

definition WriteLittleEndian32 :: "'s zero_copy_output \<Rightarrow> uint32 \<Rightarrow> 's CodedOutputStream \<Rightarrow> 's CodedOutputStream result" where
  "WriteLittleEndian32 ops v c =
     (let use_fast = co_buffer_size c \<ge> 4; bytes = WriteLittleEndian32ToArray v in
      if use_fast then write_direct ops bytes c else WriteRaw ops bytes c)"

definition WriteLittleEndian64 :: "'s zero_copy_output \<Rightarrow> uint64 \<Rightarrow> 's CodedOutputStream \<Rightarrow> 's CodedOutputStream result" where
  "WriteLittleEndian64 ops v c =
     (let use_fast = co_buffer_size c \<ge> 8; bytes = WriteLittleEndian64ToArray v in
      if use_fast then write_direct ops bytes c else WriteRaw ops bytes c)"

definition WriteVarint32 :: "'s zero_copy_output \<Rightarrow> uint32 \<Rightarrow> 's CodedOutputStream \<Rightarrow> 's CodedOutputStream result" where
  "WriteVarint32 ops v c =
     (if co_buffer_size c \<ge> int kMaxVarint32Bytes then write_direct ops (WriteVarint32FallbackToArrayInline v) c
      else WriteRaw ops (varint_loop v) c)"

definition WriteVarint64 :: "'s zero_copy_output \<Rightarrow> uint64 \<Rightarrow> 's CodedOutputStream \<Rightarrow> 's CodedOutputStream result" where
  "WriteVarint64 ops v c =
     (if co_buffer_size c \<ge> int kMaxVarintBytes then write_direct ops (WriteVarint64ToArrayInline v) c
      else WriteRaw ops (varint_loop v) c)"

definition WriteVarint32SignExtended ::
    "'s zero_copy_output \<Rightarrow> int32 \<Rightarrow> 's CodedOutputStream \<Rightarrow> 's CodedOutputStream result" where
  "WriteVarint32SignExtended ops v c =
     (if sint v < 0 then WriteVarint64 ops (scast v) c else WriteVarint32 ops v c)"

definition WriteTag :: "'s zero_copy_output \<Rightarrow> uint32 \<Rightarrow> 's CodedOutputStream \<Rightarrow> 's CodedOutputStream result" where
  "WriteTag ops v c = WriteVarint32 ops v c"

section \<open>Well-formed writers\<close>

text \<open>
  The unwritten part of the buffer is the end of what the stream below has handed out;
  \<open>start\<close> is what that stream held before the writer was made.
\<close>

definition writer_ok ::
    "('s \<Rightarrow> bool) \<Rightarrow> ('s \<Rightarrow> byte list) \<Rightarrow> ('s \<Rightarrow> int \<Rightarrow> int \<Rightarrow> bool) \<Rightarrow> nat \<Rightarrow> 's CodedOutputStream \<Rightarrow> bool" where
  "writer_ok ok out held start c \<longleftrightarrow> ok (co_output c) \<and> 0 \<le> co_buffer_size c \<and>
     (0 < co_buffer_size c \<longrightarrow> (\<exists>p n b. held (co_output c) p n \<and> co_buffer c = Some b \<and> p \<le> b \<and>
        b + co_buffer_size c = p + n)) \<and>
     int start + co_buffer_size c \<le> int (length (out (co_output c))) \<and>
     co_total_bytes c = int (length (out (co_output c))) - int start \<and> \<not> co_aliasing_enabled c"

definition written :: "('s \<Rightarrow> byte list) \<Rightarrow> 's CodedOutputStream \<Rightarrow> byte list" where
  "written out c = take (length (out (co_output c)) - nat (co_buffer_size c)) (out (co_output c))"

text \<open>
  Writing \<open>data\<close>: all of it, or a prefix that fills the stream to its capacity \<open>cap\<close>; the error flag is
  up exactly if it was before or something is missing.
\<close>

definition appends ::
    "('s \<Rightarrow> bool) \<Rightarrow> ('s \<Rightarrow> byte list) \<Rightarrow> ('s \<Rightarrow> int \<Rightarrow> int \<Rightarrow> bool) \<Rightarrow> ('s \<Rightarrow> nat) \<Rightarrow> nat \<Rightarrow> byte list \<Rightarrow>
      's CodedOutputStream \<Rightarrow> 's CodedOutputStream \<Rightarrow> bool" where
  "appends ok out held cap start data c c' \<longleftrightarrow> writer_ok ok out held start c' \<and> cap (co_output c') = cap (co_output c) \<and>
     (\<exists>k\<le>length data. written out c' = written out c @ take k data \<and>
        co_had_error c' = (co_had_error c \<or> k < length data) \<and>
        (k < length data \<longrightarrow> cap (co_output c) \<le> length (written out c')))"

lemma appends_ok: "appends ok out held cap start data c c' \<Longrightarrow> writer_ok ok out held start c'"
  by (simp add: appends_def)

lemma appends_complete:
  assumes "appends ok out held cap start data c c'"
  shows "\<not> co_had_error c' \<Longrightarrow> written out c' = written out c @ data \<and> \<not> co_had_error c"
    and "length (written out c) + length data \<le> cap (co_output c) \<Longrightarrow> co_had_error c' = co_had_error c"
  using assms by (auto simp: appends_def)

lemma ByteCount_written:
  "writer_ok ok out held start c \<Longrightarrow> CodedOutputStream_ByteCount c = int (length (written out c)) - int start"
  by (auto simp: writer_ok_def CodedOutputStream_ByteCount_def written_def)

lemma Refresh_buffer_size:
  "CodedOutputStream_Refresh ops (c\<lparr>co_buffer_size := n\<rparr>) = CodedOutputStream_Refresh ops c"
  unfolding CodedOutputStream_Refresh_def
  by (cases "zo_Next ops (co_output c)") (simp_all split: option.split prod.split)

context zero_copy_sink
begin

lemma Refresh_law:
  assumes c: "writer_ok ok out held start c" and data: "co_buffer_size c = 0"
  shows "\<exists>b c'. CodedOutputStream_Refresh ops c = Inr (b, c') \<and> writer_ok ok out held start c' \<and>
    written out c' = written out c \<and> co_had_error c' = (co_had_error c \<or> \<not> b) \<and>
    cap (co_output c') = cap (co_output c) \<and> (\<not> b \<longrightarrow> cap (co_output c) \<le> length (written out c)) \<and>
    (b \<longrightarrow> 0 < co_buffer_size c' \<or> co_buffer_size c' = 0 \<and> gap (co_output c') < gap (co_output c))"
proof -
  have ok: "ok (co_output c)"
    using c by (simp add: writer_ok_def)
  obtain r s where n: "zo_Next ops (co_output c) = Inr (r, s)" "ok s \<and> cap s = cap (co_output c)"
    "case r of None \<Rightarrow> out s = out (co_output c) \<and> cap (co_output c) \<le> length (out (co_output c))
       | Some (p, n) \<Rightarrow> 0 \<le> n \<and> (\<exists>fresh. out s = out (co_output c) @ fresh \<and> int (length fresh) = n) \<and>
           held s p n \<and> (n = 0 \<longrightarrow> gap s < gap (co_output c))"
    using next_law [OF ok] by blast
  show ?thesis
  proof (cases r)
    case None
    then show ?thesis
      using n c data by (intro exI [of _ False]) (simp add: CodedOutputStream_Refresh_def writer_ok_def written_def)
  next
    case (Some pn)
    obtain p m where pn: "pn = (p, m)"
      by fastforce
    obtain fresh where f: "out s = out (co_output c) @ fresh" "int (length fresh) = m" "held s p m"
      "m = 0 \<longrightarrow> gap s < gap (co_output c)"
      using n(3) Some pn by auto
    have "co_total_bytes c + m \<le> INT_MAX"
      using size_law [of s] n(2) f(1,2) c by (simp add: writer_ok_def)
    moreover have "held s p m \<Longrightarrow> \<exists>p' n'. held s p' n' \<and> p' \<le> p \<and> p + m = p' + n'"
      by blast
    ultimately show ?thesis
      using n(1,2) c data f
      by (intro exI [of _ True]) (auto simp: Some pn CodedOutputStream_Refresh_def writer_ok_def written_def)
  qed
qed

lemma overwrite_tail:
  "k = length (xs :: byte list) - m \<Longrightarrow> length data \<le> m \<Longrightarrow> m \<le> length xs \<Longrightarrow>
     take (length (overwrite xs k data) - (m - length data)) (overwrite xs k data) = take k xs @ data"
  by (simp add: overwrite_def)

lemma write_direct_law:
  assumes c: "writer_ok ok out held start c" and fit: "int (length data) \<le> co_buffer_size c"
  shows "\<exists>c'. write_direct ops data c = Inr c' \<and> writer_ok ok out held start c' \<and>
    written out c' = written out c @ data \<and> co_had_error c' = co_had_error c \<and>
    co_buffer_size c' = co_buffer_size c - int (length data) \<and> gap (co_output c') = gap (co_output c) \<and>
    cap (co_output c') = cap (co_output c)"
proof (cases "data = []")
  case True
  then show ?thesis
    using c by (auto simp: write_direct_def copy_to_buffer_def CodedOutputStream_Advance_def writer_ok_def written_def)
next
  case False
  then have pos: "0 < co_buffer_size c"
    using fit by (cases data) auto
  with c obtain p n b where h: "held (co_output c) p n" "co_buffer c = Some b" "p \<le> b" "b + co_buffer_size c = p + n"
    and ok: "ok (co_output c)"
    by (auto simp: writer_ok_def)
  obtain s where s: "zo_Store ops b data (co_output c) = Inr s" "ok s" "held s p n" "gap s = gap (co_output c) \<and> cap s = cap (co_output c)"
    "out s = overwrite (out (co_output c)) (length (out (co_output c)) - nat (p + n - b)) data"
    using store_law [OF ok h(1,3), of data] fit h(4) by auto
  let ?o = "out (co_output c)" and ?m = "nat (co_buffer_size c)"
  have m: "nat (p + n - b) = ?m" "length data \<le> ?m" "?m \<le> length ?o"
    using h(4) fit c by (auto simp: writer_ok_def)
  have len: "length (out s) = length ?o"
    using m by (simp add: s(5))
  have w: "take (length (out s) - (?m - length data)) (out s) = take (length ?o - ?m) ?o @ data"
    using overwrite_tail [OF refl m(2,3)] m(1) by (simp add: s(5))
  let ?c = "CodedOutputStream_Advance (int (length data)) (c\<lparr>co_output := s\<rparr>)"
  have "write_direct ops data c = Inr ?c"
    using False h(2) s(1) by (simp add: write_direct_def copy_to_buffer_def)
  moreover have "\<exists>p' n' b'. held s p' n' \<and> co_buffer ?c = Some b' \<and> p' \<le> b' \<and> b' + co_buffer_size ?c = p' + n'"
    by (rule exI [of _ p], rule exI [of _ n], rule exI [of _ "b + int (length data)"])
      (use h s(3) in \<open>simp add: CodedOutputStream_Advance_def\<close>)
  then have "writer_ok ok out held start ?c"
    using c s(2) len fit by (simp add: writer_ok_def CodedOutputStream_Advance_def)
  moreover have "written out ?c = written out c @ data"
    using w fit by (simp add: written_def CodedOutputStream_Advance_def nat_diff_distrib)
  ultimately show ?thesis
    using s(4) by (simp add: CodedOutputStream_Advance_def)
qed

lemma copy_all_law:
  assumes c: "writer_ok ok out held start c" and data: "int (length data) = co_buffer_size c"
  shows "\<exists>c'. copy_to_buffer ops data c = Inr c' \<and> writer_ok ok out held start (c'\<lparr>co_buffer_size := 0\<rparr>) \<and>
    written out (c'\<lparr>co_buffer_size := 0\<rparr>) = written out c @ data \<and> co_had_error c' = co_had_error c \<and>
    gap (co_output c') = gap (co_output c) \<and> cap (co_output c') = cap (co_output c)"
proof -
  obtain c' where c': "write_direct ops data c = Inr c'" "writer_ok ok out held start c'"
    "written out c' = written out c @ data" "co_had_error c' = co_had_error c"
    "co_buffer_size c' = 0" "gap (co_output c') = gap (co_output c) \<and> cap (co_output c') = cap (co_output c)"
    using write_direct_law [OF c, of data] data by auto
  obtain c1 where c1: "copy_to_buffer ops data c = Inr c1" "c' = CodedOutputStream_Advance (int (length data)) c1"
    using c'(1) by (auto simp: write_direct_def rbind_eq_Inr)
  then show ?thesis
    using c' by (simp add: CodedOutputStream_Advance_def writer_ok_def written_def)
qed

lemma Refresh_full_law:
  assumes c: "writer_ok ok out held start c" and data: "int (length data) = co_buffer_size c"
  shows "\<exists>c1 b c'. copy_to_buffer ops data c = Inr c1 \<and> CodedOutputStream_Refresh ops c1 = Inr (b, c') \<and>
    writer_ok ok out held start c' \<and> written out c' = written out c @ data \<and>
    co_had_error c' = (co_had_error c \<or> \<not> b) \<and>
    cap (co_output c') = cap (co_output c) \<and> (\<not> b \<longrightarrow> cap (co_output c) \<le> length (written out c')) \<and>
    (b \<longrightarrow> 0 < co_buffer_size c' \<or> co_buffer_size c' = 0 \<and> gap (co_output c') < gap (co_output c))"
proof -
  obtain c1 where c1: "copy_to_buffer ops data c = Inr c1" "writer_ok ok out held start (c1\<lparr>co_buffer_size := 0\<rparr>)"
    "written out (c1\<lparr>co_buffer_size := 0\<rparr>) = written out c @ data" "co_had_error c1 = co_had_error c"
    "gap (co_output c1) = gap (co_output c) \<and> cap (co_output c1) = cap (co_output c)"
    using copy_all_law [OF c data] by blast
  obtain b c' where "CodedOutputStream_Refresh ops c1 = Inr (b, c')" "writer_ok ok out held start c'"
    "written out c' = written out c @ data" "co_had_error c' = (co_had_error c \<or> \<not> b)"
    "cap (co_output c') = cap (co_output c)" "\<not> b \<longrightarrow> cap (co_output c) \<le> length (written out c @ data)"
    "b \<longrightarrow> 0 < co_buffer_size c' \<or> co_buffer_size c' = 0 \<and> gap (co_output c') < gap (co_output c)"
    using Refresh_law [OF c1(2)] c1(3-5) by (auto simp: Refresh_buffer_size)
  with c1(1) show ?thesis
    by metis
qed

lemma WriteRaw_law:
  assumes "writer_ok ok out held start c"
  shows "\<exists>c'. WriteRaw ops data c = Inr c' \<and> appends ok out held cap start data c c'"
  using assms
proof (induction "(length data + (if co_buffer_size c = 0 then 1 else 0), gap (co_output c))" arbitrary: data c
    rule: wf_induct_rule [OF wf_lex_prod [OF wf_less wf_less]])
  case 1
  let ?n = "nat (co_buffer_size c)"
  have nonneg: "0 \<le> co_buffer_size c"
    using 1(2) by (simp add: writer_ok_def)
  show ?case
  proof (cases "co_buffer_size c < int (length data)")
    case False
    then obtain c' where "write_direct ops data c = Inr c'" "writer_ok ok out held start c'"
      "written out c' = written out c @ data" "co_had_error c' = co_had_error c" "cap (co_output c') = cap (co_output c)"
      using write_direct_law [OF 1(2), of data] by auto
    with False show ?thesis
      by (auto simp: WriteRaw_def WriteRaw_loop.simps [of ops data c] write_direct_def appends_def intro!: exI [of _ "length data"])
  next
    case True
    have len: "int (length (take ?n data)) = co_buffer_size c" "?n \<le> length data" "?n < length data"
      using True nonneg by simp_all
    obtain c1 b c2 where r: "copy_to_buffer ops (take ?n data) c = Inr c1" "CodedOutputStream_Refresh ops c1 = Inr (b, c2)"
      "writer_ok ok out held start c2" "written out c2 = written out c @ take ?n data"
      "co_had_error c2 = (co_had_error c \<or> \<not> b)"
      "cap (co_output c2) = cap (co_output c)" "\<not> b \<longrightarrow> cap (co_output c) \<le> length (written out c2)"
      "b \<longrightarrow> 0 < co_buffer_size c2 \<or> co_buffer_size c2 = 0 \<and> gap (co_output c2) < gap (co_output c)"
      using Refresh_full_law [OF 1(2) len(1)] by blast
    show ?thesis
    proof (cases b)
      case False
      with True r len show ?thesis
        by (auto simp: WriteRaw_def WriteRaw_loop.simps [of ops data c] appends_def intro!: exI [of _ ?n])
    next
      case b: True
      have "WriteRaw ops data c = WriteRaw ops (drop ?n data) c2"
        using True r b by (simp add: WriteRaw_def WriteRaw_loop.simps [of ops data c])
      moreover have "\<exists>c'. WriteRaw ops (drop ?n data) c2 = Inr c' \<and> appends ok out held cap start (drop ?n data) c2 c'"
        using True nonneg r(8) b by (intro 1(1) r(3)) auto
      ultimately obtain c' where c': "WriteRaw ops data c = Inr c'" "appends ok out held cap start (drop ?n data) c2 c'"
        by auto
      then obtain k where k: "k \<le> length data - ?n" "written out c' = written out c2 @ take k (drop ?n data)"
        "co_had_error c' = (co_had_error c2 \<or> k < length data - ?n)"
        "k < length data - ?n \<longrightarrow> cap (co_output c2) \<le> length (written out c')" "cap (co_output c') = cap (co_output c2)"
        unfolding appends_def length_drop by blast
      have "written out c' = written out c @ take (?n + k) data"
        using k(2) r(4) by (simp add: take_add)
      then have "appends ok out held cap start data c c'"
        unfolding appends_def using k(1,3-5) r(5,6) b len appends_ok [OF c'(2)] by (intro conjI exI [of _ "?n + k"]) auto
      with c'(1) show ?thesis by blast
    qed
  qed
qed

lemma fast_or_raw_law:
  assumes c: "writer_ok ok out held start c" and "int (length data) \<le> n"
    and "r = (if co_buffer_size c \<ge> n then write_direct ops data c else WriteRaw ops data c)"
  shows "\<exists>c'. r = Inr c' \<and> appends ok out held cap start data c c'"
proof (cases "co_buffer_size c \<ge> n")
  case True
  then show ?thesis
    using write_direct_law [OF c, of data] assms(2,3) by (auto simp: appends_def intro!: exI [of _ "length data"])
next
  case False
  then show ?thesis
    using WriteRaw_law [OF c] assms(3) by simp
qed

lemma ctor_law:
  assumes "ok s"
  shows "\<exists>c. CodedOutputStream_ctor ops s = Inr c \<and> writer_ok ok out held (length (out s)) c \<and> written out c = out s \<and>
    \<not> co_had_error c \<and> cap (co_output c) = cap s"
proof -
  let ?c = "\<lparr>co_output = s, co_buffer = None, co_buffer_size = 0, co_total_bytes = 0,
      co_had_error = False, co_aliasing_enabled = False\<rparr>"
  have "writer_ok ok out held (length (out s)) ?c" "written out ?c = out s"
    using assms by (simp_all add: writer_ok_def written_def)
  then obtain b c where c: "CodedOutputStream_Refresh ops ?c = Inr (b, c)" "writer_ok ok out held (length (out s)) c"
    "written out c = out s" "cap (co_output c) = cap s"
    using Refresh_law [of "length (out s)" ?c] by auto
  from c(2-4) have "writer_ok ok out held (length (out s)) (c\<lparr>co_had_error := False\<rparr>)"
    "written out (c\<lparr>co_had_error := False\<rparr>) = out s" "cap (co_output (c\<lparr>co_had_error := False\<rparr>)) = cap s"
    by (simp_all add: writer_ok_def written_def)
  with c(1) show ?thesis
    by (intro exI [of _ "c\<lparr>co_had_error := False\<rparr>"]) (simp add: CodedOutputStream_ctor_def)
qed

lemma dtor_law:
  assumes "writer_ok ok out held start c"
  shows "\<exists>s. CodedOutputStream_dtor ops c = Inr s \<and> ok s \<and> out s = written out c \<and> cap s = cap (co_output c)"
proof (cases "co_buffer_size c > 0")
  case True
  with assms obtain p n b where h: "held (co_output c) p n" "p \<le> b" "b + co_buffer_size c = p + n" "ok (co_output c)"
    by (auto simp: writer_ok_def)
  then have "co_buffer_size c \<le> n"
    by simp
  with True h show ?thesis
    using backup_law [OF h(4,1) True] by (auto simp: CodedOutputStream_dtor_def written_def)
next
  case False
  then show ?thesis
    using assms by (simp add: CodedOutputStream_dtor_def written_def writer_ok_def)
qed

lemma Advance_law:
  assumes c: "writer_ok ok out held start c" and n: "0 \<le> n" "n \<le> co_buffer_size c"
  shows "writer_ok ok out held start (CodedOutputStream_Advance n c)"
    and "\<exists>junk. int (length junk) = n \<and> written out (CodedOutputStream_Advance n c) = written out c @ junk"
proof -
  let ?c = "CodedOutputStream_Advance n c" and ?o = "out (co_output c)"
  have "\<exists>p' n' b'. held (co_output c) p' n' \<and> co_buffer ?c = Some b' \<and> p' \<le> b' \<and> b' + co_buffer_size ?c = p' + n'"
    if pos: "0 < co_buffer_size ?c"
  proof -
    obtain p m b where h: "held (co_output c) p m" "co_buffer c = Some b" "p \<le> b" "b + co_buffer_size c = p + m"
      using c pos n by (auto simp: writer_ok_def CodedOutputStream_Advance_def)
    show ?thesis
      by (rule exI [of _ p], rule exI [of _ m], rule exI [of _ "b + n"])
        (use h n in \<open>simp add: CodedOutputStream_Advance_def\<close>)
  qed
  then show "writer_ok ok out held start ?c"
    using c n by (simp add: writer_ok_def CodedOutputStream_Advance_def)
  let ?k = "length ?o - nat (co_buffer_size c)"
  have "length ?o - nat (co_buffer_size c - n) = ?k + nat n" "int (min (length ?o - ?k) (nat n)) = n"
    using c n by (auto simp: writer_ok_def)
  then show "\<exists>junk. int (length junk) = n \<and> written out ?c = written out c @ junk"
    using n by (intro exI [of _ "take (nat n) (drop ?k ?o)"])
      (simp add: written_def CodedOutputStream_Advance_def take_add)
qed

lemma GetDirectBuffer_write:
  assumes c: "writer_ok ok out held start c" and "data \<noteq> []" and "int (length data) \<le> co_buffer_size c"
  shows "\<exists>q c'. GetDirectBufferForNBytesAndAdvance (int (length data)) c = (Some q, c') \<and>
    rbind (zo_Store ops q data (co_output c')) (\<lambda>s. Inr (c'\<lparr>co_output := s\<rparr>)) = write_direct ops data c"
proof -
  have "0 < co_buffer_size c"
    using assms(2,3) by (cases data) auto
  then obtain b where b: "co_buffer c = Some b"
    using c by (auto simp: writer_ok_def)
  have "rbind (zo_Store ops b data (co_output c)) (\<lambda>s. Inr ((CodedOutputStream_Advance (int (length data)) c)\<lparr>co_output := s\<rparr>)) =
      write_direct ops data c"
    using assms(2) b by (cases "zo_Store ops b data (co_output c)")
      (simp_all add: write_direct_def copy_to_buffer_def CodedOutputStream_Advance_def)
  then show ?thesis
    using b assms(3) by (simp add: GetDirectBufferForNBytesAndAdvance_def CodedOutputStream_Advance_def)
qed

lemma Skip_out_law:
  assumes "writer_ok ok out held start c" and "0 \<le> n"
  shows "\<exists>b c'. CodedOutputStream_Skip ops n c = Inr (b, c') \<and> writer_ok ok out held start c' \<and>
    (\<exists>junk. written out c' = written out c @ junk \<and> (b \<longrightarrow> int (length junk) = n))"
  using assms
proof (induction "(nat n + (if co_buffer_size c = 0 then 1 else 0), gap (co_output c))" arbitrary: n c
    rule: wf_induct_rule [OF wf_lex_prod [OF wf_less wf_less]])
  case 1
  have nonneg: "0 \<le> co_buffer_size c"
    using 1(2) by (simp add: writer_ok_def)
  show ?case
  proof (cases "n > co_buffer_size c")
    case False
    then show ?thesis
      using Advance_law [OF 1(2,3)] 1(3)
      by (intro exI [of _ True]) (auto simp: CodedOutputStream_Skip_def Skip_out_loop.simps [of ops n c])
  next
    case True
    let ?c = "CodedOutputStream_Advance (co_buffer_size c) c"
    have adv: "writer_ok ok out held start ?c" "co_buffer_size ?c = 0"
      using Advance_law(1) [OF 1(2) nonneg] by (simp_all add: CodedOutputStream_Advance_def)
    obtain junk where junk: "int (length junk) = co_buffer_size c" "written out ?c = written out c @ junk"
      using Advance_law(2) [OF 1(2) nonneg] by auto
    have "CodedOutputStream_Refresh ops ?c = CodedOutputStream_Refresh ops c"
      unfolding CodedOutputStream_Refresh_def
      by (cases "zo_Next ops (co_output c)") (simp_all add: CodedOutputStream_Advance_def split: option.split prod.split)
    then obtain b c2 where r: "CodedOutputStream_Refresh ops c = Inr (b, c2)" "writer_ok ok out held start c2"
      "written out c2 = written out c @ junk"
      "b \<longrightarrow> 0 < co_buffer_size c2 \<or> co_buffer_size c2 = 0 \<and> gap (co_output c2) < gap (co_output c)"
      using Refresh_law [OF adv] junk by (auto simp: CodedOutputStream_Advance_def)
    show ?thesis
    proof (cases b)
      case False
      then show ?thesis
        using True 1(3) r by (intro exI [of _ False]) (auto simp: CodedOutputStream_Skip_def Skip_out_loop.simps [of ops n c])
    next
      case b: True
      have "CodedOutputStream_Skip ops n c = CodedOutputStream_Skip ops (n - co_buffer_size c) c2"
        using True r(1) b 1(3) by (simp add: CodedOutputStream_Skip_def Skip_out_loop.simps [of ops n c])
      moreover have "\<exists>b c'. CodedOutputStream_Skip ops (n - co_buffer_size c) c2 = Inr (b, c') \<and> writer_ok ok out held start c' \<and>
          (\<exists>junk. written out c' = written out c2 @ junk \<and> (b \<longrightarrow> int (length junk) = n - co_buffer_size c))"
        using True nonneg r(4) b by (intro 1(1) r(2)) auto
      ultimately show ?thesis
        using junk(1) r(3) by fastforce
    qed
  qed
qed

end

end
