(* ===== verification/Zero_Copy_Input.thy ===== *)
theory Zero_Copy_Input
  imports Airnet_Prelude "HOL-Library.Sublist"
begin

text \<open>
  The block-wise input streams of protocol buffers
  (\<^verbatim>\<open>google/protobuf/io/zero_copy_stream_impl_lite.cc\<close> and \<^verbatim>\<open>zero_copy_stream_impl.cc\<close>,
  protobuf 2.6.1). The abstract class \<^verbatim>\<open>ZeroCopyInputStream\<close> is a record of operations; its
  documented contract is the locale \<open>zero_copy_source\<close>; the array stream, the limiting stream and the
  concatenating stream are shown to satisfy it.

  Sizes and positions are \<^verbatim>\<open>int\<close> and \<^verbatim>\<open>int64\<close> in the source. They are unbounded integers here:
  every stream keeps them between zero and the size of the data it was made for.
\<close>

section \<open>The interface\<close>

record 's zero_copy_input =
  zi_Next :: "'s \<Rightarrow> (byte list option \<times> 's) result"
  zi_BackUp :: "int \<Rightarrow> 's \<Rightarrow> 's result"
  zi_Skip :: "int \<Rightarrow> 's \<Rightarrow> (bool \<times> 's) result"
  zi_ByteCount :: "'s \<Rightarrow> int"

text \<open>
  The contract in the comments of \<^verbatim>\<open>zero_copy_stream.h\<close>: \<open>bytes\<close> is what the stream has still to
  deliver, \<open>lastb\<close> the buffer that may be backed up over, \<open>gap\<close> bounds the empty buffers that
  \<^verbatim>\<open>Next\<close> may return before a non-empty one.
\<close>

locale zero_copy_source =
  fixes ops :: "'s zero_copy_input"
    and ok :: "'s \<Rightarrow> bool"
    and bytes :: "'s \<Rightarrow> byte list"
    and lastb :: "'s \<Rightarrow> byte list"
    and gap :: "'s \<Rightarrow> nat"
  assumes next_law: "ok s \<Longrightarrow> \<exists>r s'. zi_Next ops s = Inr (r, s') \<and> ok s' \<and>
      (case r of None \<Rightarrow> bytes s = [] \<and> bytes s' = []
       | Some d \<Rightarrow> bytes s = d @ bytes s' \<and> suffix d (lastb s') \<and> (d = [] \<longrightarrow> gap s' < gap s)) \<and>
      zi_ByteCount ops s' + int (length (bytes s')) = zi_ByteCount ops s + int (length (bytes s))"
    and backup_law: "ok s \<Longrightarrow> 0 < n \<Longrightarrow> n \<le> int (length (lastb s)) \<Longrightarrow>
      \<exists>s'. zi_BackUp ops n s = Inr s' \<and> ok s' \<and>
        bytes s' = drop (length (lastb s) - nat n) (lastb s) @ bytes s \<and>
        zi_ByteCount ops s' + int (length (bytes s')) = zi_ByteCount ops s + int (length (bytes s))"
    and skip_law: "ok s \<Longrightarrow> 0 \<le> n \<Longrightarrow>
      \<exists>b s'. zi_Skip ops n s = Inr (b, s') \<and> ok s' \<and> (0 < n \<longrightarrow> b = (n \<le> int (length (bytes s)))) \<and>
        bytes s' = drop (nat n) (bytes s) \<and>
        zi_ByteCount ops s' + int (length (bytes s')) = zi_ByteCount ops s + int (length (bytes s))"

text \<open>Streams for which skipping nothing succeeds; the concatenating stream relies on it.\<close>

locale exact_source = zero_copy_source +
  assumes skip_nothing: "ok s \<Longrightarrow> \<exists>s'. zi_Skip ops 0 s = Inr (True, s')"

section \<open>Reading a byte array\<close>

record ArrayInputStream =
  ai_data :: "byte list"
  ai_size :: int
  ai_block_size :: int
  ai_position :: int
  ai_last_returned_size :: int

definition ArrayInputStream_ctor :: "byte list \<Rightarrow> int \<Rightarrow> int \<Rightarrow> ArrayInputStream" where
  "ArrayInputStream_ctor data sz block_size =
     \<lparr>ai_data = data, ai_size = sz, ai_block_size = (if block_size > 0 then block_size else sz),
      ai_position = 0, ai_last_returned_size = 0\<rparr>"

definition ArrayInputStream_Next :: "ArrayInputStream \<Rightarrow> (byte list option \<times> ArrayInputStream) result" where
  "ArrayInputStream_Next a =
     (if ai_position a < ai_size a then
        let last = min (ai_block_size a) (ai_size a - ai_position a) in
        rbind (mem_read (ai_data a) (ai_position a) last) (\<lambda>d.
          Inr (Some d, a\<lparr>ai_last_returned_size := last, ai_position := ai_position a + last\<rparr>))
      else Inr (None, a\<lparr>ai_last_returned_size := 0\<rparr>))"

definition ArrayInputStream_BackUp :: "int \<Rightarrow> ArrayInputStream \<Rightarrow> ArrayInputStream result" where
  "ArrayInputStream_BackUp count a =
     rbind (ensure (ai_last_returned_size a > 0) FatalCheck) (\<lambda>_.
     rbind (ensure (count \<le> ai_last_returned_size a) FatalCheck) (\<lambda>_.
     rbind (ensure (count \<ge> 0) FatalCheck) (\<lambda>_.
       Inr (a\<lparr>ai_position := ai_position a - count, ai_last_returned_size := 0\<rparr>))))"

definition ArrayInputStream_Skip :: "int \<Rightarrow> ArrayInputStream \<Rightarrow> (bool \<times> ArrayInputStream) result" where
  "ArrayInputStream_Skip count a =
     rbind (ensure (count \<ge> 0) FatalCheck) (\<lambda>_.
       let a = a\<lparr>ai_last_returned_size := 0\<rparr> in
       if count > ai_size a - ai_position a then
         Inr (False, a\<lparr>ai_position := ai_size a\<rparr>)
       else
         Inr (True, a\<lparr>ai_position := ai_position a + count\<rparr>))"

definition ArrayInputStream_ByteCount :: "ArrayInputStream \<Rightarrow> int" where
  "ArrayInputStream_ByteCount a = ai_position a"

definition array_input :: "ArrayInputStream zero_copy_input" where
  "array_input = \<lparr>zi_Next = ArrayInputStream_Next, zi_BackUp = ArrayInputStream_BackUp,
     zi_Skip = ArrayInputStream_Skip, zi_ByteCount = ArrayInputStream_ByteCount\<rparr>"

text \<open>The class invariant, and what is still to be read.\<close>

definition array_ok :: "ArrayInputStream \<Rightarrow> bool" where
  "array_ok a \<longleftrightarrow> ai_size a = int (length (ai_data a)) \<and> 0 \<le> ai_position a \<and>
     ai_position a \<le> ai_size a \<and> (0 < ai_block_size a \<or> ai_size a = 0) \<and>
     0 \<le> ai_last_returned_size a \<and> ai_last_returned_size a \<le> ai_position a"

definition array_bytes :: "ArrayInputStream \<Rightarrow> byte list" where
  "array_bytes a = drop (nat (ai_position a)) (ai_data a)"

definition array_last :: "ArrayInputStream \<Rightarrow> byte list" where
  "array_last a = window (ai_data a) (nat (ai_position a - ai_last_returned_size a)) (nat (ai_position a))"

lemma array_ok_ctor: "sz = int (length data) \<Longrightarrow> array_ok (ArrayInputStream_ctor data sz block_size)"
  by (auto simp: array_ok_def ArrayInputStream_ctor_def)

lemma array_bytes_ctor [simp]: "array_bytes (ArrayInputStream_ctor data sz block_size) = data"
  by (simp add: array_bytes_def ArrayInputStream_ctor_def)

interpretation arr: exact_source array_input array_ok array_bytes array_last "\<lambda>_. 0"
proof (unfold_locales, goal_cases)
  case (1 a)
  show ?case
  proof (cases "ai_position a < ai_size a")
    case True
    let ?n = "min (ai_block_size a) (ai_size a - ai_position a)"
    have n: "0 < ?n" "?n \<le> ai_size a - ai_position a"
      using 1 True by (auto simp: array_ok_def)
    have split: "drop (nat (ai_position a)) (ai_data a) =
        take (nat ?n) (drop (nat (ai_position a)) (ai_data a)) @ drop (nat (ai_position a + ?n)) (ai_data a)"
      using 1 n by (metis add.commute append_take_drop_id array_ok_def drop_drop less_imp_le nat_add_distrib)
    have read: "mem_read (ai_data a) (ai_position a) ?n =
        Inr (take (nat ?n) (drop (nat (ai_position a)) (ai_data a)))"
      using 1 n by (intro mem_read_Inr) (auto simp: array_ok_def)
    show ?thesis
      using 1 True n split read
      by (auto simp: array_input_def ArrayInputStream_Next_def array_ok_def array_bytes_def array_last_def
          ArrayInputStream_ByteCount_def window_def Let_def nat_diff_distrib nat_add_distrib)
  next
    case False
    then show ?thesis
      using 1 by (auto simp: array_input_def ArrayInputStream_Next_def array_ok_def array_bytes_def array_last_def
          ArrayInputStream_ByteCount_def)
  qed
next
  case (2 a n)
  then have len: "int (length (array_last a)) = ai_last_returned_size a"
    by (auto simp: array_ok_def array_last_def nat_le_iff)
  have "nat (ai_position a - ai_last_returned_size a) + (length (array_last a) - nat n) = nat (ai_position a - n)"
    using 2 len by (auto simp: array_ok_def)
  moreover have "drop k (array_last a) =
      window (ai_data a) (nat (ai_position a - ai_last_returned_size a) + k) (nat (ai_position a))" for k
    by (simp add: array_last_def drop_window)
  ultimately have "drop (length (array_last a) - nat n) (array_last a) =
      window (ai_data a) (nat (ai_position a - n)) (nat (ai_position a))"
    by simp
  then have "drop (nat (ai_position a - n)) (ai_data a) =
      drop (length (array_last a) - nat n) (array_last a) @ drop (nat (ai_position a)) (ai_data a)"
    using 2 by (simp add: window_drop)
  then show ?case
    using 2 len by (auto simp: array_input_def ArrayInputStream_BackUp_def array_ok_def array_bytes_def
        ArrayInputStream_ByteCount_def)
next
  case (3 a n)
  define m where "m = min n (ai_size a - ai_position a)"
  have len: "int (length (array_bytes a)) = ai_size a - ai_position a"
    using 3 by (auto simp: array_ok_def array_bytes_def)
  have "zi_Skip array_input n a =
      Inr (n \<le> int (length (array_bytes a)), a\<lparr>ai_last_returned_size := 0, ai_position := ai_position a + m\<rparr>)"
    using 3 unfolding len by (simp add: array_input_def ArrayInputStream_Skip_def Let_def m_def min_def)
  moreover have "drop (nat (ai_position a + m)) (ai_data a) = drop (nat n) (array_bytes a)"
    using 3 len by (auto simp: m_def min_def array_bytes_def array_ok_def nat_add_distrib add.commute)
  moreover have "0 \<le> m" "m \<le> ai_size a - ai_position a"
    using 3 by (auto simp: m_def array_ok_def)
  ultimately show ?case
    using 3 by (simp add: array_ok_def array_bytes_def ArrayInputStream_ByteCount_def array_input_def) auto
next
  case (4 a)
  then show ?case
    by (simp add: array_input_def ArrayInputStream_Skip_def array_ok_def Let_def)
qed

section \<open>Limiting another stream\<close>

record 's LimitingInputStream =
  li_input :: 's
  li_limit :: int
  li_prior_bytes_read :: int

definition LimitingInputStream_ctor :: "'s zero_copy_input \<Rightarrow> 's \<Rightarrow> int \<Rightarrow> 's LimitingInputStream" where
  "LimitingInputStream_ctor ops input limit =
     \<lparr>li_input = input, li_limit = limit, li_prior_bytes_read = zi_ByteCount ops input\<rparr>"

text \<open>The destructor leaves the underlying stream behind.\<close>

definition LimitingInputStream_dtor :: "'s zero_copy_input \<Rightarrow> 's LimitingInputStream \<Rightarrow> 's result" where
  "LimitingInputStream_dtor ops l =
     (if li_limit l < 0 then zi_BackUp ops (- li_limit l) (li_input l) else Inr (li_input l))"

definition LimitingInputStream_Next ::
    "'s zero_copy_input \<Rightarrow> 's LimitingInputStream \<Rightarrow> (byte list option \<times> 's LimitingInputStream) result" where
  "LimitingInputStream_Next ops l =
     (if li_limit l \<le> 0 then Inr (None, l)
      else rbind (zi_Next ops (li_input l)) (\<lambda>(r, input).
        case r of
          None \<Rightarrow> Inr (None, l\<lparr>li_input := input\<rparr>)
        | Some data \<Rightarrow>
            let limit = li_limit l - int (length data);
                l = l\<lparr>li_input := input, li_limit := limit\<rparr> in
            if limit < 0 then Inr (Some (take (nat (int (length data) + limit)) data), l)
            else Inr (Some data, l)))"

definition LimitingInputStream_BackUp ::
    "'s zero_copy_input \<Rightarrow> int \<Rightarrow> 's LimitingInputStream \<Rightarrow> 's LimitingInputStream result" where
  "LimitingInputStream_BackUp ops count l =
     (if li_limit l < 0 then
        rbind (zi_BackUp ops (count - li_limit l) (li_input l)) (\<lambda>input.
          Inr (l\<lparr>li_input := input, li_limit := count\<rparr>))
      else
        rbind (zi_BackUp ops count (li_input l)) (\<lambda>input.
          Inr (l\<lparr>li_input := input, li_limit := li_limit l + count\<rparr>)))"

definition LimitingInputStream_Skip ::
    "'s zero_copy_input \<Rightarrow> int \<Rightarrow> 's LimitingInputStream \<Rightarrow> (bool \<times> 's LimitingInputStream) result" where
  "LimitingInputStream_Skip ops count l =
     (if count > li_limit l then
        if li_limit l < 0 then Inr (False, l)
        else rbind (zi_Skip ops (li_limit l) (li_input l)) (\<lambda>(_, input).
          Inr (False, l\<lparr>li_input := input, li_limit := 0\<rparr>))
      else rbind (zi_Skip ops count (li_input l)) (\<lambda>(b, input).
        if \<not> b then Inr (False, l\<lparr>li_input := input\<rparr>)
        else Inr (True, l\<lparr>li_input := input, li_limit := li_limit l - count\<rparr>)))"

definition LimitingInputStream_ByteCount :: "'s zero_copy_input \<Rightarrow> 's LimitingInputStream \<Rightarrow> int" where
  "LimitingInputStream_ByteCount ops l =
     (if li_limit l < 0 then zi_ByteCount ops (li_input l) + li_limit l - li_prior_bytes_read l
      else zi_ByteCount ops (li_input l) - li_prior_bytes_read l)"

definition limiting_input :: "'s zero_copy_input \<Rightarrow> 's LimitingInputStream zero_copy_input" where
  "limiting_input ops = \<lparr>zi_Next = LimitingInputStream_Next ops, zi_BackUp = LimitingInputStream_BackUp ops,
     zi_Skip = LimitingInputStream_Skip ops, zi_ByteCount = LimitingInputStream_ByteCount ops\<rparr>"

text \<open>
  A negative limit is the number of bytes of the underlying stream's last buffer that are hidden
  from the reader.
\<close>

definition limiting_ok :: "('s \<Rightarrow> bool) \<Rightarrow> ('s \<Rightarrow> byte list) \<Rightarrow> 's LimitingInputStream \<Rightarrow> bool" where
  "limiting_ok ok lastb l \<longleftrightarrow> ok (li_input l) \<and> - li_limit l \<le> int (length (lastb (li_input l)))"

definition limiting_bytes :: "('s \<Rightarrow> byte list) \<Rightarrow> 's LimitingInputStream \<Rightarrow> byte list" where
  "limiting_bytes bytes l = take (nat (li_limit l)) (bytes (li_input l))"

definition limiting_last :: "('s \<Rightarrow> byte list) \<Rightarrow> 's LimitingInputStream \<Rightarrow> byte list" where
  "limiting_last lastb l =
     (if li_limit l < 0 then take (nat (int (length (lastb (li_input l))) + li_limit l)) (lastb (li_input l))
      else lastb (li_input l))"

lemmas limiting_defs = limiting_input_def LimitingInputStream_Next_def LimitingInputStream_BackUp_def
  LimitingInputStream_Skip_def LimitingInputStream_ByteCount_def limiting_ok_def limiting_bytes_def
  limiting_last_def Let_def

context zero_copy_source
begin

lemma limiting_next:
  assumes "limiting_ok ok lastb l"
  shows "\<exists>r l'. zi_Next (limiting_input ops) l = Inr (r, l') \<and> limiting_ok ok lastb l' \<and>
      (case r of None \<Rightarrow> limiting_bytes bytes l = [] \<and> limiting_bytes bytes l' = []
       | Some d \<Rightarrow> limiting_bytes bytes l = d @ limiting_bytes bytes l' \<and> suffix d (limiting_last lastb l') \<and>
           (d = [] \<longrightarrow> gap (li_input l') < gap (li_input l))) \<and>
      zi_ByteCount (limiting_input ops) l' + int (length (limiting_bytes bytes l')) =
        zi_ByteCount (limiting_input ops) l + int (length (limiting_bytes bytes l))"
proof (cases "li_limit l \<le> 0")
  case True
  then show ?thesis
    using assms by (simp add: limiting_defs)
next
  case False
  have in_ok: "ok (li_input l)"
    using assms by (simp add: limiting_ok_def)
  obtain r s' where n: "zi_Next ops (li_input l) = Inr (r, s')" "ok s'"
    "case r of None \<Rightarrow> bytes (li_input l) = [] \<and> bytes s' = []
       | Some d \<Rightarrow> bytes (li_input l) = d @ bytes s' \<and> suffix d (lastb s') \<and> (d = [] \<longrightarrow> gap s' < gap (li_input l))"
    "zi_ByteCount ops s' + int (length (bytes s')) =
       zi_ByteCount ops (li_input l) + int (length (bytes (li_input l)))"
    using next_law [OF in_ok] by blast
  show ?thesis
  proof (cases r)
    case None
    then show ?thesis
      using assms False n by (simp add: limiting_defs)
  next
    case (Some d)
    then obtain pre where pre: "lastb s' = pre @ d"
      using n(3) by (auto simp: suffix_def)
    have suff: "suffix (take (nat (li_limit l)) d)
        (take (nat (int (length pre) + int (length d) + (li_limit l - int (length d)))) (pre @ d))"
      using False by (simp add: suffix_def nat_add_distrib)
    have sub: "nat (li_limit l - int (length d)) = nat (li_limit l) - length d"
      by simp
    show ?thesis
      using assms False n Some suff pre by (auto simp: limiting_defs suffix_def nat_add_distrib sub)
  qed
qed

lemma limiting_backup:
  assumes "limiting_ok ok lastb l" and "0 < n" and "n \<le> int (length (limiting_last lastb l))"
  shows "\<exists>l'. zi_BackUp (limiting_input ops) n l = Inr l' \<and> limiting_ok ok lastb l' \<and>
      limiting_bytes bytes l' = drop (length (limiting_last lastb l) - nat n) (limiting_last lastb l) @ limiting_bytes bytes l \<and>
      zi_ByteCount (limiting_input ops) l' + int (length (limiting_bytes bytes l')) =
        zi_ByteCount (limiting_input ops) l + int (length (limiting_bytes bytes l))"
proof (cases "li_limit l < 0")
  case True
  let ?b = "lastb (li_input l)" and ?m = "n - li_limit l"
  have m: "0 < ?m" "?m \<le> int (length ?b)"
    using assms True by (auto simp: limiting_ok_def limiting_last_def)
  obtain s' where s': "zi_BackUp ops ?m (li_input l) = Inr s'" "ok s'"
    "bytes s' = drop (length ?b - nat ?m) ?b @ bytes (li_input l)"
    "zi_ByteCount ops s' + int (length (bytes s')) =
       zi_ByteCount ops (li_input l) + int (length (bytes (li_input l)))"
    using backup_law [of "li_input l", OF _ m] assms by (auto simp: limiting_ok_def)
  have k: "length ?b - nat ?m = nat (int (length ?b) + li_limit l) - nat n"
    using m True assms(2) by simp
  have "take (nat n) (drop (length ?b - nat ?m) ?b @ bytes (li_input l)) =
      drop (nat (int (length ?b) + li_limit l) - nat n) (take (nat (int (length ?b) + li_limit l)) ?b)"
    using m True assms(2) unfolding k by (simp add: drop_take)
  then show ?thesis
    using assms True s' m by (auto simp: limiting_defs)
next
  case False
  then have lb: "limiting_last lastb l = lastb (li_input l)"
    by (simp add: limiting_last_def)
  obtain s' where s': "zi_BackUp ops n (li_input l) = Inr s'" "ok s'"
    "bytes s' = drop (length (lastb (li_input l)) - nat n) (lastb (li_input l)) @ bytes (li_input l)"
    "zi_ByteCount ops s' + int (length (bytes s')) =
       zi_ByteCount ops (li_input l) + int (length (bytes (li_input l)))"
    using backup_law [of "li_input l" n] assms by (auto simp: limiting_ok_def lb)
  then show ?thesis
    using assms False lb by (auto simp: limiting_defs nat_add_distrib)
qed

lemma limiting_skip:
  assumes "limiting_ok ok lastb l" and "0 \<le> n"
  shows "\<exists>b l'. zi_Skip (limiting_input ops) n l = Inr (b, l') \<and> limiting_ok ok lastb l' \<and>
      (0 < n \<longrightarrow> b = (n \<le> int (length (limiting_bytes bytes l)))) \<and>
      limiting_bytes bytes l' = drop (nat n) (limiting_bytes bytes l) \<and>
      zi_ByteCount (limiting_input ops) l' + int (length (limiting_bytes bytes l')) =
        zi_ByteCount (limiting_input ops) l + int (length (limiting_bytes bytes l))"
proof -
  have in_ok: "ok (li_input l)"
    using assms by (simp add: limiting_ok_def)
  consider "li_limit l < 0" | "0 \<le> li_limit l" "li_limit l < n" | "n \<le> li_limit l"
    by linarith
  then show ?thesis
  proof cases
    case 1
    then show ?thesis
      using assms by (auto simp: limiting_defs)
  next
    case 2
    obtain b s' where "zi_Skip ops (li_limit l) (li_input l) = Inr (b, s')" "ok s'"
      "bytes s' = drop (nat (li_limit l)) (bytes (li_input l))"
      "zi_ByteCount ops s' + int (length (bytes s')) =
         zi_ByteCount ops (li_input l) + int (length (bytes (li_input l)))"
      using skip_law [OF in_ok 2(1)] by blast
    then show ?thesis
      using assms 2 by (auto simp: limiting_defs min_def)
  next
    case 3
    obtain b s' where "zi_Skip ops n (li_input l) = Inr (b, s')" "ok s'"
      "0 < n \<longrightarrow> b = (n \<le> int (length (bytes (li_input l))))"
      "bytes s' = drop (nat n) (bytes (li_input l))"
      "zi_ByteCount ops s' + int (length (bytes s')) =
         zi_ByteCount ops (li_input l) + int (length (bytes (li_input l)))"
      using skip_law [OF in_ok assms(2)] by blast
    note skip = this
    show ?thesis
    proof (cases b)
      case True
      then have "zi_Skip (limiting_input ops) n l = Inr (True, l\<lparr>li_input := s', li_limit := li_limit l - n\<rparr>)"
        using 3 skip by (simp add: limiting_input_def LimitingInputStream_Skip_def)
      moreover have "take (nat (li_limit l - n)) (drop (nat n) (bytes (li_input l))) =
          drop (nat n) (take (nat (li_limit l)) (bytes (li_input l)))"
        using 3 assms(2) by (simp add: drop_take nat_diff_distrib)
      moreover have "n \<le> int (length (limiting_bytes bytes l))"
        using skip(3) True 3 assms(2) by (cases "n = 0") (auto simp: limiting_bytes_def)
      moreover have "zi_ByteCount ops s' = zi_ByteCount ops (li_input l) + n"
        using skip(3-5) True assms(2) by (cases "n = 0") auto
      moreover have "n + int (length (drop (nat n) (limiting_bytes bytes l))) = int (length (limiting_bytes bytes l))"
        using calculation(3) assms(2) by simp
      ultimately show ?thesis
        using skip(2,4) 3 assms
        by (intro exI [of _ True] exI [of _ "l\<lparr>li_input := s', li_limit := li_limit l - n\<rparr>"])
          (simp add: limiting_ok_def limiting_bytes_def limiting_input_def LimitingInputStream_ByteCount_def)
    next
      case False
      then have "zi_Skip (limiting_input ops) n l = Inr (False, l\<lparr>li_input := s'\<rparr>)"
        using 3 skip by (simp add: limiting_input_def LimitingInputStream_Skip_def)
      moreover have "0 < n \<longrightarrow> \<not> n \<le> int (length (limiting_bytes bytes l))"
        using skip(3) False 3 by (auto simp: limiting_bytes_def)
      moreover have "take (nat (li_limit l)) (drop (nat n) (bytes (li_input l))) =
          drop (nat n) (take (nat (li_limit l)) (bytes (li_input l)))"
        using skip(3) False assms(2) by (cases "n = 0") auto
      ultimately show ?thesis
        using skip(2,4,5) 3 assms False
        by (intro exI [of _ False] exI [of _ "l\<lparr>li_input := s'\<rparr>"])
          (simp add: limiting_ok_def limiting_bytes_def limiting_input_def LimitingInputStream_ByteCount_def)
    qed
  qed
qed

theorem limiting_source:
  "zero_copy_source (limiting_input ops) (limiting_ok ok lastb) (limiting_bytes bytes) (limiting_last lastb)
     (\<lambda>l. gap (li_input l))"
  by unfold_locales (use limiting_next limiting_backup limiting_skip in blast)+

end

interpretation lim: zero_copy_source "limiting_input array_input" "limiting_ok array_ok array_last"
    "limiting_bytes array_bytes" "limiting_last array_last" "\<lambda>_. 0"
  by (rule arr.limiting_source)

section \<open>Concatenating streams\<close>

text \<open>\<^verbatim>\<open>streams_\<close> and \<^verbatim>\<open>stream_count_\<close> are the streams not yet exhausted.\<close>

record 's ConcatenatingInputStream =
  cc_streams :: "'s list"
  cc_bytes_retired :: int

definition ConcatenatingInputStream_ctor :: "'s list \<Rightarrow> 's ConcatenatingInputStream" where
  "ConcatenatingInputStream_ctor streams = \<lparr>cc_streams = streams, cc_bytes_retired = 0\<rparr>"

fun concat_Next ::
    "'s zero_copy_input \<Rightarrow> 's list \<Rightarrow> int \<Rightarrow> (byte list option \<times> 's ConcatenatingInputStream) result" where
  "concat_Next ops [] retired = Inr (None, \<lparr>cc_streams = [], cc_bytes_retired = retired\<rparr>)"
| "concat_Next ops (s # streams) retired =
     rbind (zi_Next ops s) (\<lambda>(r, s).
       case r of
         Some data \<Rightarrow> Inr (Some data, \<lparr>cc_streams = s # streams, cc_bytes_retired = retired\<rparr>)
       | None \<Rightarrow> concat_Next ops streams (retired + zi_ByteCount ops s))"

definition ConcatenatingInputStream_Next ::
    "'s zero_copy_input \<Rightarrow> 's ConcatenatingInputStream \<Rightarrow> (byte list option \<times> 's ConcatenatingInputStream) result" where
  "ConcatenatingInputStream_Next ops c = concat_Next ops (cc_streams c) (cc_bytes_retired c)"

definition ConcatenatingInputStream_BackUp ::
    "'s zero_copy_input \<Rightarrow> int \<Rightarrow> 's ConcatenatingInputStream \<Rightarrow> 's ConcatenatingInputStream result" where
  "ConcatenatingInputStream_BackUp ops count c =
     (case cc_streams c of
        s # streams \<Rightarrow> rbind (zi_BackUp ops count s) (\<lambda>s. Inr (c\<lparr>cc_streams := s # streams\<rparr>))
      | [] \<Rightarrow> Inl FatalCheck)"

fun concat_Skip ::
    "'s zero_copy_input \<Rightarrow> int \<Rightarrow> 's list \<Rightarrow> int \<Rightarrow> (bool \<times> 's ConcatenatingInputStream) result" where
  "concat_Skip ops count [] retired = Inr (False, \<lparr>cc_streams = [], cc_bytes_retired = retired\<rparr>)"
| "concat_Skip ops count (s # streams) retired =
     (let target_byte_count = zi_ByteCount ops s + count in
      rbind (zi_Skip ops count s) (\<lambda>(b, s).
        if b then Inr (True, \<lparr>cc_streams = s # streams, cc_bytes_retired = retired\<rparr>)
        else
          let final_byte_count = zi_ByteCount ops s in
          rbind (ensure (final_byte_count < target_byte_count) FatalCheck) (\<lambda>_.
            concat_Skip ops (target_byte_count - final_byte_count) streams (retired + final_byte_count))))"

definition ConcatenatingInputStream_Skip ::
    "'s zero_copy_input \<Rightarrow> int \<Rightarrow> 's ConcatenatingInputStream \<Rightarrow> (bool \<times> 's ConcatenatingInputStream) result" where
  "ConcatenatingInputStream_Skip ops count c = concat_Skip ops count (cc_streams c) (cc_bytes_retired c)"

definition ConcatenatingInputStream_ByteCount :: "'s zero_copy_input \<Rightarrow> 's ConcatenatingInputStream \<Rightarrow> int" where
  "ConcatenatingInputStream_ByteCount ops c =
     (case cc_streams c of [] \<Rightarrow> cc_bytes_retired c
      | s # _ \<Rightarrow> cc_bytes_retired c + zi_ByteCount ops s)"

definition concatenating_input :: "'s zero_copy_input \<Rightarrow> 's ConcatenatingInputStream zero_copy_input" where
  "concatenating_input ops = \<lparr>zi_Next = ConcatenatingInputStream_Next ops,
     zi_BackUp = ConcatenatingInputStream_BackUp ops, zi_Skip = ConcatenatingInputStream_Skip ops,
     zi_ByteCount = ConcatenatingInputStream_ByteCount ops\<rparr>"

text \<open>The streams after the first one must be fresh: their bytes are counted from zero.\<close>

definition concatenating_ok :: "'s zero_copy_input \<Rightarrow> ('s \<Rightarrow> bool) \<Rightarrow> 's ConcatenatingInputStream \<Rightarrow> bool" where
  "concatenating_ok ops ok c \<longleftrightarrow> list_all ok (cc_streams c) \<and>
     list_all (\<lambda>s. zi_ByteCount ops s = 0) (tl (cc_streams c))"

definition concatenating_bytes :: "('s \<Rightarrow> byte list) \<Rightarrow> 's ConcatenatingInputStream \<Rightarrow> byte list" where
  "concatenating_bytes bytes c = concat (map bytes (cc_streams c))"

definition concatenating_last :: "('s \<Rightarrow> byte list) \<Rightarrow> 's ConcatenatingInputStream \<Rightarrow> byte list" where
  "concatenating_last lastb c = (case cc_streams c of [] \<Rightarrow> [] | s # _ \<Rightarrow> lastb s)"

definition concatenating_gap :: "('s \<Rightarrow> nat) \<Rightarrow> 's ConcatenatingInputStream \<Rightarrow> nat" where
  "concatenating_gap gap c = sum_list (map gap (cc_streams c))"

lemmas concatenating_defs = concatenating_ok_def concatenating_bytes_def
  concatenating_last_def concatenating_gap_def ConcatenatingInputStream_ByteCount_def

context exact_source
begin

text \<open>Where the next stream starts counting, once the ones before it are retired.\<close>

lemma concat_Next_law:
  "concatenating_ok ops ok \<lparr>cc_streams = streams, cc_bytes_retired = retired\<rparr> \<Longrightarrow>
   \<exists>r c'. concat_Next ops streams retired = Inr (r, c') \<and> concatenating_ok ops ok c' \<and>
     (case r of None \<Rightarrow> concat (map bytes streams) = [] \<and> concatenating_bytes bytes c' = []
      | Some d \<Rightarrow> concat (map bytes streams) = d @ concatenating_bytes bytes c' \<and>
          suffix d (concatenating_last lastb c') \<and>
          (d = [] \<longrightarrow> concatenating_gap gap c' < sum_list (map gap streams))) \<and>
     ConcatenatingInputStream_ByteCount ops c' + int (length (concatenating_bytes bytes c')) =
       ConcatenatingInputStream_ByteCount ops \<lparr>cc_streams = streams, cc_bytes_retired = retired\<rparr> +
       int (length (concat (map bytes streams)))"
proof (induction streams arbitrary: retired)
  case Nil
  then show ?case by (simp add: concatenating_defs)
next
  case (Cons s streams)
  then have s: "ok s"
    by (simp add: concatenating_ok_def)
  obtain r s' where n: "zi_Next ops s = Inr (r, s')" "ok s'"
    "case r of None \<Rightarrow> bytes s = [] \<and> bytes s' = []
       | Some d \<Rightarrow> bytes s = d @ bytes s' \<and> suffix d (lastb s') \<and> (d = [] \<longrightarrow> gap s' < gap s)"
    "zi_ByteCount ops s' + int (length (bytes s')) = zi_ByteCount ops s + int (length (bytes s))"
    using next_law [OF s] by blast
  show ?case
  proof (cases r)
    case (Some d)
    with n Cons.prems show ?thesis
      by (auto simp: concatenating_defs)
  next
    case None
    have ok': "concatenating_ok ops ok \<lparr>cc_streams = streams, cc_bytes_retired = retired + zi_ByteCount ops s'\<rparr>"
      using Cons.prems by (cases streams) (auto simp: concatenating_ok_def)
    have "ConcatenatingInputStream_ByteCount ops
        \<lparr>cc_streams = streams, cc_bytes_retired = retired + zi_ByteCount ops s'\<rparr> = retired + zi_ByteCount ops s"
      using Cons.prems n None by (cases streams) (simp_all add: concatenating_defs)
    with Cons.IH [OF ok'] n None show ?thesis
      by (fastforce simp: ConcatenatingInputStream_ByteCount_def split: option.splits)
  qed
qed

lemma concat_Skip_law:
  "concatenating_ok ops ok \<lparr>cc_streams = streams, cc_bytes_retired = retired\<rparr> \<Longrightarrow> 0 \<le> n \<Longrightarrow>
   \<exists>b c'. concat_Skip ops n streams retired = Inr (b, c') \<and> concatenating_ok ops ok c' \<and>
     (0 < n \<longrightarrow> b = (n \<le> int (length (concat (map bytes streams))))) \<and>
     concatenating_bytes bytes c' = drop (nat n) (concat (map bytes streams)) \<and>
     ConcatenatingInputStream_ByteCount ops c' + int (length (concatenating_bytes bytes c')) =
       ConcatenatingInputStream_ByteCount ops \<lparr>cc_streams = streams, cc_bytes_retired = retired\<rparr> +
       int (length (concat (map bytes streams)))"
proof (induction streams arbitrary: retired n)
  case Nil
  then show ?case
    by (intro exI [of _ False] exI [of _ "\<lparr>cc_streams = [], cc_bytes_retired = retired\<rparr>"])
      (simp add: concatenating_defs)
next
  case (Cons s streams)
  then have s: "ok s"
    by (simp add: concatenating_ok_def)
  obtain b s' where k: "zi_Skip ops n s = Inr (b, s')" "ok s'" "0 < n \<longrightarrow> b = (n \<le> int (length (bytes s)))"
    "bytes s' = drop (nat n) (bytes s)"
    "zi_ByteCount ops s' + int (length (bytes s')) = zi_ByteCount ops s + int (length (bytes s))"
    using skip_law [OF s Cons.prems(2)] by blast
  have b0: "b" if "n = 0"
    using skip_nothing [OF s] k(1) that by auto
  show ?case
  proof (cases b)
    case True
    have "n \<le> int (length (bytes s))"
      using k(3) True Cons.prems(2) by (cases "n = 0") auto
    with True k Cons.prems show ?thesis
      by (intro exI [of _ True] exI [of _ "\<lparr>cc_streams = s' # streams, cc_bytes_retired = retired\<rparr>"])
        (simp add: concatenating_defs)
  next
    case False
    with b0 Cons.prems(2) have "0 < n"
      by (cases "n = 0") auto
    with k(3) False have big: "int (length (bytes s)) < n"
      by simp
    with k(4,5) have cnt: "zi_ByteCount ops s' = zi_ByteCount ops s + int (length (bytes s))"
      by simp
    have ok': "concatenating_ok ops ok \<lparr>cc_streams = streams, cc_bytes_retired = retired + zi_ByteCount ops s'\<rparr>"
      using Cons.prems by (cases streams) (auto simp: concatenating_ok_def)
    have bc: "ConcatenatingInputStream_ByteCount ops
        \<lparr>cc_streams = streams, cc_bytes_retired = retired + zi_ByteCount ops s'\<rparr> = retired + zi_ByteCount ops s'"
      using Cons.prems by (cases streams) (simp_all add: concatenating_defs)
    let ?m = "n - int (length (bytes s))"
    have "0 \<le> ?m" "0 < ?m"
      using big by simp_all
    from Cons.IH [OF ok' this(1)] obtain b' c' where c':
      "concat_Skip ops ?m streams (retired + zi_ByteCount ops s') = Inr (b', c')" "concatenating_ok ops ok c'"
      "b' = (?m \<le> int (length (concat (map bytes streams))))"
      "concatenating_bytes bytes c' = drop (nat ?m) (concat (map bytes streams))"
      "ConcatenatingInputStream_ByteCount ops c' + int (length (concatenating_bytes bytes c')) =
         retired + zi_ByteCount ops s' + int (length (concat (map bytes streams)))"
      using \<open>0 < ?m\<close> unfolding bc by blast
    have "concat_Skip ops n (s # streams) retired = Inr (b', c')"
      using k(1) False big c'(1) by (simp add: cnt Let_def add.commute)
    moreover have "drop (nat n) (bytes s @ concat (map bytes streams)) = drop (nat ?m) (concat (map bytes streams))"
      using big by (simp add: nat_diff_distrib)
    ultimately show ?thesis
      using c' cnt by (intro exI [of _ b'] exI [of _ c']) (auto simp: ConcatenatingInputStream_ByteCount_def)
  qed
qed

theorem concatenating_source:
  "zero_copy_source (concatenating_input ops) (concatenating_ok ops ok) (concatenating_bytes bytes)
     (concatenating_last lastb) (concatenating_gap gap)"
proof (unfold_locales, goal_cases)
  case (1 c)
  have eta: "\<lparr>cc_streams = cc_streams c, cc_bytes_retired = cc_bytes_retired c\<rparr> = c"
    by simp
  from 1 show ?case
    using concat_Next_law [of "cc_streams c" "cc_bytes_retired c", unfolded eta,
        folded concatenating_bytes_def concatenating_gap_def]
    by (simp add: concatenating_input_def ConcatenatingInputStream_Next_def)
next
  case (2 c n)
  then obtain s streams where c: "cc_streams c = s # streams"
    by (cases "cc_streams c") (simp_all add: concatenating_last_def)
  have "ok s" "n \<le> int (length (lastb s))"
    using 2 c by (simp_all add: concatenating_defs)
  from backup_law [OF this(1) 2(2) this(2)] show ?case
    using 2 c by (auto simp: concatenating_input_def ConcatenatingInputStream_BackUp_def concatenating_defs)
next
  case (3 c n)
  have eta: "\<lparr>cc_streams = cc_streams c, cc_bytes_retired = cc_bytes_retired c\<rparr> = c"
    by simp
  from 3 show ?case
    using concat_Skip_law [of "cc_streams c" "cc_bytes_retired c" n, unfolded eta, folded concatenating_bytes_def]
    by (simp add: concatenating_input_def ConcatenatingInputStream_Skip_def)
qed

end

interpretation cat: zero_copy_source "concatenating_input array_input" "concatenating_ok array_input array_ok"
    "concatenating_bytes array_bytes" "concatenating_last array_last" "concatenating_gap (\<lambda>_. 0)"
  by (rule arr.concatenating_source)

end
