(* ===== verification/Coded_Input.thy ===== *)
theory Coded_Input
  imports Varint Zero_Copy_Input
begin

text \<open>
  \<^verbatim>\<open>CodedInputStream\<close> of \<^verbatim>\<open>google/protobuf/io/coded_stream.cc\<close>, \<^verbatim>\<open>coded_stream.h\<close> and
  \<^verbatim>\<open>coded_stream_inl.h\<close>: buffered reading of varints, fixed-width integers, strings and tags from a
  block-wise stream or a flat array, under nested byte limits.

  The pointers \<^verbatim>\<open>buffer_\<close> and \<^verbatim>\<open>buffer_end_\<close> are offsets into the block they point into, so that
  every read through them is checked; a null \<^verbatim>\<open>buffer_\<close> points into the empty block. Messages
  written to the log are kept as a list. The \<^verbatim>\<open>int\<close> counters are unbounded here; the invariant
  bounds them by \<^verbatim>\<open>INT_MAX\<close>.
\<close>

unbundle bit_operations_syntax

section \<open>State\<close>

datatype coded_log = LogTotalBytesLimit int | LogDangerouslyLarge int | LogTotalBytesRead int

record 's CodedInputStream =
  ci_input :: "'s option"
  ci_block :: "byte list"
  ci_buffer :: int
  ci_buffer_end :: int
  ci_total_bytes_read :: int
  ci_overflow_bytes :: int
  ci_last_tag :: uint32
  ci_legitimate_message_end :: bool
  ci_current_limit :: int
  ci_buffer_size_after_limit :: int
  ci_total_bytes_limit :: int
  ci_total_bytes_warning_threshold :: int
  ci_recursion_depth :: int
  ci_recursion_limit :: int
  ci_log :: "coded_log list"

definition kDefaultTotalBytesLimit :: int where
  "kDefaultTotalBytesLimit = 67108864"

definition kDefaultTotalBytesWarningThreshold :: int where
  "kDefaultTotalBytesWarningThreshold = 33554432"

definition default_recursion_limit :: int where
  "default_recursion_limit = 100"

text \<open>One byte through a pointer.\<close>

definition deref :: "byte list \<Rightarrow> int \<Rightarrow> byte result" where
  "deref blk off = (if 0 \<le> off \<and> off < int (length blk) then Inr (blk ! nat off) else Inl OutOfBounds)"

definition BufferSize :: "'s CodedInputStream \<Rightarrow> int" where
  "BufferSize c = ci_buffer_end c - ci_buffer c"

definition CurrentPosition :: "'s CodedInputStream \<Rightarrow> int" where
  "CurrentPosition c = ci_total_bytes_read c - (BufferSize c + ci_buffer_size_after_limit c)"

definition Advance :: "int \<Rightarrow> 's CodedInputStream \<Rightarrow> 's CodedInputStream" where
  "Advance amount c = c\<lparr>ci_buffer := ci_buffer c + amount\<rparr>"

section \<open>Refilling the buffer\<close>

partial_function (option) NextNonEmpty ::
    "'s zero_copy_input \<Rightarrow> 's \<Rightarrow> (byte list option \<times> 's) result option" where
  "NextNonEmpty ops s =
     (case zi_Next ops s of
        Inl e \<Rightarrow> Some (Inl e)
      | Inr (r, s') \<Rightarrow>
          (case r of
             None \<Rightarrow> Some (Inr (None, s'))
           | Some data \<Rightarrow> if data = [] then NextNonEmpty ops s' else Some (Inr (Some data, s'))))"

definition next_non_empty :: "'s zero_copy_input \<Rightarrow> 's \<Rightarrow> (byte list option \<times> 's) result" where
  "next_non_empty ops s = (case NextNonEmpty ops s of None \<Rightarrow> Inl NonTermination | Some r \<Rightarrow> r)"

definition RecomputeBufferLimits :: "'s CodedInputStream \<Rightarrow> 's CodedInputStream" where
  "RecomputeBufferLimits c =
     (let c = c\<lparr>ci_buffer_end := ci_buffer_end c + ci_buffer_size_after_limit c\<rparr>;
          closest_limit = min (ci_current_limit c) (ci_total_bytes_limit c) in
      if closest_limit < ci_total_bytes_read c then
        let after = ci_total_bytes_read c - closest_limit in
        c\<lparr>ci_buffer_size_after_limit := after, ci_buffer_end := ci_buffer_end c - after\<rparr>
      else c\<lparr>ci_buffer_size_after_limit := 0\<rparr>)"

definition PrintTotalBytesLimitError :: "'s CodedInputStream \<Rightarrow> 's CodedInputStream" where
  "PrintTotalBytesLimitError c = c\<lparr>ci_log := ci_log c @ [LogTotalBytesLimit (ci_total_bytes_limit c)]\<rparr>"

text \<open>The steps of \<^verbatim>\<open>Refresh\<close>: the warning, and taking over a block from the stream.\<close>

definition refresh_warn :: "'s CodedInputStream \<Rightarrow> 's CodedInputStream" where
  "refresh_warn c =
     (if ci_total_bytes_warning_threshold c \<ge> 0 \<and> ci_total_bytes_read c \<ge> ci_total_bytes_warning_threshold c
      then c\<lparr>ci_log := ci_log c @ [LogDangerouslyLarge (ci_total_bytes_limit c)],
             ci_total_bytes_warning_threshold := - 2\<rparr>
      else c)"

definition refresh_block :: "byte list \<Rightarrow> 's CodedInputStream \<Rightarrow> 's CodedInputStream" where
  "refresh_block data c =
     (let buffer_size = int (length data);
          c = c\<lparr>ci_block := data, ci_buffer := 0, ci_buffer_end := buffer_size\<rparr>;
          c = (if ci_total_bytes_read c \<le> INT_MAX - buffer_size then
                 c\<lparr>ci_total_bytes_read := ci_total_bytes_read c + buffer_size\<rparr>
               else
                 let overflow = ci_total_bytes_read c - (INT_MAX - buffer_size) in
                 c\<lparr>ci_overflow_bytes := overflow, ci_buffer_end := ci_buffer_end c - overflow,
                   ci_total_bytes_read := INT_MAX\<rparr>)
      in RecomputeBufferLimits c)"

definition Refresh :: "'s zero_copy_input \<Rightarrow> 's CodedInputStream \<Rightarrow> (bool \<times> 's CodedInputStream) result" where
  "Refresh ops c =
     rbind (ensure (BufferSize c = 0) FatalCheck) (\<lambda>_.
     if ci_buffer_size_after_limit c > 0 \<or> ci_overflow_bytes c > 0 \<or> ci_total_bytes_read c = ci_current_limit c then
       let current_position = ci_total_bytes_read c - ci_buffer_size_after_limit c in
       Inr (False,
         if current_position \<ge> ci_total_bytes_limit c \<and> ci_total_bytes_limit c \<noteq> ci_current_limit c
         then PrintTotalBytesLimitError c else c)
     else
       let c = refresh_warn c in
       case ci_input c of
         None \<Rightarrow> Inl NullDeref
       | Some input \<Rightarrow> rbind (next_non_empty ops input) (\<lambda>(r, input).
           let c = c\<lparr>ci_input := Some input\<rparr> in
           case r of
             Some data \<Rightarrow> Inr (True, refresh_block data c)
           | None \<Rightarrow> Inr (False, c\<lparr>ci_block := [], ci_buffer := 0, ci_buffer_end := 0\<rparr>)))"

section \<open>Construction and destruction\<close>

definition CodedInputStream_array :: "byte list \<Rightarrow> int \<Rightarrow> 's CodedInputStream" where
  "CodedInputStream_array buffer sz =
     \<lparr>ci_input = None, ci_block = buffer, ci_buffer = 0, ci_buffer_end = sz, ci_total_bytes_read = sz,
      ci_overflow_bytes = 0, ci_last_tag = 0, ci_legitimate_message_end = False, ci_current_limit = sz,
      ci_buffer_size_after_limit = 0, ci_total_bytes_limit = kDefaultTotalBytesLimit,
      ci_total_bytes_warning_threshold = kDefaultTotalBytesWarningThreshold, ci_recursion_depth = 0,
      ci_recursion_limit = default_recursion_limit, ci_log = []\<rparr>"

definition CodedInputStream_stream :: "'s zero_copy_input \<Rightarrow> 's \<Rightarrow> 's CodedInputStream result" where
  "CodedInputStream_stream ops input =
     rbind (Refresh ops
       \<lparr>ci_input = Some input, ci_block = [], ci_buffer = 0, ci_buffer_end = 0, ci_total_bytes_read = 0,
        ci_overflow_bytes = 0, ci_last_tag = 0, ci_legitimate_message_end = False, ci_current_limit = INT_MAX,
        ci_buffer_size_after_limit = 0, ci_total_bytes_limit = kDefaultTotalBytesLimit,
        ci_total_bytes_warning_threshold = kDefaultTotalBytesWarningThreshold, ci_recursion_depth = 0,
        ci_recursion_limit = default_recursion_limit, ci_log = []\<rparr>)
       (\<lambda>(_, c). Inr c)"

definition IsFlat :: "'s CodedInputStream \<Rightarrow> bool" where
  "IsFlat c \<longleftrightarrow> ci_input c = None"

definition BackUpInputToCurrentPosition ::
    "'s zero_copy_input \<Rightarrow> 's CodedInputStream \<Rightarrow> 's CodedInputStream result" where
  "BackUpInputToCurrentPosition ops c =
     (let backup_bytes = BufferSize c + ci_buffer_size_after_limit c + ci_overflow_bytes c in
      if backup_bytes > 0 then
        case ci_input c of
          None \<Rightarrow> Inl NullDeref
        | Some input \<Rightarrow> rbind (zi_BackUp ops backup_bytes input) (\<lambda>input.
            Inr (c\<lparr>ci_input := Some input,
                   ci_total_bytes_read := ci_total_bytes_read c - (BufferSize c + ci_buffer_size_after_limit c),
                   ci_buffer_end := ci_buffer c, ci_buffer_size_after_limit := 0, ci_overflow_bytes := 0\<rparr>))
      else Inr c)"

text \<open>The destructor: what is left is the underlying stream and the log.\<close>

definition CodedInputStream_dtor :: "'s zero_copy_input \<Rightarrow> 's CodedInputStream \<Rightarrow> 's CodedInputStream result" where
  "CodedInputStream_dtor ops c =
     rbind (if ci_input c \<noteq> None then BackUpInputToCurrentPosition ops c else Inr c) (\<lambda>c.
       Inr (if ci_total_bytes_warning_threshold c = - 2
            then c\<lparr>ci_log := ci_log c @ [LogTotalBytesRead (ci_total_bytes_read c)]\<rparr> else c))"

section \<open>Limits\<close>

definition PushLimit :: "int \<Rightarrow> 's CodedInputStream \<Rightarrow> int \<times> 's CodedInputStream" where
  "PushLimit byte_limit c =
     (let current_position = CurrentPosition c;
          old_limit = ci_current_limit c;
          limit = (if byte_limit \<ge> 0 \<and> byte_limit \<le> INT_MAX - current_position
                   then current_position + byte_limit else INT_MAX)
      in (old_limit, RecomputeBufferLimits (c\<lparr>ci_current_limit := min limit old_limit\<rparr>)))"

definition PopLimit :: "int \<Rightarrow> 's CodedInputStream \<Rightarrow> 's CodedInputStream" where
  "PopLimit limit c =
     (RecomputeBufferLimits (c\<lparr>ci_current_limit := limit\<rparr>))\<lparr>ci_legitimate_message_end := False\<rparr>"

definition BytesUntilLimit :: "'s CodedInputStream \<Rightarrow> int" where
  "BytesUntilLimit c = (if ci_current_limit c = INT_MAX then - 1 else ci_current_limit c - CurrentPosition c)"

definition SetTotalBytesLimit :: "int \<Rightarrow> int \<Rightarrow> 's CodedInputStream \<Rightarrow> 's CodedInputStream" where
  "SetTotalBytesLimit total_bytes_limit warning_threshold c =
     (let current_position = CurrentPosition c in
      RecomputeBufferLimits
        (c\<lparr>ci_total_bytes_limit := max current_position total_bytes_limit,
           ci_total_bytes_warning_threshold := (if warning_threshold \<ge> 0 then warning_threshold else - 1)\<rparr>))"

definition BytesUntilTotalBytesLimit :: "'s CodedInputStream \<Rightarrow> int" where
  "BytesUntilTotalBytesLimit c =
     (if ci_total_bytes_limit c = INT_MAX then - 1 else ci_total_bytes_limit c - CurrentPosition c)"

section \<open>Skipping and raw reads\<close>

definition CodedInputStream_Skip ::
    "'s zero_copy_input \<Rightarrow> int \<Rightarrow> 's CodedInputStream \<Rightarrow> (bool \<times> 's CodedInputStream) result" where
  "CodedInputStream_Skip ops count c =
     (if count < 0 then Inr (False, c)
      else
        let original_buffer_size = BufferSize c in
        if count \<le> original_buffer_size then Inr (True, Advance count c)
        else if ci_buffer_size_after_limit c > 0 then Inr (False, Advance original_buffer_size c)
        else
          let count = count - original_buffer_size;
              c = c\<lparr>ci_block := [], ci_buffer := 0, ci_buffer_end := 0\<rparr>;
              closest_limit = min (ci_current_limit c) (ci_total_bytes_limit c);
              bytes_until_limit = closest_limit - ci_total_bytes_read c in
          if bytes_until_limit < count then
            if bytes_until_limit > 0 then
              case ci_input c of
                None \<Rightarrow> Inl NullDeref
              | Some input \<Rightarrow> rbind (zi_Skip ops bytes_until_limit input) (\<lambda>(_, input).
                  Inr (False, c\<lparr>ci_input := Some input, ci_total_bytes_read := closest_limit\<rparr>))
            else Inr (False, c)
          else
            case ci_input c of
              None \<Rightarrow> Inl NullDeref
            | Some input \<Rightarrow> rbind (zi_Skip ops count input) (\<lambda>(b, input).
                Inr (b, c\<lparr>ci_input := Some input, ci_total_bytes_read := ci_total_bytes_read c + count\<rparr>)))"

definition GetDirectBufferPointer ::
    "'s zero_copy_input \<Rightarrow> 's CodedInputStream \<Rightarrow> ((byte list \<times> int) option \<times> 's CodedInputStream) result" where
  "GetDirectBufferPointer ops c =
     rbind (if BufferSize c = 0 then Refresh ops c else Inr (True, c)) (\<lambda>(b, c).
       if \<not> b then Inr (None, c)
       else Inr (Some (drop (nat (ci_buffer c)) (ci_block c), BufferSize c), c))"

definition GetDirectBufferPointerInline :: "'s CodedInputStream \<Rightarrow> byte list \<times> int" where
  "GetDirectBufferPointerInline c =
     (drop (nat (ci_buffer c)) (ci_block c), ci_buffer_end c - ci_buffer c)"

text \<open>A buffer that ends at a limit, or beyond the range of \<^verbatim>\<open>int\<close>: the next refresh fails.\<close>

definition at_limit :: "'s CodedInputStream \<Rightarrow> bool" where
  "at_limit c \<longleftrightarrow> ci_buffer_size_after_limit c > 0 \<or> ci_overflow_bytes c > 0"

definition refresh_rank :: "'s CodedInputStream \<Rightarrow> nat" where
  "refresh_rank c =
     (if BufferSize c > 0 \<or> at_limit c then 0 else if ci_buffer_size_after_limit c < 0 then 2 else 1)"

lemma NextNonEmpty_Some:
  assumes "NextNonEmpty ops s = Some y"
  shows "\<forall>d s'. y = Inr (Some d, s') \<longrightarrow> d \<noteq> []"
  using assms
  by (rule NextNonEmpty.raw_induct [where P = "\<lambda>ops s y. \<forall>d s'. y = Inr (Some d, s') \<longrightarrow> d \<noteq> []", rotated])
    (fastforce split: sum.splits option.splits if_splits)

lemma next_non_empty_data: "next_non_empty ops s = Inr (Some d, s') \<Longrightarrow> d \<noteq> []"
  using NextNonEmpty_Some [of ops s] by (auto simp: next_non_empty_def split: option.splits)

lemma refresh_block_rank:
  assumes "data \<noteq> []"
  shows "refresh_rank (refresh_block data c) < (if ci_buffer_size_after_limit c < 0 then 2 else 1)"
proof -
  obtain m where "length data = Suc m"
    using assms by (cases data) auto
  then show ?thesis
    by (auto simp: refresh_block_def refresh_rank_def at_limit_def RecomputeBufferLimits_def BufferSize_def Let_def)
qed

lemma Refresh_progress:
  assumes "Refresh ops c = Inr (True, c')"
  shows "refresh_rank c' < refresh_rank c"
proof -
  have c: "BufferSize c = 0" "\<not> at_limit c"
    using assms by (auto simp: Refresh_def at_limit_def Let_def split: if_splits)
  obtain data input0 input where n: "next_non_empty ops input0 = Inr (Some data, input)"
    and c': "c' = refresh_block data ((refresh_warn c)\<lparr>ci_input := Some input\<rparr>)"
    using assms by (auto simp: Refresh_def Let_def rbind_eq_Inr split: if_splits option.splits prod.splits)
  from next_non_empty_data [OF n] have "data \<noteq> []" .
  moreover have "ci_buffer_size_after_limit (refresh_warn c) = ci_buffer_size_after_limit c"
    by (simp add: refresh_warn_def)
  ultimately show ?thesis
    unfolding c' using c refresh_block_rank [of data "(refresh_warn c)\<lparr>ci_input := Some input\<rparr>"]
    by (auto simp: refresh_rank_def split: if_splits)
qed

lemma refresh_rank_Advance: "BufferSize c = n \<Longrightarrow> refresh_rank (Advance n c) \<le> 2"
  by (simp add: refresh_rank_def)

lemma refresh_rank_max: "refresh_rank c \<le> 2"
  by (simp add: refresh_rank_def)

function ReadRaw_loop ::
    "'s zero_copy_input \<Rightarrow> int \<Rightarrow> byte list \<Rightarrow> 's CodedInputStream \<Rightarrow> (bool \<times> byte list \<times> 's CodedInputStream) result"
where
  "ReadRaw_loop ops sz out c =
     (let current_buffer_size = BufferSize c in
      if current_buffer_size < sz then
        rbind (mem_read (ci_block c) (ci_buffer c) current_buffer_size) (\<lambda>d.
        rbind (Refresh ops (Advance current_buffer_size c)) (\<lambda>(b, c).
          if \<not> b then Inr (False, out @ d, c)
          else ReadRaw_loop ops (sz - current_buffer_size) (out @ d) c))
      else
        rbind (mem_read (ci_block c) (ci_buffer c) sz) (\<lambda>d. Inr (True, out @ d, Advance sz c)))"
  by pat_completeness auto
termination
proof (relation "measure (\<lambda>(ops, sz, out, c). 3 * nat sz + refresh_rank c)", goal_cases)
  case (2 ops sz out c cbs d p b c')
  from 2 have b: "Refresh ops (Advance cbs c) = Inr (True, c')"
    by simp
  have "0 \<le> cbs"
    using 2 by (auto simp: mem_read_def split: if_splits)
  moreover have "cbs = 0 \<Longrightarrow> refresh_rank c' < refresh_rank c"
    using Refresh_progress [OF b] by (simp add: Advance_def)
  ultimately show ?case
    using 2 refresh_rank_max [of c'] by (cases "cbs = 0") auto
qed simp

declare ReadRaw_loop.simps [simp del]

text \<open>The result: success, the bytes stored in the caller's buffer, the stream.\<close>

definition ReadRaw ::
    "'s zero_copy_input \<Rightarrow> int \<Rightarrow> 's CodedInputStream \<Rightarrow> (bool \<times> byte list \<times> 's CodedInputStream) result" where
  "ReadRaw ops sz c = ReadRaw_loop ops sz [] c"

function ReadStringFallback_loop ::
    "'s zero_copy_input \<Rightarrow> int \<Rightarrow> byte list \<Rightarrow> 's CodedInputStream \<Rightarrow> (bool \<times> byte list \<times> 's CodedInputStream) result"
where
  "ReadStringFallback_loop ops sz buffer c =
     (let current_buffer_size = BufferSize c in
      if current_buffer_size < sz then
        rbind (if current_buffer_size \<noteq> 0 then mem_read (ci_block c) (ci_buffer c) current_buffer_size else Inr []) (\<lambda>d.
        rbind (Refresh ops (Advance current_buffer_size c)) (\<lambda>(b, c).
          if \<not> b then Inr (False, buffer @ d, c)
          else ReadStringFallback_loop ops (sz - current_buffer_size) (buffer @ d) c))
      else
        rbind (mem_read (ci_block c) (ci_buffer c) sz) (\<lambda>d. Inr (True, buffer @ d, Advance sz c)))"
  by pat_completeness auto
termination
proof (relation "measure (\<lambda>(ops, sz, out, c). 3 * nat sz + refresh_rank c)", goal_cases)
  case (2 ops sz out c cbs d p b c')
  from 2 have b: "Refresh ops (Advance cbs c) = Inr (True, c')"
    by simp
  have "0 \<le> cbs"
    using 2 by (auto simp: mem_read_def split: if_splits)
  moreover have "cbs = 0 \<Longrightarrow> refresh_rank c' < refresh_rank c"
    using Refresh_progress [OF b] by (simp add: Advance_def)
  ultimately show ?case
    using 2 refresh_rank_max [of c'] by (cases "cbs = 0") auto
qed simp

declare ReadStringFallback_loop.simps [simp del]

text \<open>The reservation of capacity has no effect on the contents.\<close>

definition ReadStringFallback ::
    "'s zero_copy_input \<Rightarrow> int \<Rightarrow> 's CodedInputStream \<Rightarrow> (bool \<times> byte list \<times> 's CodedInputStream) result" where
  "ReadStringFallback ops sz c = ReadStringFallback_loop ops sz [] c"

text \<open>The string handed in is returned unchanged for a negative size.\<close>

definition InternalReadStringInline ::
    "'s zero_copy_input \<Rightarrow> byte list \<Rightarrow> int \<Rightarrow> 's CodedInputStream \<Rightarrow> (bool \<times> byte list \<times> 's CodedInputStream) result" where
  "InternalReadStringInline ops buffer sz c =
     (if sz < 0 then Inr (False, buffer, c)
      else if BufferSize c \<ge> sz then
        if sz > 0 then
          rbind (mem_read (ci_block c) (ci_buffer c) sz) (\<lambda>d. Inr (True, d, Advance sz c))
        else Inr (True, [], c)
      else ReadStringFallback ops sz c)"

definition ReadString ::
    "'s zero_copy_input \<Rightarrow> byte list \<Rightarrow> int \<Rightarrow> 's CodedInputStream \<Rightarrow> (bool \<times> byte list \<times> 's CodedInputStream) result" where
  "ReadString ops buffer sz c =
     (if sz < 0 then Inr (False, buffer, c) else InternalReadStringInline ops buffer sz c)"

section \<open>Fixed-width integers\<close>

text \<open>A copy of the object on a little-endian host, shifts otherwise.\<close>

definition ReadLittleEndian32FromArray :: "endian \<Rightarrow> byte list \<Rightarrow> uint32" where
  "ReadLittleEndian32FromArray host b =
     (case host of
        LittleEndian \<Rightarrow> object_word LittleEndian b
      | BigEndian \<Rightarrow> ucast (b ! 0) OR push_bit 8 (ucast (b ! 1)) OR push_bit 16 (ucast (b ! 2)) OR
          push_bit 24 (ucast (b ! 3)))"

definition ReadLittleEndian64FromArray :: "endian \<Rightarrow> byte list \<Rightarrow> uint64" where
  "ReadLittleEndian64FromArray host b =
     (case host of
        LittleEndian \<Rightarrow> object_word LittleEndian b
      | BigEndian \<Rightarrow>
          let part0 = ucast (b ! 0) OR push_bit 8 (ucast (b ! 1)) OR push_bit 16 (ucast (b ! 2)) OR
                push_bit 24 (ucast (b ! 3)) :: uint32;
              part1 = ucast (b ! 4) OR push_bit 8 (ucast (b ! 5)) OR push_bit 16 (ucast (b ! 6)) OR
                push_bit 24 (ucast (b ! 7)) :: uint32
          in ucast part0 OR push_bit 32 (ucast part1))"

definition ReadLittleEndian32Fallback ::
    "'s zero_copy_input \<Rightarrow> endian \<Rightarrow> 's CodedInputStream \<Rightarrow> (uint32 option \<times> 's CodedInputStream) result" where
  "ReadLittleEndian32Fallback ops host c =
     (if BufferSize c \<ge> 4 then
        rbind (mem_read (ci_block c) (ci_buffer c) 4) (\<lambda>ptr.
          Inr (Some (ReadLittleEndian32FromArray host ptr), Advance 4 c))
      else rbind (ReadRaw ops 4 c) (\<lambda>(b, bytes, c).
        if \<not> b then Inr (None, c) else Inr (Some (ReadLittleEndian32FromArray host bytes), c)))"

definition ReadLittleEndian64Fallback ::
    "'s zero_copy_input \<Rightarrow> endian \<Rightarrow> 's CodedInputStream \<Rightarrow> (uint64 option \<times> 's CodedInputStream) result" where
  "ReadLittleEndian64Fallback ops host c =
     (if BufferSize c \<ge> 8 then
        rbind (mem_read (ci_block c) (ci_buffer c) 8) (\<lambda>ptr.
          Inr (Some (ReadLittleEndian64FromArray host ptr), Advance 8 c))
      else rbind (ReadRaw ops 8 c) (\<lambda>(b, bytes, c).
        if \<not> b then Inr (None, c) else Inr (Some (ReadLittleEndian64FromArray host bytes), c)))"

definition ReadLittleEndian32 ::
    "'s zero_copy_input \<Rightarrow> endian \<Rightarrow> 's CodedInputStream \<Rightarrow> (uint32 option \<times> 's CodedInputStream) result" where
  "ReadLittleEndian32 ops host c =
     (if host = LittleEndian \<and> BufferSize c \<ge> 4 then
        rbind (mem_read (ci_block c) (ci_buffer c) 4) (\<lambda>d. Inr (Some (object_word host d), Advance 4 c))
      else ReadLittleEndian32Fallback ops host c)"

definition ReadLittleEndian64 ::
    "'s zero_copy_input \<Rightarrow> endian \<Rightarrow> 's CodedInputStream \<Rightarrow> (uint64 option \<times> 's CodedInputStream) result" where
  "ReadLittleEndian64 ops host c =
     (if host = LittleEndian \<and> BufferSize c \<ge> 8 then
        rbind (mem_read (ci_block c) (ci_buffer c) 8) (\<lambda>d. Inr (Some (object_word host d), Advance 8 c))
      else ReadLittleEndian64Fallback ops host c)"

section \<open>Varints\<close>

text \<open>The memory from \<^verbatim>\<open>buffer_\<close> on, as the unchecked readers see it, and their guard.\<close>

definition buffer_mem :: "'s CodedInputStream \<Rightarrow> byte list" where
  "buffer_mem c = drop (nat (ci_buffer c)) (ci_block c)"

definition varint_in_buffer :: "'s CodedInputStream \<Rightarrow> bool result" where
  "varint_in_buffer c =
     (if BufferSize c \<ge> int kMaxVarintBytes then Inr True
      else if ci_buffer_end c > ci_buffer c then
        rbind (deref (ci_block c) (ci_buffer_end c - 1)) (\<lambda>b. Inr (b AND 0x80 = 0))
      else Inr False)"

text \<open>The inner loop of \<^verbatim>\<open>ReadVarint64Slow\<close>.\<close>

function refill :: "'s zero_copy_input \<Rightarrow> 's CodedInputStream \<Rightarrow> (bool \<times> 's CodedInputStream) result" where
  "refill ops c =
     (if ci_buffer c = ci_buffer_end c then
        rbind (Refresh ops c) (\<lambda>(b, c). if \<not> b then Inr (False, c) else refill ops c)
      else Inr (True, c))"
  by pat_completeness auto
termination
proof (relation "measure (\<lambda>(ops, c). refresh_rank c)", goal_cases)
  case (2 ops c p b c')
  then have b: "Refresh ops c = Inr (True, c')"
    by simp
  show ?case
    using Refresh_progress [OF b] by simp
qed simp

declare refill.simps [simp del]

fun ReadVarint64Slow_loop ::
    "'s zero_copy_input \<Rightarrow> nat \<Rightarrow> uint64 \<Rightarrow> 's CodedInputStream \<Rightarrow> (uint64 option \<times> 's CodedInputStream) result"
where
  "ReadVarint64Slow_loop ops 0 result c = Inr (None, c)"
| "ReadVarint64Slow_loop ops (Suc n) result c =
     (let count = kMaxVarintBytes - Suc n in
      rbind (refill ops c) (\<lambda>(ok, c).
        if \<not> ok then Inr (None, c)
        else rbind (deref (ci_block c) (ci_buffer c)) (\<lambda>b.
          let result = result OR push_bit (7 * count) (ucast (b AND 0x7F));
              c = Advance 1 c in
          if b AND 0x80 \<noteq> 0 then ReadVarint64Slow_loop ops n result c
          else Inr (Some result, c))))"

definition ReadVarint64Slow ::
    "'s zero_copy_input \<Rightarrow> 's CodedInputStream \<Rightarrow> (uint64 option \<times> 's CodedInputStream) result" where
  "ReadVarint64Slow ops c = ReadVarint64Slow_loop ops kMaxVarintBytes 0 c"

definition ReadVarint64Fallback ::
    "'s zero_copy_input \<Rightarrow> 's CodedInputStream \<Rightarrow> (uint64 option \<times> 's CodedInputStream) result" where
  "ReadVarint64Fallback ops c =
     rbind (varint_in_buffer c) (\<lambda>fast.
       if fast then
         rbind (ReadVarint64FromArray (buffer_mem c)) (\<lambda>r.
           case r of None \<Rightarrow> Inr (None, c)
           | Some (v, n) \<Rightarrow> Inr (Some v, Advance (int n) c))
       else ReadVarint64Slow ops c)"

definition ReadVarint32Slow ::
    "'s zero_copy_input \<Rightarrow> 's CodedInputStream \<Rightarrow> (uint32 option \<times> 's CodedInputStream) result" where
  "ReadVarint32Slow ops c =
     rbind (ReadVarint64Fallback ops c) (\<lambda>(r, c).
       case r of None \<Rightarrow> Inr (None, c) | Some result \<Rightarrow> Inr (Some (ucast result), c))"

definition ReadVarint32Fallback ::
    "'s zero_copy_input \<Rightarrow> 's CodedInputStream \<Rightarrow> (uint32 option \<times> 's CodedInputStream) result" where
  "ReadVarint32Fallback ops c =
     rbind (varint_in_buffer c) (\<lambda>fast.
       if fast then
         rbind (ReadVarint32FromArray (buffer_mem c)) (\<lambda>r.
           case r of None \<Rightarrow> Inr (None, c)
           | Some (v, n) \<Rightarrow> Inr (Some v, Advance (int n) c))
       else ReadVarint32Slow ops c)"

definition ReadVarint32 ::
    "'s zero_copy_input \<Rightarrow> 's CodedInputStream \<Rightarrow> (uint32 option \<times> 's CodedInputStream) result" where
  "ReadVarint32 ops c =
     rbind (if ci_buffer c < ci_buffer_end c
            then rbind (deref (ci_block c) (ci_buffer c)) (\<lambda>b. Inr (Some b)) else Inr None) (\<lambda>b0.
       case b0 of
         Some b \<Rightarrow> if b < 0x80 then Inr (Some (ucast b), Advance 1 c) else ReadVarint32Fallback ops c
       | None \<Rightarrow> ReadVarint32Fallback ops c)"

definition ReadVarint64 ::
    "'s zero_copy_input \<Rightarrow> 's CodedInputStream \<Rightarrow> (uint64 option \<times> 's CodedInputStream) result" where
  "ReadVarint64 ops c =
     rbind (if ci_buffer c < ci_buffer_end c
            then rbind (deref (ci_block c) (ci_buffer c)) (\<lambda>b. Inr (Some b)) else Inr None) (\<lambda>b0.
       case b0 of
         Some b \<Rightarrow> if b < 0x80 then Inr (Some (ucast b), Advance 1 c) else ReadVarint64Fallback ops c
       | None \<Rightarrow> ReadVarint64Fallback ops c)"

section \<open>Tags\<close>

text \<open>A tag of zero stands for the end of the message and for an error.\<close>

definition ReadTagSlow :: "'s zero_copy_input \<Rightarrow> 's CodedInputStream \<Rightarrow> (uint32 \<times> 's CodedInputStream) result" where
  "ReadTagSlow ops c =
     rbind (if ci_buffer c = ci_buffer_end c then Refresh ops c else Inr (True, c)) (\<lambda>(b, c).
       if \<not> b then
         let current_position = ci_total_bytes_read c - ci_buffer_size_after_limit c in
         Inr (0, c\<lparr>ci_legitimate_message_end :=
           (if current_position \<ge> ci_total_bytes_limit c
            then ci_current_limit c = ci_total_bytes_limit c else True)\<rparr>)
       else rbind (ReadVarint64 ops c) (\<lambda>(r, c).
         case r of None \<Rightarrow> Inr (0, c) | Some result \<Rightarrow> Inr (ucast result, c)))"

definition ReadTagFallback :: "'s zero_copy_input \<Rightarrow> 's CodedInputStream \<Rightarrow> (uint32 \<times> 's CodedInputStream) result" where
  "ReadTagFallback ops c =
     rbind (varint_in_buffer c) (\<lambda>fast.
       if fast then
         rbind (ReadVarint32FromArray (buffer_mem c)) (\<lambda>r.
           case r of None \<Rightarrow> Inr (0, c)
           | Some (tag, n) \<Rightarrow> Inr (tag, Advance (int n) c))
       else if BufferSize c = 0 \<and>
           (ci_buffer_size_after_limit c > 0 \<or> ci_total_bytes_read c = ci_current_limit c) \<and>
           ci_total_bytes_read c - ci_buffer_size_after_limit c < ci_total_bytes_limit c then
         Inr (0, c\<lparr>ci_legitimate_message_end := True\<rparr>)
       else ReadTagSlow ops c)"

definition ReadTag :: "'s zero_copy_input \<Rightarrow> 's CodedInputStream \<Rightarrow> (uint32 \<times> 's CodedInputStream) result" where
  "ReadTag ops c =
     rbind (if ci_buffer c < ci_buffer_end c
            then rbind (deref (ci_block c) (ci_buffer c)) (\<lambda>b. Inr (Some b)) else Inr None) (\<lambda>b0.
       let slow = rbind (ReadTagFallback ops c) (\<lambda>(tag, c). Inr (tag, c\<lparr>ci_last_tag := tag\<rparr>)) in
       case b0 of
         Some b \<Rightarrow>
           if b < 0x80 then Inr (ucast b, Advance 1 (c\<lparr>ci_last_tag := ucast b\<rparr>)) else slow
       | None \<Rightarrow> slow)"

definition ReadTagWithCutoff ::
    "'s zero_copy_input \<Rightarrow> uint32 \<Rightarrow> 's CodedInputStream \<Rightarrow> ((uint32 \<times> bool) \<times> 's CodedInputStream) result" where
  "ReadTagWithCutoff ops cutoff c =
     (let slow = rbind (ReadTagFallback ops c) (\<lambda>(tag, c).
            Inr ((tag, tag - 1 < cutoff), c\<lparr>ci_last_tag := tag\<rparr>)) in
      if ci_buffer c < ci_buffer_end c then
        rbind (deref (ci_block c) (ci_buffer c)) (\<lambda>b0.
          if sint b0 > 0 then
            let tag = ucast b0 in
            Inr ((tag, cutoff \<ge> 0x7F \<or> tag \<le> cutoff), Advance 1 (c\<lparr>ci_last_tag := tag\<rparr>))
          else if cutoff \<ge> 0x80 \<and> ci_buffer c + 1 < ci_buffer_end c then
            rbind (deref (ci_block c) (ci_buffer c + 1)) (\<lambda>b1.
              if (b0 AND NOT b1) \<ge> 0x80 then
                let tag = 0x80 * ucast b1 + (ucast b0 - 0x80) in
                Inr ((tag, cutoff \<ge> 0x3FFF \<or> tag \<le> cutoff), Advance 2 (c\<lparr>ci_last_tag := tag\<rparr>))
              else slow)
          else slow)
      else slow)"

definition LastTagWas :: "uint32 \<Rightarrow> 's CodedInputStream \<Rightarrow> bool" where
  "LastTagWas expected c \<longleftrightarrow> ci_last_tag c = expected"

definition ConsumedEntireMessage :: "'s CodedInputStream \<Rightarrow> bool" where
  "ConsumedEntireMessage c \<longleftrightarrow> ci_legitimate_message_end c"

definition ExpectTag :: "uint32 \<Rightarrow> 's CodedInputStream \<Rightarrow> (bool \<times> 's CodedInputStream) result" where
  "ExpectTag expected c =
     (if expected < 2 ^ 7 then
        if ci_buffer c < ci_buffer_end c then
          rbind (deref (ci_block c) (ci_buffer c)) (\<lambda>b.
            if ucast b = expected then Inr (True, Advance 1 c) else Inr (False, c))
        else Inr (False, c)
      else if expected < 2 ^ 14 then
        if BufferSize c \<ge> 2 then
          rbind (deref (ci_block c) (ci_buffer c)) (\<lambda>b0.
          rbind (deref (ci_block c) (ci_buffer c + 1)) (\<lambda>b1.
            if b0 = ucast (expected OR 0x80) \<and> b1 = ucast (drop_bit 7 expected) then Inr (True, Advance 2 c)
            else Inr (False, c)))
        else Inr (False, c)
      else Inr (False, c))"

definition ExpectTagFromArray :: "byte list \<Rightarrow> uint32 \<Rightarrow> nat option result" where
  "ExpectTagFromArray buffer expected =
     (if expected < 2 ^ 7 then
        rbind (byte_at buffer 0) (\<lambda>b. if ucast b = expected then Inr (Some 1) else Inr None)
      else if expected < 2 ^ 14 then
        rbind (byte_at buffer 0) (\<lambda>b0.
          if b0 = ucast (expected OR 0x80) then
            rbind (byte_at buffer 1) (\<lambda>b1. if b1 = ucast (drop_bit 7 expected) then Inr (Some 2) else Inr None)
          else Inr None)
      else Inr None)"

definition ExpectAtEnd :: "'s CodedInputStream \<Rightarrow> bool \<times> 's CodedInputStream" where
  "ExpectAtEnd c =
     (if ci_buffer c = ci_buffer_end c \<and>
         (ci_buffer_size_after_limit c \<noteq> 0 \<or> ci_total_bytes_read c = ci_current_limit c) then
        (True, c\<lparr>ci_last_tag := 0, ci_legitimate_message_end := True\<rparr>)
      else (False, c))"

section \<open>Recursion depth\<close>

definition SetRecursionLimit :: "int \<Rightarrow> 's CodedInputStream \<Rightarrow> 's CodedInputStream" where
  "SetRecursionLimit limit c = c\<lparr>ci_recursion_limit := limit\<rparr>"

definition IncrementRecursionDepth :: "'s CodedInputStream \<Rightarrow> bool \<times> 's CodedInputStream" where
  "IncrementRecursionDepth c =
     (let c = c\<lparr>ci_recursion_depth := ci_recursion_depth c + 1\<rparr> in
      (ci_recursion_depth c \<le> ci_recursion_limit c, c))"

definition DecrementRecursionDepth :: "'s CodedInputStream \<Rightarrow> 's CodedInputStream" where
  "DecrementRecursionDepth c =
     (if ci_recursion_depth c > 0 then c\<lparr>ci_recursion_depth := ci_recursion_depth c - 1\<rparr> else c)"

end
