(* ===== verification/Coded_Input_Spec.thy ===== *)
theory Coded_Input_Spec
  imports Coded_Input
begin

text \<open>
  What \<^verbatim>\<open>CodedInputStream\<close> promises. The abstract state of a reader is the list of bytes it may
  still read (\<open>avail\<close>): the unread bytes of its buffer and of its stream, cut off at the closest
  limit. Under the class invariant \<open>coded_ok\<close> every read is a function of that list, whatever
  the blocks the stream delivers, and no read leaves the buffer or fails a check.
\<close>

unbundle bit_operations_syntax

section \<open>Invariant and abstraction\<close>

definition closest_limit :: "'s CodedInputStream \<Rightarrow> int" where
  "closest_limit c = min (ci_current_limit c) (ci_total_bytes_limit c)"

definition coded_ok :: "('s \<Rightarrow> bool) \<Rightarrow> ('s \<Rightarrow> byte list) \<Rightarrow> 's CodedInputStream \<Rightarrow> bool" where
  "coded_ok ok lastb c \<longleftrightarrow>
     0 \<le> ci_buffer c \<and> ci_buffer c \<le> ci_buffer_end c \<and>
     (if ci_block c = [] then ci_buffer_end c = 0 \<and> ci_buffer_size_after_limit c = 0
      else int (length (ci_block c)) = ci_buffer_end c + ci_buffer_size_after_limit c + ci_overflow_bytes c) \<and>
     ci_buffer_size_after_limit c = max 0 (ci_total_bytes_read c - closest_limit c) \<and>
     0 \<le> ci_overflow_bytes c \<and> (0 < ci_overflow_bytes c \<longrightarrow> ci_total_bytes_read c = INT_MAX) \<and>
     0 \<le> CurrentPosition c \<and> ci_total_bytes_read c \<le> INT_MAX \<and>
     ci_current_limit c \<le> INT_MAX \<and> ci_total_bytes_limit c \<le> INT_MAX \<and>
     (case ci_input c of
        None \<Rightarrow> ci_current_limit c \<le> ci_total_bytes_read c \<and> ci_overflow_bytes c = 0
      | Some s \<Rightarrow> ok s \<and>
          (0 < BufferSize c + ci_buffer_size_after_limit c + ci_overflow_bytes c \<longrightarrow>
             (if ci_block c = [] then ci_overflow_bytes c \<le> int (length (lastb s)) else suffix (ci_block c) (lastb s))))"

definition pending :: "('s \<Rightarrow> byte list) \<Rightarrow> 's CodedInputStream \<Rightarrow> byte list" where
  "pending lastb c =
     (if ci_block c = [] then
        (case ci_input c of None \<Rightarrow> [] | Some s \<Rightarrow> drop (length (lastb s) - nat (ci_overflow_bytes c)) (lastb s))
      else buffer_mem c)"

definition rest :: "('s \<Rightarrow> byte list) \<Rightarrow> ('s \<Rightarrow> byte list) \<Rightarrow> 's CodedInputStream \<Rightarrow> byte list" where
  "rest bytes lastb c =
     pending lastb c @ (case ci_input c of None \<Rightarrow> [] | Some s \<Rightarrow> bytes s)"

definition avail :: "('s \<Rightarrow> byte list) \<Rightarrow> ('s \<Rightarrow> byte list) \<Rightarrow> 's CodedInputStream \<Rightarrow> byte list" where
  "avail bytes lastb c = take (nat (closest_limit c - CurrentPosition c)) (rest bytes lastb c)"

text \<open>The fields the reading position does not depend on.\<close>

lemma BufferSize_frame [simp]:
  "BufferSize (c\<lparr>ci_log := x\<rparr>) = BufferSize c"
  "BufferSize (c\<lparr>ci_total_bytes_warning_threshold := w\<rparr>) = BufferSize c"
  "BufferSize (c\<lparr>ci_last_tag := t\<rparr>) = BufferSize c"
  "BufferSize (c\<lparr>ci_legitimate_message_end := e\<rparr>) = BufferSize c"
  "BufferSize (c\<lparr>ci_recursion_depth := d\<rparr>) = BufferSize c"
  "BufferSize (c\<lparr>ci_recursion_limit := l\<rparr>) = BufferSize c"
  by (simp_all add: BufferSize_def)

lemma CurrentPosition_frame [simp]:
  "CurrentPosition (c\<lparr>ci_log := x\<rparr>) = CurrentPosition c"
  "CurrentPosition (c\<lparr>ci_total_bytes_warning_threshold := w\<rparr>) = CurrentPosition c"
  "CurrentPosition (c\<lparr>ci_last_tag := t\<rparr>) = CurrentPosition c"
  "CurrentPosition (c\<lparr>ci_legitimate_message_end := e\<rparr>) = CurrentPosition c"
  "CurrentPosition (c\<lparr>ci_recursion_depth := d\<rparr>) = CurrentPosition c"
  "CurrentPosition (c\<lparr>ci_recursion_limit := l\<rparr>) = CurrentPosition c"
  by (simp_all add: CurrentPosition_def)

lemma closest_limit_frame [simp]:
  "closest_limit (c\<lparr>ci_log := x\<rparr>) = closest_limit c"
  "closest_limit (c\<lparr>ci_total_bytes_warning_threshold := w\<rparr>) = closest_limit c"
  "closest_limit (c\<lparr>ci_last_tag := t\<rparr>) = closest_limit c"
  "closest_limit (c\<lparr>ci_legitimate_message_end := e\<rparr>) = closest_limit c"
  "closest_limit (c\<lparr>ci_recursion_depth := d\<rparr>) = closest_limit c"
  "closest_limit (c\<lparr>ci_recursion_limit := l\<rparr>) = closest_limit c"
  by (simp_all add: closest_limit_def)

lemma IsFlat_frame [simp]:
  "IsFlat (c\<lparr>ci_log := x\<rparr>) = IsFlat c"
  "IsFlat (c\<lparr>ci_total_bytes_warning_threshold := w\<rparr>) = IsFlat c"
  "IsFlat (c\<lparr>ci_last_tag := t\<rparr>) = IsFlat c"
  "IsFlat (c\<lparr>ci_legitimate_message_end := e\<rparr>) = IsFlat c"
  "IsFlat (c\<lparr>ci_recursion_depth := d\<rparr>) = IsFlat c"
  "IsFlat (c\<lparr>ci_recursion_limit := l\<rparr>) = IsFlat c"
  by (simp_all add: IsFlat_def)

lemma at_limit_frame [simp]:
  "at_limit (c\<lparr>ci_log := x\<rparr>) = at_limit c"
  "at_limit (c\<lparr>ci_total_bytes_warning_threshold := w\<rparr>) = at_limit c"
  "at_limit (c\<lparr>ci_last_tag := t\<rparr>) = at_limit c"
  "at_limit (c\<lparr>ci_legitimate_message_end := e\<rparr>) = at_limit c"
  "at_limit (c\<lparr>ci_recursion_depth := d\<rparr>) = at_limit c"
  "at_limit (c\<lparr>ci_recursion_limit := l\<rparr>) = at_limit c"
  by (simp_all add: at_limit_def)

lemma buffer_mem_frame [simp]:
  "buffer_mem (c\<lparr>ci_log := x\<rparr>) = buffer_mem c"
  "buffer_mem (c\<lparr>ci_total_bytes_warning_threshold := w\<rparr>) = buffer_mem c"
  "buffer_mem (c\<lparr>ci_last_tag := t\<rparr>) = buffer_mem c"
  "buffer_mem (c\<lparr>ci_legitimate_message_end := e\<rparr>) = buffer_mem c"
  "buffer_mem (c\<lparr>ci_recursion_depth := d\<rparr>) = buffer_mem c"
  "buffer_mem (c\<lparr>ci_recursion_limit := l\<rparr>) = buffer_mem c"
  by (simp_all add: buffer_mem_def)

lemma pending_frame [simp]:
  "pending lastb (c\<lparr>ci_log := x\<rparr>) = pending lastb c"
  "pending lastb (c\<lparr>ci_total_bytes_warning_threshold := w\<rparr>) = pending lastb c"
  "pending lastb (c\<lparr>ci_last_tag := t\<rparr>) = pending lastb c"
  "pending lastb (c\<lparr>ci_legitimate_message_end := e\<rparr>) = pending lastb c"
  "pending lastb (c\<lparr>ci_recursion_depth := d\<rparr>) = pending lastb c"
  "pending lastb (c\<lparr>ci_recursion_limit := l\<rparr>) = pending lastb c"
  by (simp_all add: pending_def split: option.split)

lemma rest_frame [simp]:
  "rest bytes lastb (c\<lparr>ci_log := x\<rparr>) = rest bytes lastb c"
  "rest bytes lastb (c\<lparr>ci_total_bytes_warning_threshold := w\<rparr>) = rest bytes lastb c"
  "rest bytes lastb (c\<lparr>ci_last_tag := t\<rparr>) = rest bytes lastb c"
  "rest bytes lastb (c\<lparr>ci_legitimate_message_end := e\<rparr>) = rest bytes lastb c"
  "rest bytes lastb (c\<lparr>ci_recursion_depth := d\<rparr>) = rest bytes lastb c"
  "rest bytes lastb (c\<lparr>ci_recursion_limit := l\<rparr>) = rest bytes lastb c"
  by (simp_all add: rest_def)

lemma coded_ok_frame [simp]:
  "coded_ok ok lastb (c\<lparr>ci_log := x\<rparr>) = coded_ok ok lastb c"
  "coded_ok ok lastb (c\<lparr>ci_total_bytes_warning_threshold := w\<rparr>) = coded_ok ok lastb c"
  "coded_ok ok lastb (c\<lparr>ci_last_tag := t\<rparr>) = coded_ok ok lastb c"
  "coded_ok ok lastb (c\<lparr>ci_legitimate_message_end := e\<rparr>) = coded_ok ok lastb c"
  "coded_ok ok lastb (c\<lparr>ci_recursion_depth := d\<rparr>) = coded_ok ok lastb c"
  "coded_ok ok lastb (c\<lparr>ci_recursion_limit := l\<rparr>) = coded_ok ok lastb c"
  by (simp_all add: coded_ok_def split: option.split)

lemma avail_frame [simp]:
  "avail bytes lastb (c\<lparr>ci_log := x\<rparr>) = avail bytes lastb c"
  "avail bytes lastb (c\<lparr>ci_total_bytes_warning_threshold := w\<rparr>) = avail bytes lastb c"
  "avail bytes lastb (c\<lparr>ci_last_tag := t\<rparr>) = avail bytes lastb c"
  "avail bytes lastb (c\<lparr>ci_legitimate_message_end := e\<rparr>) = avail bytes lastb c"
  "avail bytes lastb (c\<lparr>ci_recursion_depth := d\<rparr>) = avail bytes lastb c"
  "avail bytes lastb (c\<lparr>ci_recursion_limit := l\<rparr>) = avail bytes lastb c"
  by (simp_all add: avail_def)

lemma refresh_rank_frame [simp]:
  "refresh_rank (c\<lparr>ci_log := x\<rparr>) = refresh_rank c"
  "refresh_rank (c\<lparr>ci_total_bytes_warning_threshold := w\<rparr>) = refresh_rank c"
  "refresh_rank (c\<lparr>ci_last_tag := t\<rparr>) = refresh_rank c"
  "refresh_rank (c\<lparr>ci_legitimate_message_end := e\<rparr>) = refresh_rank c"
  "refresh_rank (c\<lparr>ci_recursion_depth := d\<rparr>) = refresh_rank c"
  "refresh_rank (c\<lparr>ci_recursion_limit := l\<rparr>) = refresh_rank c"
  by (simp_all add: refresh_rank_def)

text \<open>A reader that has consumed \<open>k\<close> more bytes of the stream, under the same limits.\<close>

definition advanced :: "('s \<Rightarrow> bool) \<Rightarrow> ('s \<Rightarrow> byte list) \<Rightarrow> ('s \<Rightarrow> byte list) \<Rightarrow> nat \<Rightarrow>
    's CodedInputStream \<Rightarrow> 's CodedInputStream \<Rightarrow> bool" where
  "advanced ok bytes lastb k c c' \<longleftrightarrow>
     coded_ok ok lastb c' \<and> rest bytes lastb c' = drop k (rest bytes lastb c) \<and>
     CurrentPosition c' = CurrentPosition c + int k \<and>
     ci_current_limit c' = ci_current_limit c \<and> ci_total_bytes_limit c' = ci_total_bytes_limit c \<and>
     IsFlat c' = IsFlat c \<and> (IsFlat c \<longrightarrow> ci_total_bytes_read c' = ci_total_bytes_read c) \<and>
     ci_recursion_depth c' = ci_recursion_depth c \<and>
     ci_recursion_limit c' = ci_recursion_limit c \<and>
     ci_legitimate_message_end c' = ci_legitimate_message_end c"

lemma advanced_trans:
  "advanced ok bytes lastb j c c' \<Longrightarrow> advanced ok bytes lastb k c' c'' \<Longrightarrow>
     advanced ok bytes lastb (j + k) c c''"
  by (auto simp: advanced_def add.commute)

lemma advanced_refl: "coded_ok ok lastb c \<Longrightarrow> advanced ok bytes lastb 0 c c"
  by (simp add: advanced_def)

lemma advanced_ok: "advanced ok bytes lastb k c c' \<Longrightarrow> coded_ok ok lastb c'"
  by (simp add: advanced_def)

lemma advanced_avail:
  "advanced ok bytes lastb k c c' \<Longrightarrow> avail bytes lastb c' = drop k (avail bytes lastb c)"
proof -
  assume a: "advanced ok bytes lastb k c c'"
  have "nat (closest_limit c - (CurrentPosition c + int k)) = nat (closest_limit c - CurrentPosition c) - k"
    by simp
  with a show ?thesis
    by (simp add: advanced_def avail_def closest_limit_def drop_take)
qed

text \<open>The buffer holds the next available bytes.\<close>

lemma coded_ok_bounds:
  assumes "coded_ok ok lastb c"
  shows "0 \<le> BufferSize c" and "BufferSize c \<le> closest_limit c - CurrentPosition c"
    and "0 \<le> ci_buffer_size_after_limit c"
    and "ci_buffer c + BufferSize c \<le> int (length (ci_block c))"
    and "0 \<le> ci_buffer c"
  using assms by (auto simp: coded_ok_def BufferSize_def CurrentPosition_def split: if_splits)

lemma buffer_mem_length:
  assumes ok: "coded_ok ok lastb c" and n: "n \<le> BufferSize c"
  shows "nat n \<le> length (buffer_mem c)"
  using coded_ok_bounds(4,5) [OF ok] n by (auto simp: buffer_mem_def)

lemma buffer_take:
  assumes ok: "coded_ok ok lastb c" and n: "0 \<le> n" "n \<le> BufferSize c"
  shows "take (nat n) (buffer_mem c) = take (nat n) (avail bytes lastb c)"
    and "nat n \<le> length (avail bytes lastb c)"
proof -
  have len: "nat n \<le> length (buffer_mem c)"
    using buffer_mem_length [OF ok n(2)] .
  have m: "nat n \<le> nat (closest_limit c - CurrentPosition c)"
    using coded_ok_bounds(2) [OF ok] n by simp
  have "take (nat n) (buffer_mem c) = take (nat n) (avail bytes lastb c) \<and> nat n \<le> length (avail bytes lastb c)"
  proof (cases "ci_block c = []")
    case True
    then have "nat n = 0"
      using len by (simp add: buffer_mem_def)
    then show ?thesis by simp
  next
    case False
    then have "rest bytes lastb c = buffer_mem c @ (case ci_input c of None \<Rightarrow> [] | Some s \<Rightarrow> bytes s)"
      by (simp add: rest_def pending_def)
    with len m show ?thesis
      by (simp add: avail_def)
  qed
  then show "take (nat n) (buffer_mem c) = take (nat n) (avail bytes lastb c)"
    and "nat n \<le> length (avail bytes lastb c)"
    by auto
qed

lemma mem_read_buffer:
  assumes ok: "coded_ok ok lastb c" and n: "0 \<le> n" "n \<le> BufferSize c"
  shows "mem_read (ci_block c) (ci_buffer c) n = Inr (take (nat n) (avail bytes lastb c))"
proof -
  have "mem_read (ci_block c) (ci_buffer c) n = Inr (take (nat n) (buffer_mem c))"
    using coded_ok_bounds(4,5) [OF ok] n by (simp add: buffer_mem_def mem_read_Inr)
  then show ?thesis
    using buffer_take(1) [OF assms] by simp
qed

lemma deref_buffer:
  assumes ok: "coded_ok ok lastb c" and n: "0 \<le> n" "n < BufferSize c"
  shows "deref (ci_block c) (ci_buffer c + n) = Inr (avail bytes lastb c ! nat n)"
    and "nat n < length (avail bytes lastb c)"
proof -
  have n': "0 \<le> n + 1" "n + 1 \<le> BufferSize c"
    using n by simp_all
  have len: "nat n < length (avail bytes lastb c)"
    using buffer_take(2) [OF ok n'] n by (metis Suc_nat_eq_nat_zadd1 add.commute less_eq_Suc_le)
  have "ci_block c ! nat (ci_buffer c + n) = buffer_mem c ! nat n"
    using n coded_ok_bounds(4,5) [OF ok] by (simp add: buffer_mem_def nat_add_distrib)
  also have "\<dots> = take (nat (n + 1)) (buffer_mem c) ! nat n"
    using n by simp
  also have "\<dots> = take (nat (n + 1)) (avail bytes lastb c) ! nat n"
    by (simp only: buffer_take(1) [OF ok n', where bytes = bytes])
  also have "\<dots> = avail bytes lastb c ! nat n"
    using n by simp
  finally show "deref (ci_block c) (ci_buffer c + n) = Inr (avail bytes lastb c ! nat n)"
    using n coded_ok_bounds(4,5) [OF ok] by (simp add: deref_def)
  show "nat n < length (avail bytes lastb c)"
    by (rule len)
qed

lemma Advance_advanced:
  assumes ok: "coded_ok ok lastb c" and n: "0 \<le> n" "n \<le> BufferSize c"
  shows "advanced ok bytes lastb (nat n) c (Advance n c)"
proof -
  have len: "nat n \<le> length (buffer_mem c)"
    using buffer_mem_length [OF ok n(2)] .
  show ?thesis
  proof (cases "ci_block c = []")
    case True
    then have "n = 0"
      using len n by (simp add: buffer_mem_def)
    then show ?thesis
      using ok by (simp add: advanced_def Advance_def)
  next
    case False
    then have "rest bytes lastb (Advance n c) = drop (nat n) (rest bytes lastb c)"
      using len n ok by (simp add: rest_def pending_def buffer_mem_def Advance_def coded_ok_def nat_add_distrib add.commute)
    moreover have "coded_ok ok lastb (Advance n c)"
      using ok n False by (auto simp: coded_ok_def Advance_def BufferSize_def CurrentPosition_def closest_limit_def
          split: option.splits)
    ultimately show ?thesis
      using n by (simp add: advanced_def Advance_def IsFlat_def CurrentPosition_def BufferSize_def)
  qed
qed

section \<open>Refreshing\<close>

lemma at_limit_avail:
  assumes "coded_ok ok lastb c" and "BufferSize c = 0"
    and "at_limit c \<or> ci_total_bytes_read c = ci_current_limit c"
  shows "avail bytes lastb c = []"
proof -
  have "closest_limit c \<le> CurrentPosition c"
    using assms by (auto simp: coded_ok_def CurrentPosition_def at_limit_def closest_limit_def)
  then show ?thesis
    by (simp add: avail_def)
qed

context zero_copy_source
begin

lemma next_non_empty_law:
  assumes "ok s"
  shows "\<exists>r s'. next_non_empty ops s = Inr (r, s') \<and> ok s' \<and>
      (case r of None \<Rightarrow> bytes s = [] \<and> bytes s' = []
       | Some d \<Rightarrow> d \<noteq> [] \<and> bytes s = d @ bytes s' \<and> suffix d (lastb s'))"
  using assms
proof (induction "gap s" arbitrary: s rule: less_induct)
  case less
  obtain r s' where n: "zi_Next ops s = Inr (r, s')" "ok s'"
    "case r of None \<Rightarrow> bytes s = [] \<and> bytes s' = []
       | Some d \<Rightarrow> bytes s = d @ bytes s' \<and> suffix d (lastb s') \<and> (d = [] \<longrightarrow> gap s' < gap s)"
    using next_law [OF less.prems] by blast
  show ?case
  proof (cases "r = Some []")
    case True
    then have "next_non_empty ops s = next_non_empty ops s'"
      using n(1) by (simp add: next_non_empty_def NextNonEmpty.simps [of ops s])
    moreover have eq: "bytes s = bytes s'" and g: "gap s' < gap s"
      using True n(3) by simp_all
    ultimately show ?thesis
      using less.hyps [OF g n(2)] unfolding eq by simp
  next
    case False
    then have "next_non_empty ops s = Inr (r, s')"
      using n(1) by (auto simp: next_non_empty_def NextNonEmpty.simps [of ops s] split: option.splits)
    with False n show ?thesis
      by (auto split: option.splits)
  qed
qed

lemma refresh_block_advanced:
  assumes c: "coded_ok ok lastb c" "BufferSize c = 0" "\<not> at_limit c"
    and s: "ci_input c = Some s" and s': "ok s'" "bytes s = d @ bytes s'" "suffix d (lastb s')" "d \<noteq> []"
  shows "advanced ok bytes lastb 0 c (refresh_block d (c\<lparr>ci_input := Some s'\<rparr>))"
proof -
  have zero: "ci_buffer_size_after_limit c = 0" "ci_overflow_bytes c = 0"
    using c by (auto simp: coded_ok_def at_limit_def)
  then have le: "ci_total_bytes_read c \<le> closest_limit c"
    using c(1) by (auto simp: coded_ok_def)
  have "pending lastb c = []"
    using c zero s by (auto simp: pending_def buffer_mem_def coded_ok_def BufferSize_def)
  then have rest: "rest bytes lastb c = d @ bytes s'"
    using s s' by (simp add: rest_def)
  obtain m where m: "length d = Suc m"
    using s'(4) by (cases d) auto
  let ?c' = "refresh_block d (c\<lparr>ci_input := Some s'\<rparr>)"
  have f: "ci_block ?c' = d" "ci_buffer ?c' = 0" "ci_input ?c' = Some s'"
    "ci_current_limit ?c' = ci_current_limit c" "ci_total_bytes_limit ?c' = ci_total_bytes_limit c"
    "ci_recursion_depth ?c' = ci_recursion_depth c" "ci_recursion_limit ?c' = ci_recursion_limit c"
    "ci_legitimate_message_end ?c' = ci_legitimate_message_end c"
    by (simp_all add: refresh_block_def RecomputeBufferLimits_def Let_def)
  have pos: "CurrentPosition ?c' = CurrentPosition c"
    using c(2) zero by (auto simp: refresh_block_def RecomputeBufferLimits_def Let_def CurrentPosition_def BufferSize_def)
  define t where "t = ci_total_bytes_read c + int (length d)"
  have v: "ci_total_bytes_read ?c' = min t INT_MAX" "ci_overflow_bytes ?c' = t - min t INT_MAX"
    "ci_buffer_size_after_limit ?c' = max 0 (min t INT_MAX - closest_limit c)"
    "ci_buffer_end ?c' = int (length d) - (t - min t INT_MAX) - max 0 (min t INT_MAX - closest_limit c)"
    using zero by (auto simp: refresh_block_def RecomputeBufferLimits_def Let_def closest_limit_def t_def)
  have cl: "closest_limit ?c' = closest_limit c"
    by (simp add: closest_limit_def f)
  have "0 \<le> int (length d) - (t - min t INT_MAX) - max 0 (min t INT_MAX - closest_limit c)"
    using le c(1) by (auto simp: t_def coded_ok_def)
  then have "coded_ok ok lastb ?c'"
    using c(1) s' unfolding coded_ok_def pos f v cl by auto
  moreover have "rest bytes lastb ?c' = d @ bytes s'"
    using s'(4) by (simp add: rest_def pending_def buffer_mem_def f)
  ultimately show ?thesis
    using s f pos rest by (simp add: advanced_def IsFlat_def)
qed

lemma Refresh_law:
  assumes c: "coded_ok ok lastb c" "BufferSize c = 0"
  shows "\<exists>b c'. Refresh ops c = Inr (b, c') \<and> advanced ok bytes lastb 0 c c' \<and>
      (\<not> b \<longrightarrow> avail bytes lastb c = [])"
proof (cases "at_limit c \<or> ci_total_bytes_read c = ci_current_limit c")
  case True
  let ?c' = "if ci_total_bytes_read c - ci_buffer_size_after_limit c \<ge> ci_total_bytes_limit c \<and>
      ci_total_bytes_limit c \<noteq> ci_current_limit c then PrintTotalBytesLimitError c else c"
  have "Refresh ops c = Inr (False, ?c')"
    using True c(2) by (auto simp: Refresh_def at_limit_def Let_def)
  moreover have "advanced ok bytes lastb 0 c ?c'"
    using c(1) by (simp add: advanced_def PrintTotalBytesLimitError_def)
  ultimately show ?thesis
    using at_limit_avail [OF c True] by blast
next
  case False
  have "ci_buffer_size_after_limit c = 0"
    using False coded_ok_bounds(3) [OF c(1)] by (simp add: at_limit_def)
  then have "ci_input c \<noteq> None"
    using c False by (cases "ci_input c") (auto simp: coded_ok_def closest_limit_def)
  then obtain s where s: "ci_input c = Some s" "ok s"
    using c(1) by (auto simp: coded_ok_def)
  let ?w = "refresh_warn c"
  have w: "coded_ok ok lastb ?w" "BufferSize ?w = 0" "\<not> at_limit ?w" "ci_input ?w = Some s"
    and adv: "advanced ok bytes lastb 0 ?w c' \<Longrightarrow> advanced ok bytes lastb 0 c c'" for c'
    using c False s by (simp_all add: refresh_warn_def advanced_def)
  obtain r s' where n: "next_non_empty ops s = Inr (r, s')" "ok s'"
    "case r of None \<Rightarrow> bytes s = [] \<and> bytes s' = []
       | Some d \<Rightarrow> d \<noteq> [] \<and> bytes s = d @ bytes s' \<and> suffix d (lastb s')"
    using next_non_empty_law [OF s(2)] by blast
  show ?thesis
  proof (cases r)
    case (Some d)
    then have "Refresh ops c = Inr (True, refresh_block d (?w\<lparr>ci_input := Some s'\<rparr>))"
      using False c(2) w n by (simp add: Refresh_def at_limit_def)
    moreover have "advanced ok bytes lastb 0 ?w (refresh_block d (?w\<lparr>ci_input := Some s'\<rparr>))"
      using Some n by (intro refresh_block_advanced [OF w]) simp_all
    ultimately show ?thesis
      using adv by blast
  next
    case None
    let ?c' = "?w\<lparr>ci_input := Some s', ci_block := [], ci_buffer := 0, ci_buffer_end := 0\<rparr>"
    have "Refresh ops c = Inr (False, ?c')"
      using False c(2) w n None by (simp add: Refresh_def at_limit_def)
    moreover have zero: "ci_buffer_size_after_limit ?w = 0" "ci_overflow_bytes ?w = 0"
      using w by (auto simp: coded_ok_def at_limit_def)
    have "pending lastb c = []"
      using c False s by (auto simp: pending_def buffer_mem_def coded_ok_def BufferSize_def at_limit_def)
    then have "rest bytes lastb c = []"
      using s n None by (simp add: rest_def)
    moreover have "coded_ok ok lastb ?c'"
      using w zero n by (auto simp: coded_ok_def BufferSize_def CurrentPosition_def closest_limit_def)
    ultimately show ?thesis
      using w zero n None s c by (auto simp: advanced_def rest_def pending_def avail_def CurrentPosition_def BufferSize_def
          IsFlat_def refresh_warn_def)
  qed
qed

section \<open>Raw bytes and strings\<close>

lemma ReadRaw_loop_law:
  assumes "coded_ok ok lastb c" and "0 \<le> n"
  shows "\<exists>c'. ReadRaw_loop ops n out c =
        Inr (nat n \<le> length (avail bytes lastb c), out @ take (nat n) (avail bytes lastb c), c') \<and>
      advanced ok bytes lastb (min (nat n) (length (avail bytes lastb c))) c c'"
  using assms
proof (induction "3 * nat n + refresh_rank c" arbitrary: n out c rule: less_induct)
  case less
  note ok = less.prems(1)
  let ?A = "avail bytes lastb c" and ?m = "BufferSize c"
  show ?case
  proof (cases "?m < n")
    case False
    then have n: "n \<le> ?m" by simp
    show ?thesis
      using mem_read_buffer [OF ok less.prems(2) n, of bytes] buffer_take(2) [OF ok less.prems(2) n, of bytes]
        Advance_advanced [OF ok less.prems(2) n, of bytes] False
      by (subst ReadRaw_loop.simps) (simp add: min_def)
  next
    case True
    note m = coded_ok_bounds(1) [OF ok]
    have adv: "advanced ok bytes lastb (nat ?m) c (Advance ?m c)"
      using m by (intro Advance_advanced [OF ok]) simp_all
    have zero: "BufferSize (Advance ?m c) = 0"
      by (simp add: BufferSize_def Advance_def)
    obtain b c' where r: "Refresh ops (Advance ?m c) = Inr (b, c')" "advanced ok bytes lastb 0 (Advance ?m c) c'"
      "\<not> b \<longrightarrow> avail bytes lastb (Advance ?m c) = []"
      using Refresh_law [OF advanced_ok [OF adv] zero] by blast
    have c': "advanced ok bytes lastb (nat ?m) c c'"
      using advanced_trans [OF adv r(2)] by simp
    note A' = advanced_avail [OF adv] advanced_avail [OF c']
    have len: "nat ?m \<le> length ?A"
      using buffer_take(2) [OF ok m] by simp
    have read: "mem_read (ci_block c) (ci_buffer c) ?m = Inr (take (nat ?m) ?A)"
      using mem_read_buffer [OF ok m] by simp
    show ?thesis
    proof (cases b)
      case False
      then have "length ?A = nat ?m"
        using r(3) A'(1) len by simp
      then show ?thesis
        using True False read r(1) c' m by (subst ReadRaw_loop.simps) (simp add: min_def)
    next
      case b: True
      have dec: "3 * nat (n - ?m) + refresh_rank c' < 3 * nat n + refresh_rank c"
        using Refresh_progress [of ops "Advance ?m c" c'] r(1) b True m refresh_rank_max [of c']
        by (cases "?m = 0") (auto simp: Advance_def)
      have nn: "0 \<le> n - ?m"
        using True by simp
      from less.hyps [OF dec advanced_ok [OF c'] nn, of "out @ take (nat ?m) ?A"]
      obtain c'' where "ReadRaw_loop ops (n - ?m) (out @ take (nat ?m) ?A) c' =
          Inr (nat (n - ?m) \<le> length (avail bytes lastb c'),
            (out @ take (nat ?m) ?A) @ take (nat (n - ?m)) (avail bytes lastb c'), c'')"
        and adv'': "advanced ok bytes lastb (min (nat (n - ?m)) (length (avail bytes lastb c'))) c' c''"
        by blast
      moreover have sub: "nat (n - ?m) = nat n - nat ?m"
        using m True by (simp add: nat_diff_distrib)
      moreover have "take (nat ?m) ?A @ take (nat n - nat ?m) (drop (nat ?m) ?A) = take (nat n) ?A"
        using m True by (metis le_add_diff_inverse nat_mono less_imp_le take_add)
      moreover have "nat n - nat ?m \<le> length ?A - nat ?m \<longleftrightarrow> nat n \<le> length ?A"
        using len m True by linarith
      ultimately have "ReadRaw_loop ops n out c = Inr (nat n \<le> length ?A, out @ take (nat n) ?A, c'')"
        using True read r(1) b A'(2) by (subst ReadRaw_loop.simps) (simp add: Let_def)
      moreover have "advanced ok bytes lastb (nat ?m + min (nat (n - ?m)) (length (avail bytes lastb c'))) c c''"
        using advanced_trans [OF c' adv''] .
      moreover have "nat ?m + min (nat (n - ?m)) (length (avail bytes lastb c')) = min (nat n) (length ?A)"
        using len True m unfolding A'(2) sub length_drop by linarith
      ultimately show ?thesis by auto
    qed
  qed
qed

lemma ReadStringFallback_loop_eq:
  assumes "coded_ok ok lastb c"
  shows "ReadStringFallback_loop ops n out c = ReadRaw_loop ops n out c"
  using assms
proof (induction "3 * nat n + refresh_rank c" arbitrary: n out c rule: less_induct)
  case less
  note ok = less.prems(1)
  let ?m = "BufferSize c"
  note m = coded_ok_bounds(1) [OF ok]
  have adv: "advanced ok bytes lastb (nat ?m) c (Advance ?m c)"
    using m by (intro Advance_advanced [OF ok]) simp_all
  have zero: "BufferSize (Advance ?m c) = 0"
    by (simp add: BufferSize_def Advance_def)
  have step: "ReadStringFallback_loop ops (n - ?m) out' c' = ReadRaw_loop ops (n - ?m) out' c'"
    if "?m < n" "Refresh ops (Advance ?m c) = Inr (True, c')" for out' c'
  proof (rule less.hyps)
    show "3 * nat (n - ?m) + refresh_rank c' < 3 * nat n + refresh_rank c"
      using Refresh_progress [of ops "Advance ?m c" c'] that m refresh_rank_max [of c']
      by (cases "?m = 0") (auto simp: Advance_def)
    show "coded_ok ok lastb c'"
      using Refresh_law [OF advanced_ok [OF adv] zero] that(2) advanced_ok by fastforce
  qed
  have "?m = 0 \<Longrightarrow> mem_read (ci_block c) (ci_buffer c) 0 = Inr []"
    using mem_read_buffer [OF ok, of 0 bytes] by simp
  then show ?case
    using step
    by (subst ReadRaw_loop.simps, subst ReadStringFallback_loop.simps)
      (auto simp: Let_def intro!: rbind_cong split: prod.splits)
qed

lemma ReadRaw_law:
  assumes "coded_ok ok lastb c" and "0 \<le> n"
  shows "\<exists>c'. ReadRaw ops n c = Inr (nat n \<le> length (avail bytes lastb c), take (nat n) (avail bytes lastb c), c') \<and>
      advanced ok bytes lastb (min (nat n) (length (avail bytes lastb c))) c c'"
  using ReadRaw_loop_law [OF assms, of "[]"] by (simp add: ReadRaw_def)

lemma ReadString_law:
  assumes ok: "coded_ok ok lastb c" and "0 \<le> n"
  shows "\<exists>c'. ReadString ops buf n c =
        Inr (nat n \<le> length (avail bytes lastb c), take (nat n) (avail bytes lastb c), c') \<and>
      advanced ok bytes lastb (min (nat n) (length (avail bytes lastb c))) c c'"
proof (cases "n \<le> BufferSize c")
  case True
  have len: "nat n \<le> length (avail bytes lastb c)"
    using buffer_take(2) [OF ok assms(2) True] .
  show ?thesis
    using mem_read_buffer [OF ok assms(2) True, of bytes] Advance_advanced [OF ok assms(2) True, of bytes] assms True len
    by (cases "n = 0") (simp_all add: ReadString_def InternalReadStringInline_def min_def advanced_refl)
next
  case False
  then show ?thesis
    using ReadRaw_law [OF assms] assms(2)
    by (simp add: ReadString_def InternalReadStringInline_def ReadStringFallback_def
        ReadStringFallback_loop_eq [OF ok] ReadRaw_def)
qed

end

end
