(* ===== verification/Coded_Input_Reads.thy ===== *)
theory Coded_Input_Reads
  imports Coded_Input_Spec
begin

text \<open>
  Integers, tags, skips and limits of \<^verbatim>\<open>CodedInputStream\<close>: each operation as a function of the
  bytes that are available, for every way the stream delivers its blocks.
\<close>

unbundle bit_operations_syntax

section \<open>Fixed-width integers\<close>

lemma take4: "4 \<le> length A \<Longrightarrow> take 4 A = [A ! 0, A ! 1, A ! 2, A ! 3]"
  by (rule nth_equalityI) (auto simp: less_Suc_eq numeral_eq_Suc)

lemma LittleEndian32_le_word: "length b = 4 \<Longrightarrow> ReadLittleEndian32FromArray host b = le_word b"
proof -
  assume "length b = 4"
  then obtain b0 b1 b2 b3 where b: "b = [b0, b1, b2, b3]"
    by (auto simp: numeral_eq_Suc length_Suc_conv)
  show ?thesis
    by (cases host) (simp_all add: ReadLittleEndian32FromArray_def object_word_def b push_bit_or push_bit_push_bit)
qed

lemma le_word_halves:
  assumes "length xs = 4" and "length ys = 4"
  shows "(le_word (xs @ ys) :: uint64) = ucast (le_word xs :: uint32) OR push_bit 32 (ucast (le_word ys :: uint32))"
proof (rule bit_word_eqI)
  fix k
  assume "k < LENGTH(64)"
  then have k: "k < 64" by simp
  show "bit (le_word (xs @ ys) :: uint64) k \<longleftrightarrow>
      bit (ucast (le_word xs :: uint32) OR push_bit 32 (ucast (le_word ys :: uint32)) :: uint64) k"
  proof (cases "k < 32")
    case True
    then have "k div 8 < 4"
      by (simp add: div_less_iff_less_mult)
    with True k assms show ?thesis
      by (simp add: bit_simps bit_le_word nth_append)
  next
    case False
    define j where "j = k - 32"
    with False have j: "k = 32 + j" by simp
    have "(32 + j) div 8 = 4 + j div 8" "(32 + j) mod 8 = j mod 8"
      by presburger+
    with j k assms show ?thesis
      by (simp add: bit_simps bit_le_word nth_append)
  qed
qed

lemma LittleEndian64_le_word: "length b = 8 \<Longrightarrow> ReadLittleEndian64FromArray host b = le_word b"
proof -
  assume l: "length b = 8"
  then obtain b0 b1 b2 b3 b4 b5 b6 b7 where b: "b = [b0, b1, b2, b3] @ [b4, b5, b6, b7]"
    by (auto simp: numeral_eq_Suc length_Suc_conv)
  have part: "ucast x0 OR push_bit 8 (ucast x1) OR push_bit 16 (ucast x2) OR push_bit 24 (ucast x3) =
      (le_word [x0, x1, x2, x3] :: uint32)" for x0 x1 x2 x3 :: byte
    by (simp add: push_bit_or push_bit_push_bit)
  have big: "ReadLittleEndian64FromArray BigEndian b =
      ucast (le_word [b0, b1, b2, b3] :: uint32) OR push_bit 32 (ucast (le_word [b4, b5, b6, b7] :: uint32))"
    unfolding part [symmetric] by (simp add: ReadLittleEndian64FromArray_def b)
  have "le_word b = ucast (le_word [b0, b1, b2, b3] :: uint32) OR
      (push_bit 32 (ucast (le_word [b4, b5, b6, b7] :: uint32)) :: uint64)"
    unfolding b by (rule le_word_halves) simp_all
  with big have "ReadLittleEndian64FromArray BigEndian b = le_word b"
    by (simp only:)
  then show ?thesis
    by (cases host) (simp_all add: ReadLittleEndian64FromArray_def object_word_def)
qed

context zero_copy_source
begin

section \<open>Varints\<close>

lemma varint_in_buffer_law:
  assumes ok: "coded_ok ok lastb c"
  defines "w \<equiv> take (nat (BufferSize c)) (avail bytes lastb c)"
  shows "varint_in_buffer c = Inr (fast_varint_guard w)" and "length w = nat (BufferSize c)"
proof -
  note m = coded_ok_bounds(1) [OF ok]
  have len: "nat (BufferSize c) \<le> length (avail bytes lastb c)"
    using buffer_take(2) [OF ok m] by simp
  then show w: "length w = nat (BufferSize c)"
    by (simp add: w_def)
  show "varint_in_buffer c = Inr (fast_varint_guard w)"
  proof (cases "BufferSize c \<ge> int kMaxVarintBytes")
    case True
    then show ?thesis
      using w by (auto simp: varint_in_buffer_def fast_varint_guard_def)
  next
    case False
    show ?thesis
    proof (cases "BufferSize c = 0")
      case True
      then show ?thesis
        using False w by (auto simp: varint_in_buffer_def fast_varint_guard_def BufferSize_def)
    next
      case nz: False
      then have n: "0 \<le> BufferSize c - 1" "BufferSize c - 1 < BufferSize c"
        using m by simp_all
      have "deref (ci_block c) (ci_buffer_end c - 1) = Inr (avail bytes lastb c ! nat (BufferSize c - 1))"
        using deref_buffer(1) [OF ok n] by (simp add: BufferSize_def)
      moreover have ne: "w \<noteq> []"
        using w nz m by auto
      moreover have "avail bytes lastb c ! nat (BufferSize c - 1) = last w"
        using w n nz m last_conv_nth [OF ne] by (simp add: w_def nat_diff_distrib)
      ultimately show ?thesis
        using False nz m w by (auto simp: varint_in_buffer_def fast_varint_guard_def BufferSize_def)
    qed
  qed
qed

lemma refill_law:
  assumes "coded_ok ok lastb c"
  shows "\<exists>b c'. refill ops c = Inr (b, c') \<and> advanced ok bytes lastb 0 c c' \<and>
      (if b then 0 < BufferSize c' else avail bytes lastb c = [])"
  using assms
proof (induction "refresh_rank c" arbitrary: c rule: less_induct)
  case less
  show ?case
  proof (cases "BufferSize c = 0")
    case True
    obtain b c' where r: "Refresh ops c = Inr (b, c')" "advanced ok bytes lastb 0 c c'"
      "\<not> b \<longrightarrow> avail bytes lastb c = []"
      using Refresh_law [OF less.prems True] by blast
    show ?thesis
    proof (cases b)
      case b: True
      have "refresh_rank c' < refresh_rank c"
        using Refresh_progress r(1) b by auto
      from less.hyps [OF this advanced_ok [OF r(2)]] obtain b' c'' where
        "refill ops c' = Inr (b', c'')" "advanced ok bytes lastb 0 c' c''"
        "if b' then 0 < BufferSize c'' else avail bytes lastb c' = []"
        by blast
      moreover have "avail bytes lastb c' = avail bytes lastb c"
        using advanced_avail [OF r(2)] by simp
      ultimately show ?thesis
        using True r b advanced_trans [OF r(2), of 0 c'']
        by (subst refill.simps) (auto simp: BufferSize_def)
    next
      case False
      then show ?thesis
        using True r by (subst refill.simps) (auto simp: BufferSize_def)
    qed
  next
    case False
    then have "refill ops c = Inr (True, c)"
      by (subst refill.simps) (simp add: BufferSize_def)
    then show ?thesis
      using False coded_ok_bounds(1) [OF less.prems] advanced_refl [OF less.prems] by auto
  qed
qed

lemma ReadVarint64Slow_loop_law:
  assumes "coded_ok ok lastb c" and "n \<le> kMaxVarintBytes" and "R < 2 ^ (7 * (kMaxVarintBytes - n))"
  shows "\<exists>c' k. advanced ok bytes lastb k c c' \<and>
    ReadVarint64Slow_loop ops n (of_nat R) c =
      Inr (map_option (\<lambda>(g, r). of_nat (R + 2 ^ (7 * (kMaxVarintBytes - n)) * varint_nat g))
        (varint_split n (avail bytes lastb c)), c') \<and>
    (case varint_split n (avail bytes lastb c) of
       None \<Rightarrow> k \<le> length (avail bytes lastb c)
     | Some (g, r) \<Rightarrow> k = length g)"
  using assms
proof (induction n arbitrary: R c)
  case 0
  then show ?case
    using advanced_refl [OF 0(1)] by fastforce
next
  case (Suc n)
  let ?count = "kMaxVarintBytes - Suc n"
  obtain b c' where r: "refill ops c = Inr (b, c')" "advanced ok bytes lastb 0 c c'"
    "if b then 0 < BufferSize c' else avail bytes lastb c = []"
    using refill_law [OF Suc.prems(1)] by blast
  note ok' = advanced_ok [OF r(2)]
  have A: "avail bytes lastb c' = avail bytes lastb c"
    using advanced_avail [OF r(2)] by simp
  show ?case
  proof (cases b)
    case False
    then show ?thesis
      using r by (intro exI [of _ c'] exI [of _ 0]) simp
  next
    case True
    have bs: "0 \<le> (0 :: int)" "0 < BufferSize c'" "0 \<le> (1 :: int)" "1 \<le> BufferSize c'"
      using True r(3) by simp_all
    have d: "deref (ci_block c') (ci_buffer c') = Inr (avail bytes lastb c ! 0)"
      and ne: "avail bytes lastb c \<noteq> []"
      using deref_buffer [OF ok' bs(1,2), of bytes] A by auto
    then obtain x xs where x: "avail bytes lastb c = x # xs"
      by (cases "avail bytes lastb c") auto
    have adv1: "advanced ok bytes lastb 1 c (Advance 1 c')"
      using advanced_trans [OF r(2) Advance_advanced [OF ok' bs(3,4)]] by simp
    have xs: "avail bytes lastb (Advance 1 c') = xs"
      using advanced_avail [OF adv1] x by simp
    define R' where "R' = R + 2 ^ (7 * ?count) * (unat x mod 128)"
    have small: "unat (of_nat R :: uint64) < 2 ^ (7 * ?count)"
      using Suc.prems(3) by (simp add: unat_of_nat)
    have digit: "(ucast (x AND 0x7F) :: uint64) = of_nat (unat x mod 128)"
      unfolding byte_and_7F [symmetric] by simp
    have "(of_nat R :: uint64) OR push_bit (7 * ?count) (ucast (x AND 0x7F)) =
        of_nat R + push_bit (7 * ?count) (of_nat (unat x mod 128))"
      unfolding digit using small by (rule or_push_add)
    also have "\<dots> = of_nat R'"
      by (simp add: R'_def push_bit_eq_mult mult.commute)
    finally have acc: "(of_nat R :: uint64) OR push_bit (7 * ?count) (ucast (x AND 0x7F)) = of_nat R'" .
    have step: "ReadVarint64Slow_loop ops (Suc n) (of_nat R) c =
        (if x AND 0x80 \<noteq> 0 then ReadVarint64Slow_loop ops n (of_nat R') (Advance 1 c')
         else Inr (Some (of_nat R'), Advance 1 c'))"
      using r(1) True d x acc by (simp add: Let_def)
    show ?thesis
    proof (cases "x AND 0x80 = 0")
      case True
      then show ?thesis
        using step x adv1 by (intro exI [of _ "Advance 1 c'"] exI [of _ 1]) (simp add: R'_def)
    next
      case False
      have kc: "kMaxVarintBytes - n = Suc ?count"
        using Suc.prems(2) by simp
      have "R' < 2 ^ (7 * ?count) * (unat x mod 128 + 1)"
        using Suc.prems(3) by (simp add: R'_def)
      also have "\<dots> \<le> 2 ^ (7 * ?count) * 2 ^ 7"
        by (rule mult_left_mono) (simp_all add: Suc_leI)
      also have "\<dots> = 2 ^ (7 * (kMaxVarintBytes - n))"
        unfolding kc by (simp add: power_add)
      finally have "R' < 2 ^ (7 * (kMaxVarintBytes - n))" .
      from Suc.IH [OF advanced_ok [OF adv1] _ this] Suc.prems(2) obtain c'' k where
        IH: "advanced ok bytes lastb k (Advance 1 c') c''"
        "ReadVarint64Slow_loop ops n (of_nat R') (Advance 1 c') =
          Inr (map_option (\<lambda>(g, r). of_nat (R' + 2 ^ (7 * (kMaxVarintBytes - n)) * varint_nat g)) (varint_split n xs), c'')"
        "case varint_split n xs of None \<Rightarrow> k \<le> length xs | Some (g, r) \<Rightarrow> k = length g"
        unfolding xs by auto
      have eq: "R' + 2 ^ (7 * (kMaxVarintBytes - n)) * varint_nat g = R + 2 ^ (7 * ?count) * varint_nat (x # g)" for g
        unfolding kc R'_def by (simp add: power_add algebra_simps)
      show ?thesis
        using step False x IH advanced_trans [OF adv1 IH(1)]
        by (intro exI [of _ c''] exI [of _ "1 + k"])
          (auto simp: eq option.map_comp comp_def case_prod_unfold split: option.splits)
    qed
  qed
qed

end

end
