(* ===== verification/Coded_Input_Laws.thy ===== *)
theory Coded_Input_Laws
  imports Coded_Input_Reads
begin

text \<open>
  What the public readers of \<^verbatim>\<open>CodedInputStream\<close> return as functions of the available
  bytes: the fast paths over the buffer and the slow paths across refreshes give the same
  result.
\<close>

unbundle bit_operations_syntax

section \<open>Varints\<close>

text \<open>Reading one varint from the available bytes.\<close>

definition reads_varint :: "('s \<Rightarrow> bool) \<Rightarrow> ('s \<Rightarrow> byte list) \<Rightarrow> ('s \<Rightarrow> byte list) \<Rightarrow>
    's CodedInputStream \<Rightarrow> 'a::len word option \<Rightarrow> 's CodedInputStream \<Rightarrow> bool" where
  "reads_varint ok bytes lastb c r c' \<longleftrightarrow>
     (let v = varint_result (avail bytes lastb c) :: ('a word \<times> nat) option in
      r = map_option fst v \<and>
      (\<exists>k. advanced ok bytes lastb k c c' \<and>
        (case v of None \<Rightarrow> k \<le> length (avail bytes lastb c) | Some (_, n) \<Rightarrow> k = n)))"

lemma varint_result_one:
  "(b :: byte) < 0x80 \<Longrightarrow> varint_result (b # xs) = Some (ucast b, 1)"
proof -
  assume "b < 0x80"
  then have "unat b < 128"
    by (simp add: word_less_nat_alt)
  then have "b AND 0x80 = 0" "(of_nat (unat b mod 128) :: 'a::len word) = ucast b"
    by (simp_all add: bit7_unat)
  moreover have k: "kMaxVarintBytes = Suc 9"
    by (simp add: kMaxVarintBytes_def)
  ultimately have "varint_split kMaxVarintBytes (b # xs) = Some ([b], xs)"
    unfolding k varint_split.simps(3) by simp
  with \<open>(of_nat (unat b mod 128) :: 'a word) = ucast b\<close> show ?thesis
    by (simp add: varint_result_def)
qed

lemma varint_result_cast:
  assumes "LENGTH('b) \<le> LENGTH('a)"
  shows "map_option (\<lambda>(v, n). (ucast v, n)) (varint_result bs :: ('a::len word \<times> nat) option) =
    (varint_result bs :: ('b::len word \<times> nat) option)"
proof -
  have "(ucast (of_nat k :: 'a word) :: 'b word) = of_nat k" for k
    using assms by (intro bit_word_eqI) (auto simp: bit_simps)
  then show ?thesis
    by (simp add: varint_result_def option.map_comp comp_def case_prod_unfold)
qed

context zero_copy_source
begin

lemma fast_path:
  assumes ok: "coded_ok ok lastb c" and fast: "varint_in_buffer c = Inr True"
  shows "ReadVarint32FromArray (buffer_mem c) = Inr (varint_result (avail bytes lastb c))"
    and "ReadVarint64FromArray (buffer_mem c) = Inr (varint_result (avail bytes lastb c))"
    and "varint_result (avail bytes lastb c) = Some (v :: 'a::len word, n) \<Longrightarrow> int n \<le> BufferSize c"
proof -
  note m = coded_ok_bounds(1) [OF ok]
  define w where "w = take (nat (BufferSize c)) (avail bytes lastb c)"
  have guard: "fast_varint_guard w" and len: "length w = nat (BufferSize c)"
    using varint_in_buffer_law [OF ok] fast by (simp_all add: w_def)
  have A: "avail bytes lastb c = w @ drop (nat (BufferSize c)) (avail bytes lastb c)"
    by (simp add: w_def)
  have "take (nat (BufferSize c)) (buffer_mem c) = w"
    using buffer_take(1) [OF ok m] by (simp add: w_def)
  then have B: "buffer_mem c = w @ drop (nat (BufferSize c)) (buffer_mem c)"
    by (metis append_take_drop_id)
  have res: "varint_result (avail bytes lastb c) = (varint_result w :: ('x::len word \<times> nat) option)"
    by (subst A) (rule varint_result_append [OF guard])
  show "ReadVarint32FromArray (buffer_mem c) = Inr (varint_result (avail bytes lastb c))"
    unfolding res by (subst B) (simp add: fast_varint_append [OF guard])
  show "ReadVarint64FromArray (buffer_mem c) = Inr (varint_result (avail bytes lastb c))"
    using fast_varint_append [OF guard, of "drop (nat (BufferSize c)) (buffer_mem c)"] A B
      varint_result_append [OF guard, of "drop (nat (BufferSize c)) (avail bytes lastb c)"] by metis
  assume "varint_result (avail bytes lastb c) = Some (v :: 'a word, n)"
  then have "varint_result w = Some (v, n)"
    using A varint_result_append [OF guard, of "drop (nat (BufferSize c)) (avail bytes lastb c)"] by metis
  then have "n \<le> length w"
    by (auto simp: varint_result_def varint_split_Some)
  then show "int n \<le> BufferSize c"
    using len m by simp
qed

lemma ReadVarint64Slow_law:
  assumes "coded_ok ok lastb c"
  shows "\<exists>r c'. ReadVarint64Slow ops c = Inr (r, c') \<and> reads_varint ok bytes lastb c r c'"
proof -
  obtain c' k where s: "advanced ok bytes lastb k c c'"
    "ReadVarint64Slow_loop ops kMaxVarintBytes 0 c =
      Inr (map_option (\<lambda>(g, r). of_nat (varint_nat g)) (varint_split kMaxVarintBytes (avail bytes lastb c)), c')"
    "case varint_split kMaxVarintBytes (avail bytes lastb c) of
       None \<Rightarrow> k \<le> length (avail bytes lastb c) | Some (g, r) \<Rightarrow> k = length g"
    using ReadVarint64Slow_loop_law [OF assms, of kMaxVarintBytes 0] by auto
  have "reads_varint ok bytes lastb c
      (map_option (\<lambda>(g, r). of_nat (varint_nat g) :: uint64) (varint_split kMaxVarintBytes (avail bytes lastb c))) c'"
    unfolding reads_varint_def Let_def
  proof (intro conjI exI [of _ k])
    show "map_option (\<lambda>(g, r). of_nat (varint_nat g)) (varint_split kMaxVarintBytes (avail bytes lastb c)) =
        map_option fst (varint_result (avail bytes lastb c) :: (uint64 \<times> nat) option)"
      by (simp add: varint_result_def option.map_comp comp_def case_prod_unfold)
    show "advanced ok bytes lastb k c c'"
      by (rule s(1))
    show "case varint_result (avail bytes lastb c) :: (uint64 \<times> nat) option of
        None \<Rightarrow> k \<le> length (avail bytes lastb c) | Some (_, n) \<Rightarrow> k = n"
      using s(3) by (auto simp: varint_result_def split: option.splits)
  qed
  with s(2) show ?thesis
    by (simp add: ReadVarint64Slow_def)
qed

lemma fast_reads:
  assumes ok: "coded_ok ok lastb c" and fast: "varint_in_buffer c = Inr True"
  defines "v \<equiv> varint_result (avail bytes lastb c) :: ('a::len word \<times> nat) option"
  shows "reads_varint ok bytes lastb c (map_option fst v)
      (case v of None \<Rightarrow> c | Some (_, n) \<Rightarrow> Advance (int n) c)"
proof (cases v)
  case None
  then show ?thesis
    using advanced_refl [OF ok] by (fastforce simp: reads_varint_def v_def Let_def)
next
  case (Some p)
  obtain x n where p: "p = (x, n)"
    by (cases p)
  have "int n \<le> BufferSize c"
    using fast_path(3) [OF ok fast] Some p unfolding v_def by simp
  then have "advanced ok bytes lastb n c (Advance (int n) c)"
    using Advance_advanced [OF ok, of "int n" bytes] by simp
  then show ?thesis
    using Some p unfolding v_def reads_varint_def Let_def by auto
qed

lemma ReadVarint64Fallback_law:
  assumes ok: "coded_ok ok lastb c"
  shows "\<exists>r c'. ReadVarint64Fallback ops c = Inr (r, c') \<and> reads_varint ok bytes lastb c r c'"
proof (cases "varint_in_buffer c = Inr True")
  case True
  have "ReadVarint64Fallback ops c = Inr (map_option fst (varint_result (avail bytes lastb c)),
      case varint_result (avail bytes lastb c) :: (uint64 \<times> nat) option of None \<Rightarrow> c | Some (_, n) \<Rightarrow> Advance (int n) c)"
    using True fast_path(2) [OF ok True] by (simp add: ReadVarint64Fallback_def split: option.splits)
  then show ?thesis
    using fast_reads [OF ok True] by blast
next
  case False
  then have "varint_in_buffer c = Inr False"
    using varint_in_buffer_law(1) [OF ok] by simp
  then show ?thesis
    using ReadVarint64Slow_law [OF ok] by (simp add: ReadVarint64Fallback_def)
qed

lemma reads_varint_cast:
  assumes "reads_varint ok bytes lastb c (r :: uint64 option) c'"
  shows "reads_varint ok bytes lastb c (map_option ucast r :: uint32 option) c'"
proof -
  have v: "(varint_result (avail bytes lastb c) :: (uint32 \<times> nat) option) =
      map_option (\<lambda>(v, n). (ucast v, n)) (varint_result (avail bytes lastb c) :: (uint64 \<times> nat) option)"
    by (rule varint_result_cast [symmetric]) simp
  show ?thesis
    using assms unfolding reads_varint_def Let_def v
    by (cases "varint_result (avail bytes lastb c) :: (uint64 \<times> nat) option") auto
qed

lemma ReadVarint32Fallback_law:
  assumes ok: "coded_ok ok lastb c"
  shows "\<exists>r c'. ReadVarint32Fallback ops c = Inr (r, c') \<and> reads_varint ok bytes lastb c r c'"
proof (cases "varint_in_buffer c = Inr True")
  case True
  have "ReadVarint32Fallback ops c = Inr (map_option fst (varint_result (avail bytes lastb c)),
      case varint_result (avail bytes lastb c) :: (uint32 \<times> nat) option of None \<Rightarrow> c | Some (_, n) \<Rightarrow> Advance (int n) c)"
    using True fast_path(1) [OF ok True] by (simp add: ReadVarint32Fallback_def split: option.splits)
  then show ?thesis
    using fast_reads [OF ok True] by blast
next
  case False
  then have F: "varint_in_buffer c = Inr False"
    using varint_in_buffer_law(1) [OF ok] by simp
  obtain r c' where "ReadVarint64Fallback ops c = Inr (r, c')" "reads_varint ok bytes lastb c r c'"
    using ReadVarint64Fallback_law [OF ok] by blast
  then have "ReadVarint32Fallback ops c = Inr (map_option ucast r, c')"
    using F by (simp add: ReadVarint32Fallback_def ReadVarint32Slow_def split: option.splits)
  then show ?thesis
    using reads_varint_cast [OF \<open>reads_varint ok bytes lastb c r c'\<close>] by blast
qed

text \<open>The one-byte fast path at the head of every reader.\<close>

lemma first_byte [consumes 1]:
  assumes ok: "coded_ok ok lastb c"
  obtains (None) "\<not> ci_buffer c < ci_buffer_end c"
  | (Some) b xs where "ci_buffer c < ci_buffer_end c" "deref (ci_block c) (ci_buffer c) = Inr b"
      "avail bytes lastb c = b # xs" "advanced ok bytes lastb 1 c (Advance 1 c)"
proof (cases "ci_buffer c < ci_buffer_end c")
  case True
  then have n: "0 \<le> (0 :: int)" "0 < BufferSize c" "0 \<le> (1 :: int)" "1 \<le> BufferSize c"
    by (simp_all add: BufferSize_def)
  have "deref (ci_block c) (ci_buffer c) = Inr (avail bytes lastb c ! 0)" "0 < length (avail bytes lastb c)"
    using deref_buffer [OF ok n(1,2), of bytes] by simp_all
  moreover have "advanced ok bytes lastb 1 c (Advance 1 c)"
    using Advance_advanced [OF ok n(3,4), of bytes] by simp
  ultimately show thesis
    using Some True by (cases "avail bytes lastb c") auto
next
  case False
  then show thesis by (rule None)
qed

lemma one_byte_reads:
  assumes "avail bytes lastb c = b # xs" "advanced ok bytes lastb 1 c (Advance 1 c)" "b < 0x80"
  shows "reads_varint ok bytes lastb c (Some (ucast b)) (Advance 1 c)"
  using assms by (simp add: reads_varint_def Let_def varint_result_one)

lemma ReadVarint64_law:
  assumes ok: "coded_ok ok lastb c"
  shows "\<exists>r c'. ReadVarint64 ops c = Inr (r, c') \<and> reads_varint ok bytes lastb c r c'"
  using ok
proof (cases rule: first_byte)
  case None
  then show ?thesis
    using ReadVarint64Fallback_law [OF ok] by (simp add: ReadVarint64_def)
next
  case (Some b xs)
  then show ?thesis
    using ReadVarint64Fallback_law [OF ok] one_byte_reads [OF Some(3,4)]
    by (cases "b < 0x80") (auto simp: ReadVarint64_def)
qed

lemma ReadVarint32_law:
  assumes ok: "coded_ok ok lastb c"
  shows "\<exists>r c'. ReadVarint32 ops c = Inr (r, c') \<and> reads_varint ok bytes lastb c r c'"
  using ok
proof (cases rule: first_byte)
  case None
  then show ?thesis
    using ReadVarint32Fallback_law [OF ok] by (simp add: ReadVarint32_def)
next
  case (Some b xs)
  then show ?thesis
    using ReadVarint32Fallback_law [OF ok] one_byte_reads [OF Some(3,4)]
    by (cases "b < 0x80") (auto simp: ReadVarint32_def)
qed

section \<open>Fixed-width integers\<close>

lemma ReadLittleEndian32_law:
  assumes ok: "coded_ok ok lastb c"
  defines "A \<equiv> avail bytes lastb c"
  shows "\<exists>c'. ReadLittleEndian32 ops host c = Inr (if 4 \<le> length A then Some (le_word (take 4 A)) else None, c') \<and>
      advanced ok bytes lastb (min 4 (length A)) c c'"
proof (cases "BufferSize c \<ge> 4")
  case True
  have read: "mem_read (ci_block c) (ci_buffer c) 4 = Inr (take 4 A)"
    using mem_read_buffer [OF ok, of 4 bytes] True by (simp add: A_def)
  have len: "4 \<le> length A"
    using buffer_take(2) [OF ok, of 4 bytes] True by (simp add: A_def)
  have "ReadLittleEndian32 ops host c = Inr (Some (le_word (take 4 A)), Advance 4 c)"
    using True read len by (cases host) (simp_all add: ReadLittleEndian32_def ReadLittleEndian32Fallback_def
        LittleEndian32_le_word object_word_def)
  then show ?thesis
    using len Advance_advanced [OF ok, of 4 bytes] True by (simp add: min_def)
next
  case False
  obtain c' where "ReadRaw ops 4 c = Inr (4 \<le> length A, take 4 A, c')" "advanced ok bytes lastb (min 4 (length A)) c c'"
    using ReadRaw_law [OF ok, of 4] by (auto simp: A_def)
  then show ?thesis
    using False by (auto simp: ReadLittleEndian32_def ReadLittleEndian32Fallback_def LittleEndian32_le_word)
qed

lemma ReadLittleEndian64_law:
  assumes ok: "coded_ok ok lastb c"
  defines "A \<equiv> avail bytes lastb c"
  shows "\<exists>c'. ReadLittleEndian64 ops host c = Inr (if 8 \<le> length A then Some (le_word (take 8 A)) else None, c') \<and>
      advanced ok bytes lastb (min 8 (length A)) c c'"
proof (cases "BufferSize c \<ge> 8")
  case True
  have read: "mem_read (ci_block c) (ci_buffer c) 8 = Inr (take 8 A)"
    using mem_read_buffer [OF ok, of 8 bytes] True by (simp add: A_def)
  have len: "8 \<le> length A"
    using buffer_take(2) [OF ok, of 8 bytes] True by (simp add: A_def)
  have "ReadLittleEndian64 ops host c = Inr (Some (le_word (take 8 A)), Advance 8 c)"
    using True read len by (cases host) (simp_all add: ReadLittleEndian64_def ReadLittleEndian64Fallback_def
        LittleEndian64_le_word object_word_def)
  then show ?thesis
    using len Advance_advanced [OF ok, of 8 bytes] True by (simp add: min_def)
next
  case False
  obtain c' where "ReadRaw ops 8 c = Inr (8 \<le> length A, take 8 A, c')" "advanced ok bytes lastb (min 8 (length A)) c c'"
    using ReadRaw_law [OF ok, of 8] by (auto simp: A_def)
  then show ?thesis
    using False by (auto simp: ReadLittleEndian64_def ReadLittleEndian64Fallback_def LittleEndian64_le_word)
qed

end

end
