(* ===== verification/Coded_Input_Limits.thy ===== *)
theory Coded_Input_Limits
  imports Coded_Input_Laws
begin

text \<open>
  Limits, tags, skips and the end of a \<^verbatim>\<open>CodedInputStream\<close>'s life: nested limits cut off the
  available bytes and give them back, and destroying a reader leaves the underlying stream at the
  first byte that was not consumed.
\<close>

unbundle bit_operations_syntax

section \<open>Limits\<close>

lemma RecomputeBufferLimits_law:
  assumes c: "coded_ok ok lastb c"
    and new: "CurrentPosition c \<le> min l t" "l \<le> INT_MAX" "t \<le> INT_MAX" "IsFlat c \<Longrightarrow> l \<le> ci_total_bytes_read c"
  defines "c' \<equiv> RecomputeBufferLimits (c\<lparr>ci_current_limit := l, ci_total_bytes_limit := t\<rparr>)"
  shows "coded_ok ok lastb c'" and "rest bytes lastb c' = rest bytes lastb c"
    and "CurrentPosition c' = CurrentPosition c"
    and "ci_current_limit c' = l" and "ci_total_bytes_limit c' = t" and "IsFlat c' = IsFlat c"
    and "ci_recursion_depth c' = ci_recursion_depth c" and "ci_recursion_limit c' = ci_recursion_limit c"
proof -
  let ?fin = "ci_buffer_end c + ci_buffer_size_after_limit c"
  let ?after = "max 0 (ci_total_bytes_read c - min l t)"
  have f: "ci_block c' = ci_block c" "ci_buffer c' = ci_buffer c" "ci_input c' = ci_input c"
    "ci_total_bytes_read c' = ci_total_bytes_read c" "ci_overflow_bytes c' = ci_overflow_bytes c"
    "ci_current_limit c' = l" "ci_total_bytes_limit c' = t"
    "ci_buffer_size_after_limit c' = ?after" "ci_buffer_end c' = ?fin - ?after"
    "ci_recursion_depth c' = ci_recursion_depth c" "ci_recursion_limit c' = ci_recursion_limit c"
    by (auto simp: c'_def RecomputeBufferLimits_def Let_def)
  show pos: "CurrentPosition c' = CurrentPosition c"
    by (simp add: CurrentPosition_def BufferSize_def f)
  have cl: "closest_limit c' = min l t"
    by (simp add: closest_limit_def f)
  have sz: "BufferSize c' + ?after = BufferSize c + ci_buffer_size_after_limit c"
    by (simp add: BufferSize_def f)
  have "ci_buffer c \<le> ?fin - ?after" and "ci_block c = [] \<Longrightarrow> ?after = 0"
    using c new(1) by (auto simp: coded_ok_def CurrentPosition_def BufferSize_def)
  with c new show "coded_ok ok lastb c'"
    unfolding coded_ok_def pos cl f sz IsFlat_def by (auto split: option.splits)
  show "rest bytes lastb c' = rest bytes lastb c"
    by (simp add: rest_def pending_def buffer_mem_def f split: option.split)
  show "ci_current_limit c' = l" "ci_total_bytes_limit c' = t" "IsFlat c' = IsFlat c"
    "ci_recursion_depth c' = ci_recursion_depth c" "ci_recursion_limit c' = ci_recursion_limit c"
    by (simp_all add: f IsFlat_def)
qed

lemma position_le_limit: "coded_ok ok lastb c \<Longrightarrow> CurrentPosition c \<le> closest_limit c"
  using coded_ok_bounds(1,2) by force

lemma PushLimit_law:
  assumes c: "coded_ok ok lastb c" and push: "PushLimit n c = (old, c')"
  shows "old = ci_current_limit c" and "coded_ok ok lastb c'"
    and "rest bytes lastb c' = rest bytes lastb c" and "CurrentPosition c' = CurrentPosition c"
    and "avail bytes lastb c' = (if 0 \<le> n then take (nat n) (avail bytes lastb c) else avail bytes lastb c)"
    and "ci_current_limit c' = min old (if 0 \<le> n \<and> n \<le> INT_MAX - CurrentPosition c then CurrentPosition c + n else INT_MAX)"
    and "ci_total_bytes_limit c' = ci_total_bytes_limit c" and "IsFlat c' = IsFlat c"
proof -
  let ?l = "min old (if 0 \<le> n \<and> n \<le> INT_MAX - CurrentPosition c then CurrentPosition c + n else INT_MAX)"
  show old: "old = ci_current_limit c"
    using push by (simp add: PushLimit_def Let_def)
  have c': "c' = RecomputeBufferLimits (c\<lparr>ci_current_limit := ?l, ci_total_bytes_limit := ci_total_bytes_limit c\<rparr>)"
    using push by (auto simp: PushLimit_def Let_def min.commute)
  have new: "CurrentPosition c \<le> min ?l (ci_total_bytes_limit c)" "?l \<le> INT_MAX" "ci_total_bytes_limit c \<le> INT_MAX"
    "IsFlat c \<Longrightarrow> ?l \<le> ci_total_bytes_read c"
    using c position_le_limit [OF c] by (auto simp: old closest_limit_def coded_ok_def IsFlat_def split: option.splits)
  note r = RecomputeBufferLimits_law [OF c new, folded c']
  show "coded_ok ok lastb c'" "rest bytes lastb c' = rest bytes lastb c" "CurrentPosition c' = CurrentPosition c"
    "ci_current_limit c' = ?l" "ci_total_bytes_limit c' = ci_total_bytes_limit c" "IsFlat c' = IsFlat c"
    using r by auto
  have lim: "closest_limit c \<le> INT_MAX"
    using c by (auto simp: coded_ok_def closest_limit_def)
  have "closest_limit c' - CurrentPosition c =
      (if 0 \<le> n then min n (closest_limit c - CurrentPosition c) else closest_limit c - CurrentPosition c)"
    using r(4,5) old lim by (auto simp: closest_limit_def)
  then show "avail bytes lastb c' = (if 0 \<le> n then take (nat n) (avail bytes lastb c) else avail bytes lastb c)"
    using r(2,3) position_le_limit [OF c] by (auto simp: avail_def min_def)
qed

lemma PopLimit_law:
  assumes c: "coded_ok ok lastb c"
    and new: "CurrentPosition c \<le> l" "l \<le> INT_MAX" "IsFlat c \<Longrightarrow> l \<le> ci_total_bytes_read c"
  shows "coded_ok ok lastb (PopLimit l c)" and "rest bytes lastb (PopLimit l c) = rest bytes lastb c"
    and "CurrentPosition (PopLimit l c) = CurrentPosition c"
    and "ci_current_limit (PopLimit l c) = l" and "ci_total_bytes_limit (PopLimit l c) = ci_total_bytes_limit c"
proof -
  let ?c' = "RecomputeBufferLimits (c\<lparr>ci_current_limit := l, ci_total_bytes_limit := ci_total_bytes_limit c\<rparr>)"
  have p: "PopLimit l c = ?c'\<lparr>ci_legitimate_message_end := False\<rparr>"
    by (simp add: PopLimit_def)
  have new': "CurrentPosition c \<le> min l (ci_total_bytes_limit c)" "l \<le> INT_MAX" "ci_total_bytes_limit c \<le> INT_MAX"
    "IsFlat c \<Longrightarrow> l \<le> ci_total_bytes_read c"
    using c new position_le_limit [OF c] by (auto simp: closest_limit_def coded_ok_def)
  note r = RecomputeBufferLimits_law [OF c new']
  show "coded_ok ok lastb (PopLimit l c)" "rest bytes lastb (PopLimit l c) = rest bytes lastb c"
    "CurrentPosition (PopLimit l c) = CurrentPosition c"
    "ci_current_limit (PopLimit l c) = l" "ci_total_bytes_limit (PopLimit l c) = ci_total_bytes_limit c"
    unfolding p using r by simp_all
qed

text \<open>
  A limit pushed, any reading under it, and the limit popped: the reader may read what follows the
  bytes consumed under the limit.
\<close>

lemma push_read_pop:
  assumes c: "coded_ok ok lastb c" and push: "PushLimit n c = (old, c1)" and adv: "advanced ok bytes lastb k c1 c2"
  shows "coded_ok ok lastb (PopLimit old c2)" and "avail bytes lastb (PopLimit old c2) = drop k (avail bytes lastb c)"
proof -
  note p = PushLimit_law [OF c push]
  have c2: "coded_ok ok lastb c2"
    using adv by (rule advanced_ok)
  have le: "ci_current_limit c1 \<le> old"
    using p(6) by simp
  have lim: "CurrentPosition c2 \<le> old" "old \<le> INT_MAX" "IsFlat c2 \<Longrightarrow> old \<le> ci_total_bytes_read c2"
  proof -
    show "CurrentPosition c2 \<le> old"
      using position_le_limit [OF c2] adv le by (auto simp: closest_limit_def advanced_def)
    show "old \<le> INT_MAX"
      using c p(1) by (simp add: coded_ok_def)
    assume flat: "IsFlat c2"
    then have flat1: "IsFlat c"
      using adv p(8) by (simp add: advanced_def)
    have "ci_total_bytes_read c1 = ci_total_bytes_read c"
      using push by (auto simp: PushLimit_def RecomputeBufferLimits_def Let_def)
    then have "ci_total_bytes_read c2 = ci_total_bytes_read c"
      using adv flat by (simp add: advanced_def)
    then show "old \<le> ci_total_bytes_read c2"
      using c flat1 p(1) by (auto simp: coded_ok_def IsFlat_def)
  qed
  note q = PopLimit_law [OF c2 lim]
  show "coded_ok ok lastb (PopLimit old c2)"
    by (rule q(1))
  have "avail bytes lastb (PopLimit old c2) =
      take (nat (closest_limit c - (CurrentPosition c + int k))) (drop k (rest bytes lastb c))"
    using q p adv by (simp add: avail_def closest_limit_def advanced_def)
  also have "\<dots> = drop k (avail bytes lastb c)"
  proof -
    have "nat (closest_limit c - (CurrentPosition c + int k)) = nat (closest_limit c - CurrentPosition c) - k"
      by simp
    then show ?thesis
      by (simp add: avail_def drop_take)
  qed
  finally show "avail bytes lastb (PopLimit old c2) = drop k (avail bytes lastb c)" .
qed

section \<open>Skipping\<close>

context zero_copy_source
begin

lemma Skip_beyond_buffer:
  assumes c: "coded_ok ok lastb c" and after: "ci_buffer_size_after_limit c = 0"
    and n: "BufferSize c < n"
  defines "A \<equiv> avail bytes lastb c"
  shows "\<exists>b c'. CodedInputStream_Skip ops n c = Inr (b, c') \<and> b = (nat n \<le> length A) \<and> coded_ok ok lastb c' \<and>
      avail bytes lastb c' = drop (nat n) A \<and> (b \<longrightarrow> advanced ok bytes lastb (nat n) c c')"
proof -
  let ?m = "BufferSize c"
  define k where "k = n - ?m"
  define c0 where "c0 = c\<lparr>ci_block := [], ci_buffer := 0, ci_buffer_end := 0\<rparr>"
  define u where "u = closest_limit c - ci_total_bytes_read c"
  note m = coded_ok_bounds(1) [OF c]
  have k: "0 < k" "n = ?m + k"
    using n by (simp_all add: k_def)
  have u0: "0 \<le> u"
    using c after by (auto simp: u_def coded_ok_def)
  have pos: "CurrentPosition c = ci_total_bytes_read c - ?m"
    using after by (simp add: CurrentPosition_def)
  have lenA: "length A = min (nat (u + ?m)) (length (rest bytes lastb c))"
    by (simp add: A_def avail_def pos u_def algebra_simps)
  have skip: "CodedInputStream_Skip ops n c =
      (if u < k then
         if u > 0 then
           case ci_input c0 of None \<Rightarrow> Inl NullDeref
           | Some input \<Rightarrow> rbind (zi_Skip ops u input) (\<lambda>(_, input).
               Inr (False, c0\<lparr>ci_input := Some input, ci_total_bytes_read := closest_limit c\<rparr>))
         else Inr (False, c0)
       else
         case ci_input c0 of None \<Rightarrow> Inl NullDeref
         | Some input \<Rightarrow> rbind (zi_Skip ops k input) (\<lambda>(b, input).
             Inr (b, c0\<lparr>ci_input := Some input, ci_total_bytes_read := ci_total_bytes_read c + k\<rparr>)))"
    using n m after
    by (auto simp: CodedInputStream_Skip_def Let_def c0_def u_def k_def closest_limit_def cong: option.case_cong)
  show ?thesis
  proof (cases "u < k \<and> u = 0")
    case True
    then have "CodedInputStream_Skip ops n c = Inr (False, c0)"
      using skip by simp
    moreover have "coded_ok ok lastb c0"
    proof (cases "ci_input c")
      case None
      then show ?thesis
        using c after m by (auto simp: coded_ok_def c0_def BufferSize_def CurrentPosition_def closest_limit_def)
    next
      case (Some s)
      have "ci_overflow_bytes c \<le> int (length (lastb s))" if "0 < ci_overflow_bytes c"
      proof (cases "ci_block c = []")
        case True
        then show ?thesis
          using c Some that m after by (auto simp: coded_ok_def)
      next
        case False
        then have "suffix (ci_block c) (lastb s)" "ci_overflow_bytes c \<le> int (length (ci_block c))"
          using c Some that m after by (auto simp: coded_ok_def)
        then show ?thesis
          using suffix_length_le by fastforce
      qed
      then show ?thesis
        using c Some after m by (auto simp: coded_ok_def c0_def BufferSize_def CurrentPosition_def closest_limit_def)
    qed
    moreover have "closest_limit c0 \<le> CurrentPosition c0"
      using True after by (simp add: c0_def closest_limit_def CurrentPosition_def BufferSize_def u_def)
    ultimately show ?thesis
      using True k m lenA by (auto simp: avail_def)
  next
    case False
    with u0 k have upos: "0 < u"
      by auto
    have ov: "ci_overflow_bytes c = 0"
      using c upos by (auto simp: coded_ok_def u_def closest_limit_def)
    have "ci_input c \<noteq> None"
      using c upos by (cases "ci_input c") (auto simp: coded_ok_def u_def closest_limit_def)
    then obtain s where s: "ci_input c = Some s" "ok s"
      using c by (auto simp: coded_ok_def)
    have lenP: "length (pending lastb c) = nat ?m"
      using c s ov after by (auto simp: pending_def buffer_mem_def coded_ok_def BufferSize_def)
    have rest: "rest bytes lastb c = pending lastb c @ bytes s"
      using s by (simp add: rest_def)
    have c1: "coded_ok ok lastb (c0\<lparr>ci_input := Some s', ci_total_bytes_read := t\<rparr>)"
      "CurrentPosition (c0\<lparr>ci_input := Some s', ci_total_bytes_read := t\<rparr>) = t"
      "rest bytes lastb (c0\<lparr>ci_input := Some s', ci_total_bytes_read := t\<rparr>) = bytes s'"
      if "ok s'" "0 \<le> t" "t \<le> closest_limit c" for s' t
      using c that ov after by (auto simp: coded_ok_def c0_def BufferSize_def CurrentPosition_def closest_limit_def
          rest_def pending_def)
    have tot: "0 \<le> ci_total_bytes_read c" "ci_total_bytes_read c + u = closest_limit c"
      using c after m by (auto simp: coded_ok_def CurrentPosition_def u_def)
    show ?thesis
    proof (cases "u < k")
      case True
      obtain b s' where s': "zi_Skip ops u s = Inr (b, s')" "ok s'"
        using skip_law [OF s(2)] upos by (metis less_imp_le)
      let ?c' = "c0\<lparr>ci_input := Some s', ci_total_bytes_read := closest_limit c\<rparr>"
      have "CodedInputStream_Skip ops n c = Inr (False, ?c')"
        using skip True upos s' s by (simp add: c0_def)
      moreover have "closest_limit ?c' = closest_limit c"
        by (simp add: closest_limit_def c0_def)
      ultimately show ?thesis
        using c1 [OF s'(2), of "closest_limit c"] tot upos True k m lenA by (auto simp: avail_def)
    next
      case F: False
      then have ku: "k \<le> u" by simp
      have k0: "0 \<le> k" using k by simp
      obtain b s' where s': "zi_Skip ops k s = Inr (b, s')" "ok s'" "0 < k \<longrightarrow> b = (k \<le> int (length (bytes s)))"
        "bytes s' = drop (nat k) (bytes s)"
        using skip_law [OF s(2) k0] by blast
      let ?c' = "c0\<lparr>ci_input := Some s', ci_total_bytes_read := ci_total_bytes_read c + k\<rparr>"
      have r: "CodedInputStream_Skip ops n c = Inr (b, ?c')"
        using skip F s' s by (simp add: c0_def)
      note c' = c1 [OF s'(2), of "ci_total_bytes_read c + k"]
      have nk: "nat n = nat ?m + nat k"
        using k m by (simp add: nat_add_distrib)
      have adv: "advanced ok bytes lastb (nat n) c ?c'"
        using c' tot ku k m s s' rest lenP pos nk
        by (auto simp: advanced_def c0_def IsFlat_def)
      have "b = (nat n \<le> length A)"
        using s'(3) k ku m lenA rest lenP nk u0 by (auto simp: nat_add_distrib)
      with r adv show ?thesis
        using advanced_avail [OF adv] advanced_ok [OF adv] A_def by blast
    qed
  qed
qed

lemma Skip_law:
  assumes c: "coded_ok ok lastb c" and n: "0 \<le> n"
  shows "\<exists>b c'. CodedInputStream_Skip ops n c = Inr (b, c') \<and> b = (nat n \<le> length (avail bytes lastb c)) \<and>
      coded_ok ok lastb c' \<and> avail bytes lastb c' = drop (nat n) (avail bytes lastb c) \<and>
      (b \<longrightarrow> advanced ok bytes lastb (nat n) c c')"
proof -
  note m = coded_ok_bounds(1) [OF c]
  consider "n \<le> BufferSize c" | "BufferSize c < n" "ci_buffer_size_after_limit c = 0"
    | "BufferSize c < n" "0 < ci_buffer_size_after_limit c"
    using coded_ok_bounds(3) [OF c] by linarith
  then show ?thesis
  proof cases
    case 1
    have adv: "advanced ok bytes lastb (nat n) c (Advance n c)"
      using Advance_advanced [OF c n 1] .
    have "CodedInputStream_Skip ops n c = Inr (True, Advance n c)"
      using n 1 by (simp add: CodedInputStream_Skip_def)
    then show ?thesis
      using adv advanced_ok [OF adv] advanced_avail [OF adv] buffer_take(2) [OF c n 1, of bytes] by auto
  next
    case 2
    then show ?thesis
      using Skip_beyond_buffer [OF c 2(2,1)] by blast
  next
    case 3
    have adv: "advanced ok bytes lastb (nat (BufferSize c)) c (Advance (BufferSize c) c)"
      using Advance_advanced [OF c m] by simp
    have "closest_limit c - CurrentPosition c = BufferSize c"
      using c 3(2) by (auto simp: coded_ok_def CurrentPosition_def)
    then have "length (avail bytes lastb c) \<le> nat (BufferSize c)"
      by (simp add: avail_def)
    moreover have "CodedInputStream_Skip ops n c = Inr (False, Advance (BufferSize c) c)"
      using n 3 by (simp add: CodedInputStream_Skip_def)
    ultimately show ?thesis
      using advanced_ok [OF adv] advanced_avail [OF adv] 3(1) m by auto
  qed
qed

section \<open>Handing the stream back\<close>

lemma suffix_drop: "suffix b l \<Longrightarrow> i \<le> length b \<Longrightarrow> drop (length l - (length b - i)) l = drop i b"
  by (auto simp: suffix_def)

lemma dtor_law:
  assumes c: "coded_ok ok lastb c" and s: "ci_input c = Some s"
  shows "\<exists>c' s'. CodedInputStream_dtor ops c = Inr c' \<and> ci_input c' = Some s' \<and> ok s' \<and>
      bytes s' = rest bytes lastb c"
proof -
  note m = coded_ok_bounds [OF c]
  let ?n = "BufferSize c + ci_buffer_size_after_limit c + ci_overflow_bytes c"
  have oks: "ok s"
    using c s by (simp add: coded_ok_def)
  show ?thesis
  proof (cases "?n > 0")
    case False
    then have "?n = 0"
      using m c by (auto simp: coded_ok_def)
    then have "pending lastb c = []"
      using c s m by (auto simp: pending_def buffer_mem_def coded_ok_def BufferSize_def)
    then show ?thesis
      using False s oks by (auto simp: CodedInputStream_dtor_def BackUpInputToCurrentPosition_def Let_def rest_def)
  next
    case True
    have len: "?n \<le> int (length (lastb s))" and pend: "pending lastb c = drop (length (lastb s) - nat ?n) (lastb s)"
    proof -
      show "?n \<le> int (length (lastb s))"
      proof (cases "ci_block c = []")
        case b: True
        then show ?thesis
          using c s True by (auto simp: coded_ok_def BufferSize_def)
      next
        case b: False
        then have "suffix (ci_block c) (lastb s)" "?n \<le> int (length (ci_block c))"
          using c s True by (auto simp: coded_ok_def BufferSize_def)
        then show ?thesis
          using suffix_length_le by fastforce
      qed
      show "pending lastb c = drop (length (lastb s) - nat ?n) (lastb s)"
      proof (cases "ci_block c = []")
        case b: True
        then have "?n = ci_overflow_bytes c"
          using c by (auto simp: coded_ok_def BufferSize_def)
        then show ?thesis
          using b s by (simp add: pending_def)
      next
        case b: False
        then have suff: "suffix (ci_block c) (lastb s)"
          and le: "nat (ci_buffer c) \<le> length (ci_block c)"
          and n: "nat ?n = length (ci_block c) - nat (ci_buffer c)"
          using c s True by (auto simp: coded_ok_def BufferSize_def)
        show ?thesis
          using b suffix_drop [OF suff le] n by (simp add: pending_def buffer_mem_def)
      qed
    qed
    obtain s' where s': "zi_BackUp ops ?n s = Inr s'" "ok s'"
      "bytes s' = drop (length (lastb s) - nat ?n) (lastb s) @ bytes s"
      using backup_law [OF oks True len] by blast
    then show ?thesis
      using True s pend by (auto simp: CodedInputStream_dtor_def BackUpInputToCurrentPosition_def Let_def rest_def)
  qed
qed

end

section \<open>Tags\<close>

text \<open>Where a message may end: at the end of the stream or at a pushed limit, not at the total limit.\<close>

definition legitimate_end :: "'s CodedInputStream \<Rightarrow> bool" where
  "legitimate_end c \<longleftrightarrow> CurrentPosition c < ci_total_bytes_limit c \<or> ci_current_limit c = ci_total_bytes_limit c"

definition tag_of :: "byte list \<Rightarrow> uint32" where
  "tag_of bs = (case varint_result bs of None \<Rightarrow> 0 | Some (v, _) \<Rightarrow> v)"

text \<open>
  What reading a tag does. At the end of the available bytes the flag tells a legitimate end from
  the total limit, provided that it was clear before.
\<close>

definition reads_tag :: "('s \<Rightarrow> bool) \<Rightarrow> ('s \<Rightarrow> byte list) \<Rightarrow> ('s \<Rightarrow> byte list) \<Rightarrow>
    's CodedInputStream \<Rightarrow> uint32 \<Rightarrow> 's CodedInputStream \<Rightarrow> bool" where
  "reads_tag ok bytes lastb c tag c' \<longleftrightarrow>
     (let A = avail bytes lastb c in
      if A = [] then tag = 0 \<and> advanced ok bytes lastb 0 c (c'\<lparr>ci_legitimate_message_end := ci_legitimate_message_end c\<rparr>) \<and>
        (\<not> ConsumedEntireMessage c \<longrightarrow> ConsumedEntireMessage c' = legitimate_end c)
      else tag = tag_of A \<and> reads_varint ok bytes lastb c (map_option fst (varint_result A :: (uint32 \<times> nat) option)) c')"

lemma advanced_frame [simp]:
  "advanced ok bytes lastb k c (c'\<lparr>ci_last_tag := t\<rparr>) = advanced ok bytes lastb k c c'"
  by (simp add: advanced_def)

lemma advanced_legitimate:
  "advanced ok bytes lastb k c c' \<Longrightarrow>
     advanced ok bytes lastb k c (c'\<lparr>ci_legitimate_message_end := ci_legitimate_message_end c\<rparr>)"
  "advanced ok bytes lastb k c c' \<Longrightarrow>
     advanced ok bytes lastb k c (c'\<lparr>ci_legitimate_message_end := e, ci_legitimate_message_end := ci_legitimate_message_end c\<rparr>)"
  by (simp_all add: advanced_def)

lemma reads_varint_frame [simp]:
  "reads_varint ok bytes lastb c r (c'\<lparr>ci_last_tag := t\<rparr>) = reads_varint ok bytes lastb c r c'"
  by (simp add: reads_varint_def)

lemma reads_tag_frame [simp]:
  "reads_tag ok bytes lastb c tag (c'\<lparr>ci_last_tag := t\<rparr>) = reads_tag ok bytes lastb c tag c'"
  by (simp add: reads_tag_def ConsumedEntireMessage_def advanced_def)

context zero_copy_source
begin

lemma varint_result_Nil [simp]: "varint_result [] = None"
proof -
  have k: "kMaxVarintBytes = Suc 9"
    by (simp add: kMaxVarintBytes_def)
  show ?thesis
    unfolding varint_result_def k varint_split.simps by simp
qed

lemma buffered_avail: "coded_ok ok lastb c \<Longrightarrow> avail bytes lastb c = [] \<Longrightarrow> BufferSize c = 0"
  using buffer_take(2) [of ok lastb c "BufferSize c" bytes] coded_ok_bounds(1) [of ok lastb c] by auto

lemma reads_tagI:
  assumes "avail bytes lastb c \<noteq> []" and "reads_varint ok bytes lastb c (r :: uint32 option) c'"
  shows "reads_tag ok bytes lastb c (case r of None \<Rightarrow> 0 | Some v \<Rightarrow> v) c'"
  using assms unfolding reads_tag_def tag_of_def
  by (cases "varint_result (avail bytes lastb c) :: (uint32 \<times> nat) option") (auto simp: reads_varint_def Let_def)

lemma reads_varint_trans:
  assumes a: "advanced ok bytes lastb 0 c c1" and v: "reads_varint ok bytes lastb c1 r c'"
  shows "reads_varint ok bytes lastb c r c'"
proof -
  have A: "avail bytes lastb c1 = avail bytes lastb c"
    using advanced_avail [OF a] by simp
  have "advanced ok bytes lastb k c1 c' \<Longrightarrow> advanced ok bytes lastb k c c'" for k
    using advanced_trans [OF a] by simp
  then show ?thesis
    using v unfolding reads_varint_def Let_def A by blast
qed

lemma ReadTagSlow_law:
  assumes c: "coded_ok ok lastb c"
  shows "\<exists>tag c'. ReadTagSlow ops c = Inr (tag, c') \<and> reads_tag ok bytes lastb c tag c'"
proof -
  have step: "\<exists>b c1. (if ci_buffer c = ci_buffer_end c then Refresh ops c else Inr (True, c)) = Inr (b, c1) \<and>
      advanced ok bytes lastb 0 c c1 \<and> (\<not> b \<longrightarrow> avail bytes lastb c = [] \<and> BufferSize c1 = 0)"
  proof (cases "ci_buffer c = ci_buffer_end c")
    case True
    then have z: "BufferSize c = 0"
      by (simp add: BufferSize_def)
    obtain b c1 where r: "Refresh ops c = Inr (b, c1)" "advanced ok bytes lastb 0 c c1"
      "\<not> b \<longrightarrow> avail bytes lastb c = []"
      using Refresh_law [OF c z] by blast
    have "BufferSize c1 = 0" if "\<not> b"
    proof -
      have "avail bytes lastb c1 = []"
        using advanced_avail [OF r(2)] r(3) that by simp
      then show ?thesis
        by (rule buffered_avail [OF advanced_ok [OF r(2)]])
    qed
    with r True show ?thesis by auto
  next
    case False
    then show ?thesis
      using advanced_refl [OF c] by auto
  qed
  then obtain b c1 where s: "(if ci_buffer c = ci_buffer_end c then Refresh ops c else Inr (True, c)) = Inr (b, c1)"
    "advanced ok bytes lastb 0 c c1" "\<not> b \<longrightarrow> avail bytes lastb c = [] \<and> BufferSize c1 = 0"
    by blast
  show ?thesis
  proof (cases b)
    case False
    have pos: "ci_total_bytes_read c1 - ci_buffer_size_after_limit c1 = CurrentPosition c"
      using s False by (simp add: advanced_def CurrentPosition_def)
    let ?c' = "c1\<lparr>ci_legitimate_message_end := legitimate_end c\<rparr>"
    have "ReadTagSlow ops c = Inr (0, ?c')"
      using s False pos by (auto simp: ReadTagSlow_def Let_def legitimate_end_def advanced_def not_le
          intro!: arg_cong [where f = "\<lambda>e. c1\<lparr>ci_legitimate_message_end := e\<rparr>"])
    moreover have "reads_tag ok bytes lastb c 0 ?c'"
      using s(3) False advanced_legitimate(2) [OF s(2)] by (simp add: reads_tag_def ConsumedEntireMessage_def)
    ultimately show ?thesis by blast
  next
    case True
    obtain r c' where v: "ReadVarint64 ops c1 = Inr (r, c')" "reads_varint ok bytes lastb c1 r c'"
      using ReadVarint64_law [OF advanced_ok [OF s(2)]] by blast
    have "ReadTagSlow ops c = Inr (case map_option ucast r of None \<Rightarrow> 0 | Some v \<Rightarrow> v, c')"
      using s(1) True v(1) by (simp add: ReadTagSlow_def split: option.splits)
    moreover have rv: "reads_varint ok bytes lastb c (map_option ucast r :: uint32 option) c'"
      using reads_varint_cast [OF reads_varint_trans [OF s(2) v(2)]] .
    have "reads_tag ok bytes lastb c (case map_option ucast r of None \<Rightarrow> 0 | Some v \<Rightarrow> v) c'"
    proof (cases "avail bytes lastb c = []")
      case False
      then show ?thesis
        using reads_tagI [OF _ rv] by simp
    next
      case e: True
      have adv: "advanced ok bytes lastb 0 c c'"
        using rv e by (auto simp: reads_varint_def)
      then have "ci_legitimate_message_end c' = ci_legitimate_message_end c"
        by (simp add: advanced_def)
      moreover have "\<not> legitimate_end c"
      proof -
        have z: "BufferSize c = 0"
          using buffered_avail [OF c e] .
        then have r: "Refresh ops c = Inr (True, c1)"
          using s(1) True by (simp add: BufferSize_def split: if_splits)
        have lim: "\<not> at_limit c" "ci_total_bytes_read c \<noteq> ci_current_limit c"
          using r z by (auto simp: Refresh_def at_limit_def Let_def split: if_splits)
        have "BufferSize c1 = 0"
          using buffered_avail [OF advanced_ok [OF s(2)]] advanced_avail [OF s(2)] e by simp
        moreover have "refresh_rank c1 = 0"
          using Refresh_progress [OF r] coded_ok_bounds(3) [OF c] by (auto simp: refresh_rank_def split: if_splits)
        ultimately have "at_limit c1"
          by (auto simp: refresh_rank_def split: if_splits)
        with \<open>BufferSize c1 = 0\<close> have "closest_limit c1 \<le> CurrentPosition c1"
          using advanced_ok [OF s(2)] by (auto simp: coded_ok_def CurrentPosition_def at_limit_def closest_limit_def)
        then have "closest_limit c \<le> CurrentPosition c"
          using s(2) by (simp add: advanced_def closest_limit_def)
        moreover have "ci_buffer_size_after_limit c = 0"
          using lim(1) coded_ok_bounds(3) [OF c] by (simp add: at_limit_def)
        ultimately show ?thesis
          using c lim z by (auto simp: legitimate_end_def coded_ok_def closest_limit_def CurrentPosition_def)
      qed
      ultimately show ?thesis
        using e rv advanced_legitimate(1) [OF adv]
        by (simp add: reads_tag_def ConsumedEntireMessage_def reads_varint_def)
    qed
    ultimately show ?thesis by blast
  qed
qed

lemma fast_reads_tag:
  assumes c: "coded_ok ok lastb c" and fast: "varint_in_buffer c = Inr True"
  defines "v \<equiv> varint_result (avail bytes lastb c) :: (uint32 \<times> nat) option"
  shows "reads_tag ok bytes lastb c (case v of None \<Rightarrow> 0 | Some (t, _) \<Rightarrow> t)
      (case v of None \<Rightarrow> c | Some (_, n) \<Rightarrow> Advance (int n) c)"
proof -
  have "avail bytes lastb c \<noteq> []"
    using fast varint_in_buffer_law(1) [OF c] by (auto simp: fast_varint_guard_def kMaxVarintBytes_def)
  moreover have "(case v of None \<Rightarrow> 0 | Some (t, _) \<Rightarrow> t) = (case map_option fst v of None \<Rightarrow> 0 | Some t \<Rightarrow> t)"
    by (cases v) auto
  ultimately show ?thesis
    using reads_tagI [OF _ fast_reads [OF c fast, where 'a = 32]] unfolding v_def by simp
qed

lemma ReadTagFallback_law:
  assumes c: "coded_ok ok lastb c"
  shows "\<exists>tag c'. ReadTagFallback ops c = Inr (tag, c') \<and> reads_tag ok bytes lastb c tag c'"
proof (cases "varint_in_buffer c = Inr True")
  case True
  let ?v = "varint_result (avail bytes lastb c) :: (uint32 \<times> nat) option"
  have "ReadTagFallback ops c = Inr (case ?v of None \<Rightarrow> 0 | Some (t, _) \<Rightarrow> t,
      case ?v of None \<Rightarrow> c | Some (_, n) \<Rightarrow> Advance (int n) c)"
    using True fast_path(1) [OF c True] by (simp add: ReadTagFallback_def split: option.splits)
  then show ?thesis
    using fast_reads_tag [OF c True] by blast
next
  case False
  then have F: "varint_in_buffer c = Inr False"
    using varint_in_buffer_law(1) [OF c] by simp
  show ?thesis
  proof (cases "BufferSize c = 0 \<and> (ci_buffer_size_after_limit c > 0 \<or> ci_total_bytes_read c = ci_current_limit c) \<and>
      ci_total_bytes_read c - ci_buffer_size_after_limit c < ci_total_bytes_limit c")
    case True
    then have "avail bytes lastb c = []"
      using at_limit_avail [OF c] by (auto simp: at_limit_def)
    moreover have "legitimate_end c"
      using True by (simp add: legitimate_end_def CurrentPosition_def)
    moreover have "ReadTagFallback ops c = Inr (0, c\<lparr>ci_legitimate_message_end := True\<rparr>)"
      using F True by (simp add: ReadTagFallback_def)
    ultimately show ?thesis
      using advanced_legitimate(2) [OF advanced_refl [OF c], of bytes True]
      by (simp add: reads_tag_def ConsumedEntireMessage_def)
  next
    case slow: False
    then have "ReadTagFallback ops c = ReadTagSlow ops c"
      using F by (auto simp: ReadTagFallback_def)
    then show ?thesis
      using ReadTagSlow_law [OF c] by simp
  qed
qed

lemma one_byte_reads_tag:
  assumes "avail bytes lastb c = b # xs" "advanced ok bytes lastb 1 c (Advance 1 c)" "b < 0x80"
  shows "reads_tag ok bytes lastb c (ucast b) (Advance 1 c)"
  using reads_tagI [OF _ one_byte_reads [OF assms, where 'a = 32]] assms(1) by simp

lemma ReadTag_law:
  assumes c: "coded_ok ok lastb c"
  shows "\<exists>tag c'. ReadTag ops c = Inr (tag, c') \<and> reads_tag ok bytes lastb c tag c' \<and> ci_last_tag c' = tag"
proof -
  obtain tag c' where f: "ReadTagFallback ops c = Inr (tag, c')" "reads_tag ok bytes lastb c tag c'"
    using ReadTagFallback_law [OF c] by blast
  have slow: "rbind (ReadTagFallback ops c) (\<lambda>(tag, c). Inr (tag, c\<lparr>ci_last_tag := tag\<rparr>)) =
      Inr (tag, c'\<lparr>ci_last_tag := tag\<rparr>)"
    using f(1) by simp
  from c show ?thesis
  proof (cases rule: first_byte)
    case None
    then show ?thesis
      using slow f(2) by (simp add: ReadTag_def Let_def)
  next
    case (Some b xs)
    have adv: "Advance 1 (c\<lparr>ci_last_tag := ucast b\<rparr>) = (Advance 1 c)\<lparr>ci_last_tag := ucast b\<rparr>"
      by (simp add: Advance_def)
    show ?thesis
    proof (cases "b < 0x80")
      case True
      then show ?thesis
        using Some one_byte_reads_tag [OF Some(3,4) True] by (simp add: ReadTag_def Let_def adv)
    next
      case False
      then show ?thesis
        using Some slow f(2) by (simp add: ReadTag_def Let_def)
    qed
  qed
qed

end

end
