(* ===== verification/Coded_Input_Props.thy ===== *)
theory Coded_Input_Props
  imports Coded_Input_Limits
begin

text \<open>
  The contract of \<^verbatim>\<open>CodedInputStream\<close>, for every stream that keeps the documented contract of
  \<^verbatim>\<open>ZeroCopyInputStream\<close>, and what happens to a flat array larger than the default total limit.
\<close>

unbundle bit_operations_syntax

section \<open>Tags with a cutoff\<close>

lemma bit7_and: "bit (b :: byte) 7 \<longleftrightarrow> b AND 0x80 \<noteq> 0"
proof -
  have "\<not> bit b 7 \<Longrightarrow> b AND 0x80 = 0"
    by (intro bit_word_eqI) (auto simp: bit_simps)
  moreover have "bit (b AND 0x80) 7 \<longleftrightarrow> bit b 7"
    by (simp add: bit_simps)
  ultimately show ?thesis
    by fastforce
qed

lemma positive_char: "0 < sint (b :: byte) \<Longrightarrow> b < 0x80"
proof -
  assume "0 < sint b"
  then have "\<not> bit b 7"
    using bit_last_iff [of b] by simp
  then show ?thesis
    by (simp add: bit7_and bit7_unat word_less_nat_alt)
qed

lemma two_byte_tag:
  assumes "(b0 AND NOT b1 :: byte) \<ge> 0x80"
  shows "varint_result (b0 # b1 # xs) = Some (0x80 * ucast b1 + (ucast b0 - 0x80) :: uint32, 2)"
    and "(0x80 * ucast b1 + (ucast b0 - 0x80) :: uint32) \<le> 0x3FFF"
proof -
  have "128 \<le> unat (b0 AND NOT b1)"
    using assms by (simp add: word_le_nat_alt)
  then have "bit (b0 AND NOT b1) 7"
    by (simp add: bit7_and bit7_unat)
  then have b: "b0 AND 0x80 \<noteq> 0" "b1 AND 0x80 = 0"
    using bit7_and [of b0] bit7_and [of b1] by (simp_all add: bit_simps)
  have k: "kMaxVarintBytes = Suc (Suc 8)"
    by (simp add: kMaxVarintBytes_def)
  have split: "varint_split kMaxVarintBytes (b0 # b1 # xs) = Some ([b0, b1], xs)"
    unfolding k varint_split.simps using b by simp
  have v: "of_nat (varint_nat [b0, b1]) = (0x80 * ucast b1 + (ucast b0 - 0x80) :: uint32)"
    using b by (simp add: byte_cont byte_last)
  then show "varint_result (b0 # b1 # xs) = Some (0x80 * ucast b1 + (ucast b0 - 0x80) :: uint32, 2)"
    by (simp only: varint_result_def split) simp
  have "varint_nat [b0, b1] \<le> 0x3FFF"
  proof -
    have "unat b0 mod 128 \<le> 127" "unat b1 mod 128 \<le> 127"
      by (simp_all add: less_Suc_eq_le [symmetric])
    then show ?thesis by simp
  qed
  then have "unat (of_nat (varint_nat [b0, b1]) :: uint32) \<le> 0x3FFF"
    by (simp add: unat_of_nat del: varint_nat.simps)
  then show "(0x80 * ucast b1 + (ucast b0 - 0x80) :: uint32) \<le> 0x3FFF"
    unfolding v by (simp add: word_le_nat_alt)
qed

lemma minus_one_less: "(t :: uint32) \<noteq> 0 \<Longrightarrow> t - 1 < cutoff \<longleftrightarrow> t \<le> cutoff"
proof -
  assume "t \<noteq> 0"
  then have "0 < unat t"
    by (simp add: unat_gt_0)
  with \<open>t \<noteq> 0\<close> show ?thesis
    unfolding word_less_nat_alt word_le_nat_alt by (auto simp: unat_minus_one)
qed

lemma unat_ucast_byte: "unat (ucast (b :: byte) :: uint32) = unat b"
proof -
  have "unat b < 2 ^ LENGTH(8)"
    by (rule unsigned_less)
  then show ?thesis
    unfolding unsigned_ucast_eq by (intro take_bit_nat_eq_self) simp
qed

context zero_copy_source
begin

lemma ReadTagWithCutoff_law:
  assumes c: "coded_ok ok lastb c"
  shows "\<exists>tag b c'. ReadTagWithCutoff ops cutoff c = Inr ((tag, b), c') \<and> reads_tag ok bytes lastb c tag c' \<and>
      ci_last_tag c' = tag \<and> (tag \<noteq> 0 \<longrightarrow> b = (tag \<le> cutoff))"
proof -
  obtain tag c' where f: "ReadTagFallback ops c = Inr (tag, c')" "reads_tag ok bytes lastb c tag c'"
    using ReadTagFallback_law [OF c] by blast
  have slow: "\<exists>tag b c'. r = Inr ((tag, b), c') \<and> reads_tag ok bytes lastb c tag c' \<and>
      ci_last_tag c' = tag \<and> (tag \<noteq> 0 \<longrightarrow> b = (tag \<le> cutoff))"
    if "r = rbind (ReadTagFallback ops c) (\<lambda>(tag, c). Inr ((tag, tag - 1 < cutoff), c\<lparr>ci_last_tag := tag\<rparr>))" for r
    using that f minus_one_less [of tag cutoff] by auto
  from c show ?thesis
  proof (cases rule: first_byte)
    case None
    then show ?thesis
      by (intro slow) (simp add: ReadTagWithCutoff_def)
  next
    case (Some b xs)
    show ?thesis
    proof (cases "sint b > 0")
      case True
      then have b: "b < 0x80"
        by (rule positive_char)
      then have small: "(ucast b :: uint32) \<le> 0x7F"
        by (simp add: word_le_nat_alt word_less_nat_alt unat_ucast_byte)
      have "cutoff \<ge> 0x7F \<or> (ucast b :: uint32) \<le> cutoff \<longleftrightarrow> (ucast b :: uint32) \<le> cutoff"
        using small order_trans by blast
      moreover have "Advance 1 (c\<lparr>ci_last_tag := ucast b\<rparr>) = (Advance 1 c)\<lparr>ci_last_tag := ucast b\<rparr>"
        by (simp add: Advance_def)
      ultimately show ?thesis
        using Some True one_byte_reads_tag [OF Some(3,4) b] by (simp add: ReadTagWithCutoff_def Let_def)
    next
      case neg: False
      show ?thesis
      proof (cases "cutoff \<ge> 0x80 \<and> ci_buffer c + 1 < ci_buffer_end c")
        case True
        have n: "0 \<le> (1 :: int)" "1 < BufferSize c" "0 \<le> (2 :: int)" "2 \<le> BufferSize c"
          using True by (simp_all add: BufferSize_def)
        have d: "deref (ci_block c) (ci_buffer c + 1) = Inr (avail bytes lastb c ! 1)" "1 < length (avail bytes lastb c)"
          using deref_buffer [OF c n(1,2), of bytes] by simp_all
        then obtain b1 ys where xs: "xs = b1 # ys"
          using Some(3) by (cases xs) auto
        have adv: "advanced ok bytes lastb 2 c (Advance 2 c)"
          using Advance_advanced [OF c n(3,4), of bytes] by simp
        show ?thesis
        proof (cases "(b AND NOT b1) \<ge> 0x80")
          case two: True
          let ?t = "0x80 * ucast b1 + (ucast b - 0x80) :: uint32"
          have r: "varint_result (avail bytes lastb c) = Some (?t, 2)"
            using two_byte_tag(1) [OF two] Some(3) xs by simp
          have "reads_tag ok bytes lastb c ?t (Advance 2 c)"
            using adv r Some(3) by (simp add: reads_tag_def tag_of_def reads_varint_def)
          moreover have "cutoff \<ge> 0x3FFF \<or> ?t \<le> cutoff \<longleftrightarrow> ?t \<le> cutoff"
            using two_byte_tag(2) [OF two] order_trans by blast
          moreover have "Advance 2 (c\<lparr>ci_last_tag := ?t\<rparr>) = (Advance 2 c)\<lparr>ci_last_tag := ?t\<rparr>"
            by (simp add: Advance_def)
          ultimately show ?thesis
            using Some neg True d two xs by (simp add: ReadTagWithCutoff_def Let_def)
        next
          case False
          then show ?thesis
            using Some neg True d xs by (intro slow) (simp add: ReadTagWithCutoff_def Let_def)
        qed
      next
        case False
        then show ?thesis
          using Some neg by (intro slow) (auto simp: ReadTagWithCutoff_def Let_def)
      qed
    qed
  qed
qed

section \<open>New readers\<close>

lemma stream_reader_ok:
  assumes "ok s"
  shows "\<exists>c. CodedInputStream_stream ops s = Inr c \<and> coded_ok ok lastb c \<and> rest bytes lastb c = bytes s \<and>
      CurrentPosition c = 0 \<and> avail bytes lastb c = take 67108864 (bytes s) \<and> ci_input c \<noteq> None"
proof -
  let ?c0 = "\<lparr>ci_input = Some s, ci_block = [], ci_buffer = 0, ci_buffer_end = 0, ci_total_bytes_read = 0,
        ci_overflow_bytes = 0, ci_last_tag = 0, ci_legitimate_message_end = False, ci_current_limit = INT_MAX,
        ci_buffer_size_after_limit = 0, ci_total_bytes_limit = kDefaultTotalBytesLimit,
        ci_total_bytes_warning_threshold = kDefaultTotalBytesWarningThreshold, ci_recursion_depth = 0,
        ci_recursion_limit = default_recursion_limit, ci_log = []\<rparr>"
  have c0: "coded_ok ok lastb ?c0" "BufferSize ?c0 = 0"
    using assms by (simp_all add: coded_ok_def BufferSize_def CurrentPosition_def closest_limit_def INT_MAX_def
        kDefaultTotalBytesLimit_def)
  obtain b c where c: "Refresh ops ?c0 = Inr (b, c)" "advanced ok bytes lastb 0 ?c0 c"
    using Refresh_law [OF c0] by blast
  have r0: "rest bytes lastb ?c0 = bytes s" "CurrentPosition ?c0 = 0" "avail bytes lastb ?c0 = take 67108864 (bytes s)"
    by (simp_all add: rest_def pending_def CurrentPosition_def BufferSize_def avail_def closest_limit_def INT_MAX_def
        kDefaultTotalBytesLimit_def)
  have "ci_input c \<noteq> None"
    using c(2) by (simp add: advanced_def IsFlat_def)
  then show ?thesis
    using c r0 advanced_avail [OF c(2)] by (auto simp: CodedInputStream_stream_def advanced_def)
qed

end

lemma flat_reader_ok:
  assumes "length data \<le> 67108864"
  shows "coded_ok ok lastb (CodedInputStream_array data (int (length data)))"
    and "avail bytes lastb (CodedInputStream_array data (int (length data))) = data"
  using assms by (auto simp: coded_ok_def CodedInputStream_array_def BufferSize_def CurrentPosition_def closest_limit_def
      INT_MAX_def kDefaultTotalBytesLimit_def avail_def rest_def pending_def buffer_mem_def)

section \<open>The contract\<close>

text \<open>
  C8. Every read of a \<^verbatim>\<open>CodedInputStream\<close> is a function of the bytes available to it (the rest of
  the stream up to the closest limit), whatever blocks the stream delivers and wherever the buffer
  ends: raw reads and strings take a prefix or fail, fixed-width integers are the little-endian
  words, varints are decoded as by the plain reference, skips drop bytes; all of them consume what
  they return, keep the invariant and never fault.
\<close>

theorem coded_reads_refine:
  assumes "zero_copy_source ops ok bytes lastb gap" and "coded_ok ok lastb c" and "0 \<le> n"
    and "A = avail bytes lastb c"
  shows "(\<exists>c'. ReadRaw ops n c = Inr (nat n \<le> length A, take (nat n) A, c') \<and>
        advanced ok bytes lastb (min (nat n) (length A)) c c') \<and>
    (\<exists>c'. ReadString ops buf n c = Inr (nat n \<le> length A, take (nat n) A, c') \<and>
        advanced ok bytes lastb (min (nat n) (length A)) c c') \<and>
    (\<exists>c'. ReadLittleEndian32 ops host c = Inr (if 4 \<le> length A then Some (le_word (take 4 A)) else None, c') \<and>
        advanced ok bytes lastb (min 4 (length A)) c c') \<and>
    (\<exists>c'. ReadLittleEndian64 ops host c = Inr (if 8 \<le> length A then Some (le_word (take 8 A)) else None, c') \<and>
        advanced ok bytes lastb (min 8 (length A)) c c') \<and>
    (\<exists>r c'. ReadVarint32 ops c = Inr (r, c') \<and> reads_varint ok bytes lastb c r c') \<and>
    (\<exists>r c'. ReadVarint64 ops c = Inr (r, c') \<and> reads_varint ok bytes lastb c r c') \<and>
    (\<exists>b c'. CodedInputStream_Skip ops n c = Inr (b, c') \<and> b = (nat n \<le> length A) \<and>
        coded_ok ok lastb c' \<and> avail bytes lastb c' = drop (nat n) A)"
  using zero_copy_source.ReadRaw_law [OF assms(1-3)] zero_copy_source.ReadString_law [OF assms(1-3), of buf]
    zero_copy_source.ReadLittleEndian32_law [OF assms(1,2), of host]
    zero_copy_source.ReadLittleEndian64_law [OF assms(1,2), of host]
    zero_copy_source.ReadVarint32_law [OF assms(1,2)] zero_copy_source.ReadVarint64_law [OF assms(1,2)]
    zero_copy_source.Skip_law [OF assms(1-3)]
  unfolding assms(4) by blast

theorem coded_reads_refine_witness:
  "let c = CodedInputStream_array [0x96, 1, 7] 3 :: ArrayInputStream CodedInputStream in
   (\<exists>c'. ReadRaw array_input 2 c = Inr (True, [0x96, 1], c')) \<and> (\<exists>c'. ReadLittleEndian32 array_input LittleEndian c = Inr (None, c'))"
proof -
  let ?c = "CodedInputStream_array [0x96, 1, 7] 3 :: ArrayInputStream CodedInputStream"
  have c: "coded_ok array_ok array_last ?c" "avail array_bytes array_last ?c = [0x96, 1, 7]"
    using flat_reader_ok [of "[0x96, 1, 7]"] by simp_all
  show ?thesis
    using coded_reads_refine [OF arr.zero_copy_source_axioms c(1) _ c(2) [symmetric], of 2 "[]" LittleEndian] by (auto simp: Let_def)
qed

text \<open>
  C33. Both tag readers return the same tag: the next varint, or zero where it is malformed or no
  byte is available; in the latter case \<^verbatim>\<open>ConsumedEntireMessage\<close> tells whether the message ends
  there legitimately, at the end of the stream or at a pushed limit but not at the total limit. The cutoff
  reader tells correctly whether a non-zero tag is at most the cutoff.
\<close>

theorem coded_tags:
  assumes "zero_copy_source ops ok bytes lastb gap" and "coded_ok ok lastb c"
  shows "\<exists>tag c' b c''. ReadTag ops c = Inr (tag, c') \<and> reads_tag ok bytes lastb c tag c' \<and> LastTagWas tag c' \<and>
    ReadTagWithCutoff ops cutoff c = Inr ((tag, b), c'') \<and> reads_tag ok bytes lastb c tag c'' \<and> LastTagWas tag c'' \<and>
    (tag \<noteq> 0 \<longrightarrow> b = (tag \<le> cutoff))"
proof -
  obtain tag c' where t: "ReadTag ops c = Inr (tag, c')" "reads_tag ok bytes lastb c tag c'" "ci_last_tag c' = tag"
    using zero_copy_source.ReadTag_law [OF assms] by blast
  obtain tag' b c'' where u: "ReadTagWithCutoff ops cutoff c = Inr ((tag', b), c'')"
    "reads_tag ok bytes lastb c tag' c''" "ci_last_tag c'' = tag'" "tag' \<noteq> 0 \<longrightarrow> b = (tag' \<le> cutoff)"
    using zero_copy_source.ReadTagWithCutoff_law [OF assms] by blast
  have "tag' = tag"
    using t(2) u(2) by (simp add: reads_tag_def Let_def split: if_splits)
  with t u show ?thesis
    by (auto simp: LastTagWas_def)
qed

theorem coded_tags_witness:
  "\<exists>c'. ReadTag array_input (CodedInputStream_array [0x96, 1] 2) = Inr (0x96, c')"
proof -
  let ?c = "CodedInputStream_array [0x96, 1] 2 :: ArrayInputStream CodedInputStream"
  have c: "coded_ok array_ok array_last ?c" "avail array_bytes array_last ?c = [0x96, 1]"
    using flat_reader_ok [of "[0x96, 1]"] by simp_all
  have "tag_of [0x96, 1] = 0x96"
    by code_simp
  then show ?thesis
    using coded_tags [OF arr.zero_copy_source_axioms c(1), of 100] c(2) by (auto simp: reads_tag_def Let_def)
qed

text \<open>
  C34. Limits nest. Pushing a limit of \<open>n\<close> bytes leaves the first \<open>n\<close> available bytes (all of them
  for a negative or overflowing \<open>n\<close>); after any reading under it, popping it makes available what
  follows the consumed bytes up to the old limit.
\<close>

theorem coded_limits:
  assumes "coded_ok ok lastb c" and "PushLimit n c = (old, c1)" and "advanced ok bytes lastb k c1 c2"
  shows "coded_ok ok lastb c1 \<and>
    avail bytes lastb c1 = (if 0 \<le> n then take (nat n) (avail bytes lastb c) else avail bytes lastb c) \<and>
    coded_ok ok lastb (PopLimit old c2) \<and>
    avail bytes lastb (PopLimit old c2) = drop k (avail bytes lastb c)"
  using PushLimit_law(2,5) [OF assms(1,2)] push_read_pop [OF assms] by blast

theorem coded_limits_witness:
  "avail array_bytes array_last (snd (PushLimit 2 (CodedInputStream_array [1, 2, 3] 3))) = [1, 2]"
proof -
  let ?c = "CodedInputStream_array [1, 2, 3] 3 :: ArrayInputStream CodedInputStream"
  have c: "coded_ok array_ok array_last ?c" "avail array_bytes array_last ?c = [1, 2, 3]"
    using flat_reader_ok [of "[1, 2, 3]"] by simp_all
  obtain old c1 where p: "PushLimit 2 ?c = (old, c1)"
    by fastforce
  have "advanced array_ok array_bytes array_last 0 c1 c1"
    using PushLimit_law(2) [OF c(1) p] by (rule advanced_refl)
  from coded_limits [OF c(1) p this] show ?thesis
    using c(2) p by simp
qed

text \<open>
  C35. A reader made on a stream may read its first 64 MiB; destroying it after \<open>k\<close> bytes were
  consumed leaves the underlying stream at the byte after them, so that the next reader continues
  where this one stopped.
\<close>

theorem coded_handoff:
  assumes "zero_copy_source ops ok bytes lastb gap" and "ok s"
  shows "\<exists>c. CodedInputStream_stream ops s = Inr c \<and> coded_ok ok lastb c \<and>
    avail bytes lastb c = take 67108864 (bytes s) \<and>
    (\<forall>k c'. advanced ok bytes lastb k c c' \<longrightarrow>
      (\<exists>c'' s'. CodedInputStream_dtor ops c' = Inr c'' \<and> ci_input c'' = Some s' \<and> ok s' \<and> bytes s' = drop k (bytes s)))"
proof -
  obtain c where c: "CodedInputStream_stream ops s = Inr c" "coded_ok ok lastb c" "rest bytes lastb c = bytes s"
    "avail bytes lastb c = take 67108864 (bytes s)" "ci_input c \<noteq> None"
    using zero_copy_source.stream_reader_ok [OF assms] by blast
  have "\<exists>c'' s'. CodedInputStream_dtor ops c' = Inr c'' \<and> ci_input c'' = Some s' \<and> ok s' \<and> bytes s' = drop k (bytes s)"
    if adv: "advanced ok bytes lastb k c c'" for k c'
  proof -
    obtain s1 where "ci_input c' = Some s1"
      using adv c(5) by (auto simp: advanced_def IsFlat_def)
    then show ?thesis
      using zero_copy_source.dtor_law [OF assms(1) advanced_ok [OF adv]] adv c(3) by (simp add: advanced_def)
  qed
  with c show ?thesis by blast
qed

theorem coded_handoff_witness:
  "\<exists>c. CodedInputStream_stream array_input (ArrayInputStream_ctor [1, 2, 3] 3 2) = Inr c \<and>
     avail array_bytes array_last c = [1, 2, 3]"
  using coded_handoff [OF arr.zero_copy_source_axioms array_ok_ctor [of 3 "[1, 2, 3]" 2]] by auto

text \<open>
  The constructor on a flat array does not apply the total limit. On an array of more than
  64 MiB, a limit pushed beyond that point moves \<^verbatim>\<open>buffer_end_\<close> in front of \<^verbatim>\<open>buffer_\<close>; the next string is
  then read with a negative number of buffered bytes.
\<close>

lemma flat_array_over_limit:
  fixes ops :: "'s zero_copy_input"
  assumes "length data = 67108866"
  shows "\<exists>c1. ReadRaw ops 67108865 (CodedInputStream_array data 67108866) = Inr (True, take 67108865 data, c1) \<and>
    BufferSize (snd (PushLimit 1 c1)) = - 1 \<and> ReadString ops [] 1 (snd (PushLimit 1 c1)) = Inl OutOfBounds"
proof -
  let ?c = "CodedInputStream_array data 67108866 :: 's CodedInputStream"
  let ?c1 = "Advance 67108865 ?c"
  have read: "ReadRaw ops 67108865 ?c = Inr (True, take 67108865 data, ?c1)"
    using assms by (simp add: ReadRaw_def ReadRaw_loop.simps BufferSize_def CodedInputStream_array_def mem_read_def read_block_def)
  have push: "BufferSize (snd (PushLimit 1 ?c1)) = - 1"
    by (simp add: PushLimit_def Let_def Advance_def CodedInputStream_array_def RecomputeBufferLimits_def BufferSize_def
        CurrentPosition_def kDefaultTotalBytesLimit_def INT_MAX_def)
  then have "ReadString ops [] 1 (snd (PushLimit 1 ?c1)) = Inl OutOfBounds"
    by (simp add: ReadString_def InternalReadStringInline_def ReadStringFallback_def ReadStringFallback_loop.simps mem_read_def Let_def)
  with read push show ?thesis by blast
qed

end
