(* ===== verification/Coded_Roundtrip.thy ===== *)
theory Coded_Roundtrip
  imports Coded_Output Coded_Input_Props
begin

text \<open>
  What \<^verbatim>\<open>CodedOutputStream\<close> promises: a sequence of writes leaves the concatenated encodings on the
  stream below, whatever blocks that stream lends; and \<^verbatim>\<open>CodedInputStream\<close> reads the same values back
  from any stream that delivers these bytes.
\<close>

unbundle bit_operations_syntax

section \<open>Items on the wire\<close>

datatype wire_item =
    Raw "byte list"
  | Fixed32 uint32
  | Fixed64 uint64
  | Varint32 uint32
  | Varint64 uint64
  | Int32 int32
  | Tag uint32

primrec encode :: "wire_item \<Rightarrow> byte list" where
  "encode (Raw xs) = xs"
| "encode (Fixed32 v) = le_bytes 4 v"
| "encode (Fixed64 v) = le_bytes 8 v"
| "encode (Varint32 v) = varint_loop v"
| "encode (Varint64 v) = varint_loop v"
| "encode (Int32 v) = varint_loop (scast v :: uint64)"
| "encode (Tag v) = varint_loop v"

primrec put_item :: "'s zero_copy_output \<Rightarrow> wire_item \<Rightarrow> 's CodedOutputStream \<Rightarrow> 's CodedOutputStream result" where
  "put_item ops (Raw xs) c = WriteRaw ops xs c"
| "put_item ops (Fixed32 v) c = WriteLittleEndian32 ops v c"
| "put_item ops (Fixed64 v) c = WriteLittleEndian64 ops v c"
| "put_item ops (Varint32 v) c = WriteVarint32 ops v c"
| "put_item ops (Varint64 v) c = WriteVarint64 ops v c"
| "put_item ops (Int32 v) c = WriteVarint32SignExtended ops v c"
| "put_item ops (Tag v) c = WriteTag ops v c"

primrec put_items :: "'s zero_copy_output \<Rightarrow> wire_item list \<Rightarrow> 's CodedOutputStream \<Rightarrow> 's CodedOutputStream result" where
  "put_items ops [] c = Inr c"
| "put_items ops (x # xs) c = rbind (put_item ops x c) (put_items ops xs)"

text \<open>Reading an item of the kind, and for raw bytes of the length, of a given one.\<close>

primrec get_item ::
    "'s zero_copy_input \<Rightarrow> endian \<Rightarrow> wire_item \<Rightarrow> 's CodedInputStream \<Rightarrow> (wire_item option \<times> 's CodedInputStream) result" where
  "get_item ops host (Raw xs) c =
     rbind (ReadRaw ops (int (length xs)) c) (\<lambda>(b, ys, c). Inr (if b then Some (Raw ys) else None, c))"
| "get_item ops host (Fixed32 v) c = rbind (ReadLittleEndian32 ops host c) (\<lambda>(r, c). Inr (map_option Fixed32 r, c))"
| "get_item ops host (Fixed64 v) c = rbind (ReadLittleEndian64 ops host c) (\<lambda>(r, c). Inr (map_option Fixed64 r, c))"
| "get_item ops host (Varint32 v) c = rbind (ReadVarint32 ops c) (\<lambda>(r, c). Inr (map_option Varint32 r, c))"
| "get_item ops host (Varint64 v) c = rbind (ReadVarint64 ops c) (\<lambda>(r, c). Inr (map_option Varint64 r, c))"
| "get_item ops host (Int32 v) c = rbind (ReadVarint32 ops c) (\<lambda>(r, c). Inr (map_option Int32 r, c))"
| "get_item ops host (Tag v) c = rbind (ReadTag ops c) (\<lambda>(t, c). Inr (Some (Tag t), c))"

primrec get_items ::
    "'s zero_copy_input \<Rightarrow> endian \<Rightarrow> wire_item list \<Rightarrow> 's CodedInputStream \<Rightarrow>
      (wire_item option list \<times> 's CodedInputStream) result" where
  "get_items ops host [] c = Inr ([], c)"
| "get_items ops host (x # xs) c =
     rbind (get_item ops host x c) (\<lambda>(r, c). rbind (get_items ops host xs c) (\<lambda>(rs, c). Inr (r # rs, c)))"

section \<open>Writing\<close>

lemma WriteLittleEndian32ToArray_bytes: "WriteLittleEndian32ToArray v = le_bytes 4 v"
  by (simp add: WriteLittleEndian32ToArray_def le_bytes_def upt_conv_Cons)

lemma WriteLittleEndian64ToArray_bytes: "WriteLittleEndian64ToArray v = le_bytes 8 v"
proof -
  have "(ucast (drop_bit n (ucast v :: uint32)) :: byte) = ucast (drop_bit n v)" if "n \<le> 24" for n
    using that by (intro bit_word_eqI) (auto simp: bit_simps)
  moreover have "(ucast (drop_bit n (ucast (drop_bit 32 v) :: uint32)) :: byte) = ucast (drop_bit (32 + n) v)" if "n \<le> 24" for n
    using that by (intro bit_word_eqI) (auto simp: bit_simps ac_simps)
  ultimately show ?thesis
    using \<open>\<And>n. n \<le> 24 \<Longrightarrow> (ucast (drop_bit n (ucast v :: uint32)) :: byte) = ucast (drop_bit n v)\<close> [of 0]
      \<open>\<And>n. n \<le> 24 \<Longrightarrow> (ucast (drop_bit n (ucast (drop_bit 32 v) :: uint32)) :: byte) = ucast (drop_bit (32 + n) v)\<close> [of 0]
    by (simp add: WriteLittleEndian64ToArray_def le_bytes_def upt_conv_Cons Let_def)
qed

context zero_copy_sink
begin

lemma WriteVarint32_law:
  "writer_ok ok out held start c \<Longrightarrow> \<exists>c'. WriteVarint32 ops v c = Inr c' \<and> appends ok out held cap start (varint_loop v) c c'"
  by (rule fast_or_raw_law [where n = 5])
    (use length_varint_loop_max(2) [of v] in \<open>auto simp: WriteVarint32_def WriteVarint32_loop kMaxVarint32Bytes_def\<close>)

lemma WriteVarint64_law:
  "writer_ok ok out held start c \<Longrightarrow> \<exists>c'. WriteVarint64 ops v c = Inr c' \<and> appends ok out held cap start (varint_loop v) c c'"
  by (rule fast_or_raw_law [where n = 10])
    (use length_varint_loop_max(1) [of v] in \<open>auto simp: WriteVarint64_def WriteVarint64_loop kMaxVarintBytes_def\<close>)

lemma put_item_law:
  assumes c: "writer_ok ok out held start c"
  shows "\<exists>c'. put_item ops x c = Inr c' \<and> appends ok out held cap start (encode x) c c'"
proof (cases x)
  case (Raw xs)
  then show ?thesis
    using WriteRaw_law [OF c] by simp
next
  case (Fixed32 v)
  then show ?thesis
    using fast_or_raw_law [OF c, of "le_bytes 4 v" 4] by (simp add: WriteLittleEndian32_def WriteLittleEndian32ToArray_bytes Let_def)
next
  case (Fixed64 v)
  then show ?thesis
    using fast_or_raw_law [OF c, of "le_bytes 8 v" 8] by (simp add: WriteLittleEndian64_def WriteLittleEndian64ToArray_bytes Let_def)
next
  case (Int32 v)
  show ?thesis
  proof (cases "sint v < 0")
    case True
    then show ?thesis
      using Int32 WriteVarint64_law [OF c, of "scast v"] by (simp add: WriteVarint32SignExtended_def)
  next
    case False
    then have "varint_loop v = varint_loop (scast v :: uint64)"
      by (intro varint_loop_width) (simp_all add: unat_scast_nonneg)
    then show ?thesis
      using Int32 False WriteVarint32_law [OF c, of v] by (simp add: WriteVarint32SignExtended_def)
  qed
qed (use WriteVarint32_law [OF c] WriteVarint64_law [OF c] in \<open>simp_all add: WriteTag_def\<close>)

lemma put_items_law:
  assumes "writer_ok ok out held start c"
  shows "\<exists>c'. put_items ops xs c = Inr c' \<and> writer_ok ok out held start c' \<and> cap (co_output c') = cap (co_output c) \<and>
    (\<not> co_had_error c' \<longrightarrow> \<not> co_had_error c \<and> written out c' = written out c @ concat (map encode xs)) \<and>
    (\<not> co_had_error c \<and> length (written out c) + length (concat (map encode xs)) \<le> cap (co_output c) \<longrightarrow> \<not> co_had_error c')"
  using assms
proof (induction xs arbitrary: c)
  case Nil
  then show ?case by simp
next
  case (Cons x xs)
  obtain c1 where c1: "put_item ops x c = Inr c1" "appends ok out held cap start (encode x) c c1"
    using put_item_law [OF Cons.prems] by blast
  then have cap: "cap (co_output c1) = cap (co_output c)"
    by (simp add: appends_def)
  obtain c' where c': "put_items ops xs c1 = Inr c'" "writer_ok ok out held start c'" "cap (co_output c') = cap (co_output c1)"
    "\<not> co_had_error c' \<Longrightarrow> \<not> co_had_error c1 \<and> written out c' = written out c1 @ concat (map encode xs)"
    "\<not> co_had_error c1 \<Longrightarrow> length (written out c1) + length (concat (map encode xs)) \<le> cap (co_output c1) \<Longrightarrow> \<not> co_had_error c'"
    using Cons.IH [OF appends_ok [OF c1(2)]] by blast
  have "\<not> co_had_error c \<and> written out c' = written out c @ concat (map encode (x # xs))" if "\<not> co_had_error c'"
    using c'(4) [OF that] appends_complete(1) [OF c1(2)] by simp
  moreover have "\<not> co_had_error c'"
    if "\<not> co_had_error c" "length (written out c) + length (concat (map encode (x # xs))) \<le> cap (co_output c)"
  proof -
    have "\<not> co_had_error c1"
      using appends_complete(2) [OF c1(2)] that by simp
    then show ?thesis
      using c'(5) appends_complete(1) [OF c1(2)] that(2) cap by simp
  qed
  ultimately show ?case
    using c1(1) c'(1-3) cap by (intro exI [of _ c']) simp
qed

end

section \<open>Reading back\<close>

lemma varint_result_loop:
  fixes w :: "'b::len word"
  assumes "7 < LENGTH('b)" and "length (varint_loop w) \<le> 10"
  shows "varint_result (varint_loop w @ xs) = Some (ucast w :: 'a::len word, length (varint_loop w))"
proof -
  have "varint_split kMaxVarintBytes (varint_loop w @ xs) = Some (varint_loop w, xs)"
    using varint_loop_group [OF assms(1), of w] assms(2) by (simp add: varint_split_Some kMaxVarintBytes_def)
  then show ?thesis
    using varint_loop_group [OF assms(1), of w] by (simp add: varint_result_def)
qed

lemmas varint_result_loops =
  varint_result_loop [where 'b = 32, simplified, OF le_trans [OF length_varint_loop_max(2)]]
  varint_result_loop [where 'b = 64, simplified, OF length_varint_loop_max(1)]

lemma ucast_scast: "ucast (scast (v :: int32) :: uint64) = v"
proof (rule bit_word_eqI)
  fix n
  assume "n < LENGTH(32)"
  then consider "n < 31" | "n = 31"
    by fastforce
  then show "bit (ucast (scast v :: uint64) :: int32) n \<longleftrightarrow> bit v n"
    by cases (auto simp: bit_simps min_def)
qed

context zero_copy_source
begin

lemma get_item_law:
  assumes c: "coded_ok ok lastb c" and a: "avail bytes lastb c = encode x @ ys"
  shows "\<exists>c'. get_item ops host x c = Inr (Some x, c') \<and> coded_ok ok lastb c' \<and> avail bytes lastb c' = ys"
proof -
  have step: "coded_ok ok lastb c' \<and> avail bytes lastb c' = ys" if "advanced ok bytes lastb (length (encode x)) c c'" for c'
    using advanced_ok [OF that] advanced_avail [OF that] a by simp
  have v: "u = Some w \<and> coded_ok ok lastb c1 \<and> avail bytes lastb c1 = ys"
    if "reads_varint ok bytes lastb c u c1" "varint_result (encode x @ ys) = Some (w, length (encode x))"
    for u c1 and w :: "'w::len word"
    using that(1) step unfolding reads_varint_def Let_def a that(2) by simp
  show ?thesis
  proof (cases x)
    case (Raw xs)
    then show ?thesis
      using ReadRaw_law [OF c, of "int (length xs)"] a step by auto
  next
    case (Fixed32 w)
    then show ?thesis
      using ReadLittleEndian32_law [OF c, of host] a step by (auto simp: le_word_le_bytes)
  next
    case (Fixed64 w)
    then show ?thesis
      using ReadLittleEndian64_law [OF c, of host] a step by (auto simp: le_word_le_bytes)
  next
    case (Varint32 w)
    obtain u c1 where r: "ReadVarint32 ops c = Inr (u, c1)" "reads_varint ok bytes lastb c u c1"
      using ReadVarint32_law [OF c] by blast
    have "varint_result (encode x @ ys) = Some (w, length (encode x))"
      using Varint32 by (simp add: varint_result_loops)
    from v [OF r(2) this] show ?thesis
      using Varint32 r(1) by simp
  next
    case (Varint64 w)
    obtain u c1 where r: "ReadVarint64 ops c = Inr (u, c1)" "reads_varint ok bytes lastb c u c1"
      using ReadVarint64_law [OF c] by blast
    have "varint_result (encode x @ ys) = Some (w, length (encode x))"
      using Varint64 by (simp add: varint_result_loops)
    from v [OF r(2) this] show ?thesis
      using Varint64 r(1) by simp
  next
    case (Int32 w)
    obtain u c1 where r: "ReadVarint32 ops c = Inr (u, c1)" "reads_varint ok bytes lastb c u c1"
      using ReadVarint32_law [OF c] by blast
    have "varint_result (encode x @ ys) = Some (w, length (encode x))"
      using Int32 by (simp add: varint_result_loops ucast_scast)
    from v [OF r(2) this] show ?thesis
      using Int32 r(1) by simp
  next
    case (Tag w)
    obtain t c1 where r: "ReadTag ops c = Inr (t, c1)" "reads_tag ok bytes lastb c t c1"
      using ReadTag_law [OF c] by blast
    have w: "varint_result (encode x @ ys) = Some (w, length (encode x))"
      using Tag by (simp add: varint_result_loops)
    then have "avail bytes lastb c \<noteq> []"
      unfolding a by (auto simp: varint_result_def varint_split_Some varint_group_def)
    then have "t = w" "reads_varint ok bytes lastb c (Some w) c1"
      using r(2) unfolding reads_tag_def Let_def a tag_of_def w by (simp_all split: if_splits)
    with v [OF _ w] show ?thesis
      using Tag r(1) by simp
  qed
qed

lemma get_items_law:
  assumes "coded_ok ok lastb c" and "avail bytes lastb c = concat (map encode xs) @ ys"
  shows "\<exists>c'. get_items ops host xs c = Inr (map Some xs, c') \<and> coded_ok ok lastb c' \<and> avail bytes lastb c' = ys"
  using assms
proof (induction xs arbitrary: c)
  case Nil
  then show ?case by simp
next
  case (Cons x xs)
  obtain c1 where c1: "get_item ops host x c = Inr (Some x, c1)" "coded_ok ok lastb c1"
    "avail bytes lastb c1 = concat (map encode xs) @ ys"
    using get_item_law [OF Cons.prems(1), of x "concat (map encode xs) @ ys" host] Cons.prems(2) by auto
  then show ?case
    using Cons.IH [OF c1(2,3)] by auto
qed

end

section \<open>The contract\<close>

text \<open>
  C17. Over any stream that keeps the contract of \<^verbatim>\<open>ZeroCopyOutputStream\<close>, a sequence of writes and the
  destructor never fault. Unless the error flag is up, the stream ends with exactly the
  concatenated encodings behind what it held before, and \<^verbatim>\<open>ByteCount\<close> is their length; and the flag
  stays down when they fit.
\<close>

theorem coded_writes_refine:
  assumes "zero_copy_sink ops ok out held gap cap" and "ok s" and "E = concat (map encode items)"
  shows "\<exists>c0 c s'. CodedOutputStream_ctor ops s = Inr c0 \<and> put_items ops items c0 = Inr c \<and>
    CodedOutputStream_dtor ops c = Inr s' \<and> ok s' \<and>
    (\<not> co_had_error c \<longrightarrow> out s' = out s @ E \<and> CodedOutputStream_ByteCount c = int (length E)) \<and>
    (length (out s) + length E \<le> cap s \<longrightarrow> \<not> co_had_error c)"
proof -
  obtain c0 where c0: "CodedOutputStream_ctor ops s = Inr c0" "writer_ok ok out held (length (out s)) c0"
    "written out c0 = out s" "\<not> co_had_error c0" "cap (co_output c0) = cap s"
    using zero_copy_sink.ctor_law [OF assms(1,2)] by blast
  obtain c where c: "put_items ops items c0 = Inr c" "writer_ok ok out held (length (out s)) c"
    "\<not> co_had_error c \<longrightarrow> written out c = out s @ E" "length (out s) + length E \<le> cap s \<longrightarrow> \<not> co_had_error c"
    using zero_copy_sink.put_items_law [OF assms(1) c0(2), of items] c0(3-5) by (auto simp: assms(3))
  obtain s' where "CodedOutputStream_dtor ops c = Inr s'" "ok s'" "out s' = written out c"
    using zero_copy_sink.dtor_law [OF assms(1) c(2)] by blast
  then show ?thesis
    using c0(1) c ByteCount_written [OF c(2)] by (intro exI [of _ c0] exI [of _ c] exI [of _ s']) auto
qed

theorem coded_writes_refine_witness:
  "\<exists>c0 c s'. CodedOutputStream_ctor array_output (ArrayOutputStream_ctor (replicate 8 0) 8 3) = Inr c0 \<and>
     put_items array_output [Varint32 300, Fixed32 1] c0 = Inr c \<and> \<not> co_had_error c \<and>
     CodedOutputStream_dtor array_output c = Inr s' \<and> array_out s' = [0xAC, 2, 1, 0, 0, 0]"
proof -
  have E: "concat (map encode [Varint32 300, Fixed32 1]) = [0xAC, 2, 1, 0, 0, 0]"
    by code_simp
  have ok: "array_out_ok (ArrayOutputStream_ctor (replicate 8 0) 8 3)"
    by (rule array_out_ctor(1)) (simp_all add: INT_MAX_def)
  show ?thesis
    using coded_writes_refine [OF aout.zero_copy_sink_axioms ok refl, of "[Varint32 300, Fixed32 1]"]
    unfolding E array_out_ctor(2) by (auto simp: ArrayOutputStream_ctor_def)
qed

text \<open>
  C9. Round trip across streams and hosts. Whatever items are written through any output stream
  with room for them, a reader on any input stream that delivers the bytes written (below the
  default total limit) reads the same items back, on a host of either byte order and however the two
  streams cut the bytes into blocks.
\<close>

theorem coded_round_trip:
  assumes "zero_copy_sink oops ook out held ogap cap" and "ook s"
    and "zero_copy_source iops iok bytes lastb igap"
    and "length (out s) + length (concat (map encode items)) \<le> cap s" and "length (concat (map encode items)) \<le> 67108864"
  shows "\<exists>c0 c s'. CodedOutputStream_ctor oops s = Inr c0 \<and> put_items oops items c0 = Inr c \<and>
    CodedOutputStream_dtor oops c = Inr s' \<and>
    (\<forall>t. iok t \<and> bytes t = drop (length (out s)) (out s') \<longrightarrow>
      (\<exists>r r'. CodedInputStream_stream iops t = Inr r \<and> get_items iops host items r = Inr (map Some items, r') \<and>
         avail bytes lastb r' = []))"
proof -
  let ?E = "concat (map encode items)"
  obtain c0 where c0: "CodedOutputStream_ctor oops s = Inr c0" "writer_ok ook out held (length (out s)) c0"
    "written out c0 = out s" "\<not> co_had_error c0" "cap (co_output c0) = cap s"
    using zero_copy_sink.ctor_law [OF assms(1,2)] by blast
  obtain c where c: "put_items oops items c0 = Inr c" "writer_ok ook out held (length (out s)) c" "written out c = out s @ ?E"
    using zero_copy_sink.put_items_law [OF assms(1) c0(2), of items] c0(3-5) assms(4) by auto
  obtain s' where s': "CodedOutputStream_dtor oops c = Inr s'" "out s' = out s @ ?E"
    using zero_copy_sink.dtor_law [OF assms(1) c(2)] c(3) by auto
  have "\<exists>r r'. CodedInputStream_stream iops t = Inr r \<and> get_items iops host items r = Inr (map Some items, r') \<and>
      avail bytes lastb r' = []" if t: "iok t" "bytes t = drop (length (out s)) (out s')" for t
  proof -
    obtain r where r: "CodedInputStream_stream iops t = Inr r" "coded_ok iok lastb r" "avail bytes lastb r = ?E @ []"
      using zero_copy_source.stream_reader_ok [OF assms(3) t(1)] t(2) s'(2) assms(5) by auto
    then show ?thesis
      using zero_copy_source.get_items_law [OF assms(3) r(2,3), of host] by blast
  qed
  with c0(1) c(1) s'(1) show ?thesis by blast
qed

theorem coded_round_trip_witness:
  "\<exists>c0 c s'. CodedOutputStream_ctor (string_output (\<lambda>_ n. n)) (StringOutputStream_ctor \<lparr>str_data = [], str_capacity = 0\<rparr>) = Inr c0 \<and>
     put_items (string_output (\<lambda>_ n. n)) [Int32 (- 1), Raw [7, 8]] c0 = Inr c \<and>
     CodedOutputStream_dtor (string_output (\<lambda>_ n. n)) c = Inr s' \<and>
     (let t = ArrayInputStream_ctor (string_out s') (int (length (string_out s'))) 4 in
      \<exists>r r'. CodedInputStream_stream array_input t = Inr r \<and>
        get_items array_input BigEndian [Int32 (- 1), Raw [7, 8]] r = Inr ([Some (Int32 (- 1)), Some (Raw [7, 8])], r'))"
proof -
  let ?s = "StringOutputStream_ctor \<lparr>str_data = [], str_capacity = 0\<rparr>"
  have ok: "string_out_ok (\<lambda>_ n. n) ?s" and out: "string_out ?s = []"
    by (simp_all add: string_out_ok_def StringOutputStream_ctor_def string_size_def string_out_def INT_MAX_def)
  have len: "length (concat (map encode [Int32 (- 1), Raw [7, 8]])) = 12"
    by code_simp
  have room: "length (string_out ?s) + length (concat (map encode [Int32 (- 1), Raw [7, 8]])) \<le> nat (INT_MAX div 2 + 1)"
    "length (concat (map encode [Int32 (- 1), Raw [7, 8]])) \<le> 67108864"
    unfolding out len by (simp_all add: INT_MAX_def)
  have src: "array_ok (ArrayInputStream_ctor xs (int (length xs)) 4)" for xs
    by (rule array_ok_ctor) simp
  obtain c0 c s' where w: "CodedOutputStream_ctor (string_output (\<lambda>_ n. n)) ?s = Inr c0"
    "put_items (string_output (\<lambda>_ n. n)) [Int32 (- 1), Raw [7, 8]] c0 = Inr c"
    "CodedOutputStream_dtor (string_output (\<lambda>_ n. n)) c = Inr s'"
    "\<And>t. array_ok t \<Longrightarrow> array_bytes t = string_out s' \<Longrightarrow>
      \<exists>r r'. CodedInputStream_stream array_input t = Inr r \<and>
        get_items array_input BigEndian [Int32 (- 1), Raw [7, 8]] r = Inr ([Some (Int32 (- 1)), Some (Raw [7, 8])], r')"
    using coded_round_trip [OF sout.zero_copy_sink_axioms ok arr.zero_copy_source_axioms room, of BigEndian]
    unfolding out list.map list.size drop_0 by blast
  then show ?thesis
    using w(4) [OF src array_bytes_ctor] unfolding Let_def by blast
qed

end
