(* ===== verification/Channel_Poller.thy ===== *)
theory Channel_Poller
  imports Airnet_Prelude
begin

text \<open>
  I/O channels and the epoll poller of muduo (\<^verbatim>\<open>muduo/net/Channel.h\<close>, \<^verbatim>\<open>muduo/net/Channel.cc\<close>,
  \<^verbatim>\<open>muduo/net/poller/EPollPoller.cc\<close>). A channel is named by its address; the poller maps descriptors to
  addresses, and the interest list that \<^verbatim>\<open>epoll_ctl\<close> keeps in the kernel is part of its state.
\<close>

unbundle bit_operations_syntax

section \<open>Channels\<close>

type_synonym events = "32 word"

text \<open>The constants of \<^verbatim>\<open>poll(2)\<close> on Linux.\<close>

definition POLLIN :: events where "POLLIN = 0x001"
definition POLLPRI :: events where "POLLPRI = 0x002"
definition POLLOUT :: events where "POLLOUT = 0x004"
definition POLLERR :: events where "POLLERR = 0x008"
definition POLLHUP :: events where "POLLHUP = 0x010"
definition POLLNVAL :: events where "POLLNVAL = 0x020"
definition POLLRDHUP :: events where "POLLRDHUP = 0x2000"

lemmas poll_constants = POLLIN_def POLLPRI_def POLLOUT_def POLLERR_def POLLHUP_def POLLNVAL_def POLLRDHUP_def

definition kNoneEvent :: events where
  "kNoneEvent = 0"

definition kReadEvent :: events where
  "kReadEvent = POLLIN OR POLLPRI"

definition kWriteEvent :: events where
  "kWriteEvent = POLLOUT"

record Channel =
  ch_fd :: int
  ch_events :: events
  ch_revents :: events
  ch_index :: int
  ch_tied :: bool
  ch_eventHandling :: bool
  ch_addedToLoop :: bool

definition Channel_ctor :: "int \<Rightarrow> Channel" where
  "Channel_ctor fd = \<lparr>ch_fd = fd, ch_events = 0, ch_revents = 0, ch_index = - 1, ch_tied = False,
     ch_eventHandling = False, ch_addedToLoop = False\<rparr>"

definition isNoneEvent :: "Channel \<Rightarrow> bool" where
  "isNoneEvent ch \<longleftrightarrow> ch_events ch = kNoneEvent"

definition isWriting :: "Channel \<Rightarrow> bool" where
  "isWriting ch \<longleftrightarrow> ch_events ch AND kWriteEvent \<noteq> 0"

definition isReading :: "Channel \<Rightarrow> bool" where
  "isReading ch \<longleftrightarrow> ch_events ch AND kReadEvent \<noteq> 0"

text \<open>
  Which callbacks \<^verbatim>\<open>handleEventWithGuard\<close> runs, in its order, for the events the poller reported; a
  channel that is tied to an owner runs none once the owner is gone.
\<close>

datatype channel_callback = CloseCallback | ErrorCallback | ReadCallback | WriteCallback

definition handleEventWithGuard :: "Channel \<Rightarrow> channel_callback list" where
  "handleEventWithGuard ch =
     (let revents = ch_revents ch in
      (if revents AND POLLHUP \<noteq> 0 \<and> revents AND POLLIN = 0 then [CloseCallback] else []) @
      (if revents AND (POLLERR OR POLLNVAL) \<noteq> 0 then [ErrorCallback] else []) @
      (if revents AND (POLLIN OR POLLPRI OR POLLRDHUP) \<noteq> 0 then [ReadCallback] else []) @
      (if revents AND POLLOUT \<noteq> 0 then [WriteCallback] else []))"

definition handleEvent :: "bool \<Rightarrow> Channel \<Rightarrow> channel_callback list" where
  "handleEvent owner_alive ch =
     (if ch_tied ch then if owner_alive then handleEventWithGuard ch else [] else handleEventWithGuard ch)"

definition Channel_tie :: "Channel \<Rightarrow> Channel" where
  "Channel_tie ch = ch\<lparr>ch_tied := True\<rparr>"

section \<open>The poller\<close>

type_synonym address = nat

record EPollPoller =
  ep_channels :: "int \<Rightarrow> address option"
  ep_kernel :: "int \<Rightarrow> (events \<times> address) option"

definition EPollPoller_ctor :: EPollPoller where
  "EPollPoller_ctor = \<lparr>ep_channels = (\<lambda>_. None), ep_kernel = (\<lambda>_. None)\<rparr>"

definition kNew :: int where "kNew = - 1"
definition kAdded :: int where "kAdded = 1"
definition kDeleted :: int where "kDeleted = 2"

lemmas index_constants = kNew_def kAdded_def kDeleted_def

datatype epoll_op = EPOLL_CTL_ADD | EPOLL_CTL_MOD | EPOLL_CTL_DEL

text \<open>\<^verbatim>\<open>epoll_ctl(2)\<close>: adding fails on a registered descriptor, the others on an unregistered one.\<close>

definition epoll_ctl :: "epoll_op \<Rightarrow> int \<Rightarrow> events \<times> address \<Rightarrow> EPollPoller \<Rightarrow> bool \<times> EPollPoller" where
  "epoll_ctl op fd event p =
     (case op of
        EPOLL_CTL_ADD \<Rightarrow> if ep_kernel p fd = None then (True, p\<lparr>ep_kernel := (ep_kernel p)(fd \<mapsto> event)\<rparr>) else (False, p)
      | EPOLL_CTL_MOD \<Rightarrow> if ep_kernel p fd \<noteq> None then (True, p\<lparr>ep_kernel := (ep_kernel p)(fd \<mapsto> event)\<rparr>) else (False, p)
      | EPOLL_CTL_DEL \<Rightarrow> if ep_kernel p fd \<noteq> None then (True, p\<lparr>ep_kernel := (ep_kernel p)(fd := None)\<rparr>) else (False, p))"

text \<open>A failing \<^verbatim>\<open>EPOLL_CTL_DEL\<close> is only logged, any other failure is fatal.\<close>

definition EPollPoller_update :: "epoll_op \<Rightarrow> address \<Rightarrow> Channel \<Rightarrow> EPollPoller \<Rightarrow> EPollPoller result" where
  "EPollPoller_update op a ch p =
     (let (done, p') = epoll_ctl op (ch_fd ch) (ch_events ch, a) p in
      if done then Inr p' else if op = EPOLL_CTL_DEL then Inr p' else Inl FatalCheck)"

definition EPollPoller_updateChannel :: "address \<Rightarrow> Channel \<Rightarrow> EPollPoller \<Rightarrow> (Channel \<times> EPollPoller) result" where
  "EPollPoller_updateChannel a ch p =
     (let index = ch_index ch; fd = ch_fd ch in
      if index = kNew \<or> index = kDeleted then
        rbind (if index = kNew then
                 rbind (ensure (ep_channels p fd = None) AssertFailed) (\<lambda>_.
                   Inr (p\<lparr>ep_channels := (ep_channels p)(fd \<mapsto> a)\<rparr>))
               else
                 rbind (ensure (ep_channels p fd \<noteq> None) AssertFailed) (\<lambda>_.
                 rbind (ensure (ep_channels p fd = Some a) AssertFailed) (\<lambda>_. Inr p))) (\<lambda>p.
        let ch = ch\<lparr>ch_index := kAdded\<rparr> in
        rbind (EPollPoller_update EPOLL_CTL_ADD a ch p) (\<lambda>p. Inr (ch, p)))
      else
        rbind (ensure (ep_channels p fd \<noteq> None) AssertFailed) (\<lambda>_.
        rbind (ensure (ep_channels p fd = Some a) AssertFailed) (\<lambda>_.
        rbind (ensure (index = kAdded) AssertFailed) (\<lambda>_.
          if isNoneEvent ch then
            rbind (EPollPoller_update EPOLL_CTL_DEL a ch p) (\<lambda>p. Inr (ch\<lparr>ch_index := kDeleted\<rparr>, p))
          else
            rbind (EPollPoller_update EPOLL_CTL_MOD a ch p) (\<lambda>p. Inr (ch, p))))))"

definition EPollPoller_removeChannel :: "address \<Rightarrow> Channel \<Rightarrow> EPollPoller \<Rightarrow> (Channel \<times> EPollPoller) result" where
  "EPollPoller_removeChannel a ch p =
     (let fd = ch_fd ch; index = ch_index ch in
      rbind (ensure (ep_channels p fd \<noteq> None) AssertFailed) (\<lambda>_.
      rbind (ensure (ep_channels p fd = Some a) AssertFailed) (\<lambda>_.
      rbind (ensure (isNoneEvent ch) AssertFailed) (\<lambda>_.
      rbind (ensure (index = kAdded \<or> index = kDeleted) AssertFailed) (\<lambda>_.
        let p = p\<lparr>ep_channels := (ep_channels p)(fd := None)\<rparr> in
        rbind (if index = kAdded then EPollPoller_update EPOLL_CTL_DEL a ch p else Inr p) (\<lambda>p.
          Inr (ch\<lparr>ch_index := kNew\<rparr>, p)))))))"

text \<open>The events that \<^verbatim>\<open>epoll_wait\<close> returned are handed to the channels they were registered with.\<close>

definition fillActiveChannels ::
    "(address \<Rightarrow> Channel) \<Rightarrow> EPollPoller \<Rightarrow> nat \<Rightarrow> (events \<times> address) list \<Rightarrow> ((address \<Rightarrow> Channel) \<times> address list) result" where
  "fillActiveChannels chans p event_list_size evs =
     rbind (ensure (length evs \<le> event_list_size) AssertFailed) (\<lambda>_.
       foldl (\<lambda>r (e, a). rbind r (\<lambda>(chans, active).
           rbind (ensure (ep_channels p (ch_fd (chans a)) \<noteq> None) AssertFailed) (\<lambda>_.
           rbind (ensure (ep_channels p (ch_fd (chans a)) = Some a) AssertFailed) (\<lambda>_.
             Inr (chans(a := (chans a)\<lparr>ch_revents := e\<rparr>), active @ [a])))))
         (Inr (chans, [])) evs)"

text \<open>The event list doubles when \<^verbatim>\<open>epoll_wait\<close> filled it.\<close>

definition next_event_list_size :: "nat \<Rightarrow> nat \<Rightarrow> nat" where
  "next_event_list_size numEvents sz = (if numEvents > 0 \<and> numEvents = sz then sz * 2 else sz)"

section \<open>Channels and their poller\<close>

definition Channel_update :: "address \<Rightarrow> Channel \<Rightarrow> EPollPoller \<Rightarrow> (Channel \<times> EPollPoller) result" where
  "Channel_update a ch p = EPollPoller_updateChannel a (ch\<lparr>ch_addedToLoop := True\<rparr>) p"

definition Channel_remove :: "address \<Rightarrow> Channel \<Rightarrow> EPollPoller \<Rightarrow> (Channel \<times> EPollPoller) result" where
  "Channel_remove a ch p =
     rbind (ensure (isNoneEvent ch) AssertFailed) (\<lambda>_.
       EPollPoller_removeChannel a (ch\<lparr>ch_addedToLoop := False\<rparr>) p)"

definition enableReading :: "address \<Rightarrow> Channel \<Rightarrow> EPollPoller \<Rightarrow> (Channel \<times> EPollPoller) result" where
  "enableReading a ch p = Channel_update a (ch\<lparr>ch_events := ch_events ch OR kReadEvent\<rparr>) p"

definition disableReading :: "address \<Rightarrow> Channel \<Rightarrow> EPollPoller \<Rightarrow> (Channel \<times> EPollPoller) result" where
  "disableReading a ch p = Channel_update a (ch\<lparr>ch_events := ch_events ch AND NOT kReadEvent\<rparr>) p"

definition enableWriting :: "address \<Rightarrow> Channel \<Rightarrow> EPollPoller \<Rightarrow> (Channel \<times> EPollPoller) result" where
  "enableWriting a ch p = Channel_update a (ch\<lparr>ch_events := ch_events ch OR kWriteEvent\<rparr>) p"

definition disableWriting :: "address \<Rightarrow> Channel \<Rightarrow> EPollPoller \<Rightarrow> (Channel \<times> EPollPoller) result" where
  "disableWriting a ch p = Channel_update a (ch\<lparr>ch_events := ch_events ch AND NOT kWriteEvent\<rparr>) p"

definition disableAll :: "address \<Rightarrow> Channel \<Rightarrow> EPollPoller \<Rightarrow> (Channel \<times> EPollPoller) result" where
  "disableAll a ch p = Channel_update a (ch\<lparr>ch_events := kNoneEvent\<rparr>) p"

definition Channel_dtor :: "bool \<Rightarrow> address \<Rightarrow> Channel \<Rightarrow> EPollPoller \<Rightarrow> unit result" where
  "Channel_dtor in_loop_thread a ch p =
     rbind (ensure (\<not> ch_eventHandling ch) AssertFailed) (\<lambda>_.
     rbind (ensure (\<not> ch_addedToLoop ch) AssertFailed) (\<lambda>_.
       if in_loop_thread then ensure (ep_channels p (ch_fd ch) \<noteq> Some a) AssertFailed else Inr ()))"

section \<open>What the kernel watches\<close>

text \<open>
  A channel and the poller agree: the poller knows the channel unless it is new, and the kernel
  watches its descriptor, for exactly the events the channel asks for, while it is added.
\<close>

definition registered :: "address \<Rightarrow> Channel \<Rightarrow> EPollPoller \<Rightarrow> bool" where
  "registered a ch p \<longleftrightarrow>
     ch_index ch \<in> {kNew, kAdded, kDeleted} \<and>
     ep_channels p (ch_fd ch) = (if ch_index ch = kNew then None else Some a) \<and>
     ep_kernel p (ch_fd ch) = (if ch_index ch = kAdded then Some (ch_events ch, a) else None) \<and>
     (ch_index ch \<noteq> kAdded \<longrightarrow> isNoneEvent ch) \<and> (ch_addedToLoop ch \<longleftrightarrow> ch_index ch \<noteq> kNew)"

lemma registered_ctor: "ep_channels p fd = None \<Longrightarrow> ep_kernel p fd = None \<Longrightarrow> registered a (Channel_ctor fd) p"
  by (simp add: registered_def Channel_ctor_def index_constants isNoneEvent_def kNoneEvent_def)

lemma Channel_update_registered:
  assumes "registered a ch p"
  shows "\<exists>ch' p'. Channel_update a (ch\<lparr>ch_events := e\<rparr>) p = Inr (ch', p') \<and> registered a ch' p' \<and> ch_events ch' = e \<and>
    ch_fd ch' = ch_fd ch \<and> ch_tied ch' = ch_tied ch \<and> ch_index ch' \<noteq> kNew \<and>
    (\<forall>fd. fd \<noteq> ch_fd ch \<longrightarrow> ep_channels p' fd = ep_channels p fd \<and> ep_kernel p' fd = ep_kernel p fd)"
proof -
  from assms consider (new) "ch_index ch = kNew" | (added) "ch_index ch = kAdded" | (deleted) "ch_index ch = kDeleted"
    by (auto simp: registered_def)
  then show ?thesis
    by cases (use assms in \<open>auto simp: registered_def Channel_update_def EPollPoller_updateChannel_def EPollPoller_update_def
      epoll_ctl_def Let_def index_constants isNoneEvent_def\<close>)
qed

lemmas channel_op_defs = enableReading_def disableReading_def enableWriting_def disableWriting_def disableAll_def

lemma Channel_remove_registered:
  assumes "registered a ch p" and "isNoneEvent ch" and "ch_index ch \<noteq> kNew"
  shows "\<exists>ch' p'. Channel_remove a ch p = Inr (ch', p') \<and> registered a ch' p' \<and> ch_events ch' = 0 \<and>
    ch_fd ch' = ch_fd ch \<and> ch_index ch' = kNew \<and>
    (\<forall>fd. fd \<noteq> ch_fd ch \<longrightarrow> ep_channels p' fd = ep_channels p fd \<and> ep_kernel p' fd = ep_kernel p fd)"
proof -
  from assms consider (added) "ch_index ch = kAdded" | (deleted) "ch_index ch = kDeleted"
    by (auto simp: registered_def)
  then show ?thesis
    by cases (use assms in \<open>auto simp: registered_def Channel_remove_def EPollPoller_removeChannel_def EPollPoller_update_def
      epoll_ctl_def Let_def index_constants isNoneEvent_def kNoneEvent_def\<close>)
qed

text \<open>The flags that the connection reads off the event mask.\<close>

lemma bit_kReadEvent: "bit kReadEvent n \<longleftrightarrow> n = 0 \<or> n = 1"
proof -
  have eq: "kReadEvent = 1 OR push_bit 1 1"
    by (simp add: kReadEvent_def POLLIN_def POLLPRI_def push_bit_eq_mult)
  show ?thesis
    unfolding eq bit_or_iff bit_push_bit_iff bit_1_iff by auto
qed

lemma bit_kWriteEvent: "bit kWriteEvent n \<longleftrightarrow> n = 2"
proof -
  have eq: "kWriteEvent = push_bit 2 1"
    by (simp add: kWriteEvent_def POLLOUT_def push_bit_eq_mult)
  show ?thesis
    unfolding eq bit_push_bit_iff bit_1_iff by auto
qed

lemma word_nonzero_iff: "w \<noteq> 0 \<longleftrightarrow> (\<exists>n. bit (w :: events) n)"
  using bit_eqI [of w 0] by auto

lemma isWriting_iff: "isWriting ch \<longleftrightarrow> bit (ch_events ch) 2"
  by (auto simp: isWriting_def word_nonzero_iff bit_and_iff bit_kWriteEvent)

lemma isReading_iff: "isReading ch \<longleftrightarrow> bit (ch_events ch) 0 \<or> bit (ch_events ch) 1"
  by (auto simp: isReading_def word_nonzero_iff bit_and_iff bit_kReadEvent)

lemma event_flags [simp]:
  "isWriting (ch\<lparr>ch_events := e OR kWriteEvent\<rparr>)" "\<not> isWriting (ch\<lparr>ch_events := e AND NOT kWriteEvent\<rparr>)"
  "isWriting (ch\<lparr>ch_events := e OR kReadEvent\<rparr>) \<longleftrightarrow> isWriting (ch\<lparr>ch_events := e\<rparr>)"
  "isWriting (ch\<lparr>ch_events := e AND NOT kReadEvent\<rparr>) \<longleftrightarrow> isWriting (ch\<lparr>ch_events := e\<rparr>)"
  "\<not> isWriting (ch\<lparr>ch_events := kNoneEvent\<rparr>)"
  "isReading (ch\<lparr>ch_events := e OR kReadEvent\<rparr>)" "\<not> isReading (ch\<lparr>ch_events := e AND NOT kReadEvent\<rparr>)"
  "isReading (ch\<lparr>ch_events := e OR kWriteEvent\<rparr>) \<longleftrightarrow> isReading (ch\<lparr>ch_events := e\<rparr>)"
  "isReading (ch\<lparr>ch_events := e AND NOT kWriteEvent\<rparr>) \<longleftrightarrow> isReading (ch\<lparr>ch_events := e\<rparr>)"
  "\<not> isReading (ch\<lparr>ch_events := kNoneEvent\<rparr>)"
  by (auto simp: isWriting_iff isReading_iff bit_simps bit_kReadEvent bit_kWriteEvent kNoneEvent_def)

section \<open>All channels of a loop\<close>

datatype channel_op = EnableReading | DisableReading | EnableWriting | DisableWriting | DisableAll | Remove

primrec apply_channel_op :: "channel_op \<Rightarrow> address \<Rightarrow> Channel \<Rightarrow> EPollPoller \<Rightarrow> (Channel \<times> EPollPoller) result" where
  "apply_channel_op EnableReading = enableReading"
| "apply_channel_op DisableReading = disableReading"
| "apply_channel_op EnableWriting = enableWriting"
| "apply_channel_op DisableWriting = disableWriting"
| "apply_channel_op DisableAll = disableAll"
| "apply_channel_op Remove = Channel_remove"

text \<open>A channel may be removed once it asks for nothing and the poller knows it.\<close>

definition op_allowed :: "channel_op \<Rightarrow> Channel \<Rightarrow> bool" where
  "op_allowed op ch \<longleftrightarrow> op = Remove \<longrightarrow> isNoneEvent ch \<and> ch_addedToLoop ch"

inductive channel_reach :: "(address \<Rightarrow> int) \<Rightarrow> (address \<Rightarrow> Channel) \<Rightarrow> EPollPoller \<Rightarrow> bool" for fds where
  init: "channel_reach fds (\<lambda>a. Channel_ctor (fds a)) EPollPoller_ctor"
| step: "channel_reach fds chans p \<Longrightarrow> op_allowed op (chans a) \<Longrightarrow> apply_channel_op op a (chans a) p = Inr (ch, p') \<Longrightarrow>
    channel_reach fds (chans(a := ch)) p'"

definition watched :: "EPollPoller \<Rightarrow> int \<Rightarrow> events" where
  "watched p fd = (case ep_kernel p fd of None \<Rightarrow> 0 | Some (e, _) \<Rightarrow> e)"

lemma registered_watched: "registered a ch p \<Longrightarrow> watched p (ch_fd ch) = ch_events ch"
  by (auto simp: registered_def watched_def isNoneEvent_def kNoneEvent_def)

lemma registered_other:
  "registered a ch p \<Longrightarrow> ep_channels p' (ch_fd ch) = ep_channels p (ch_fd ch) \<Longrightarrow>
     ep_kernel p' (ch_fd ch) = ep_kernel p (ch_fd ch) \<Longrightarrow> registered a ch p'"
  by (simp add: registered_def)

lemma channel_op_registered:
  assumes "registered a ch p" and "op_allowed op ch"
  shows "\<exists>ch' p'. apply_channel_op op a ch p = Inr (ch', p') \<and> registered a ch' p' \<and> ch_fd ch' = ch_fd ch \<and>
    (\<forall>fd. fd \<noteq> ch_fd ch \<longrightarrow> ep_channels p' fd = ep_channels p fd \<and> ep_kernel p' fd = ep_kernel p fd)"
proof (cases "op = Remove")
  case True
  then have "isNoneEvent ch" "ch_index ch \<noteq> kNew"
    using assms by (auto simp: op_allowed_def registered_def)
  with True show ?thesis
    using Channel_remove_registered [OF assms(1)] by auto
next
  case False
  have "\<exists>ch' p'. Channel_update a (ch\<lparr>ch_events := e\<rparr>) p = Inr (ch', p') \<and> registered a ch' p' \<and> ch_fd ch' = ch_fd ch \<and>
      (\<forall>fd. fd \<noteq> ch_fd ch \<longrightarrow> ep_channels p' fd = ep_channels p fd \<and> ep_kernel p' fd = ep_kernel p fd)" for e
    using Channel_update_registered [OF assms(1), of e] by blast
  with False show ?thesis
    by (cases op) (simp_all add: channel_op_defs)
qed

lemma channel_reach_registered:
  assumes "channel_reach fds chans p" and "inj fds"
  shows "registered a (chans a) p \<and> ch_fd (chans a) = fds a"
  using assms
proof (induction arbitrary: a rule: channel_reach.induct)
  case init
  then show ?case
    using registered_ctor by (simp add: EPollPoller_ctor_def Channel_ctor_def)
next
  case (step chans p op b ch p')
  have b: "registered b (chans b) p" "ch_fd (chans b) = fds b"
    using step by blast+
  obtain ch' p'' where "apply_channel_op op b (chans b) p = Inr (ch', p'')" "registered b ch' p''" "ch_fd ch' = fds b"
    and other: "\<And>fd. fd \<noteq> fds b \<Longrightarrow> ep_channels p'' fd = ep_channels p fd \<and> ep_kernel p'' fd = ep_kernel p fd"
    using channel_op_registered [OF b(1) step.hyps(2)] b(2) by auto
  moreover have "fds a \<noteq> fds b" if "a \<noteq> b"
    using step.prems that by (auto dest: injD)
  moreover have "registered a (chans a) p" "ch_fd (chans a) = fds a"
    using step.IH step.prems by blast+
  ultimately show ?case
    using step.hyps(3) by (auto intro: registered_other)
qed

text \<open>
  C16. Over any history of enabling, disabling and removing the channels of a loop, with distinct
  descriptors, the kernel watches every descriptor for exactly the events its channel asks for, none
  of the poller's assertions fails and no \<^verbatim>\<open>epoll_ctl\<close> call is fatal.
\<close>

theorem epoll_interest_exact:
  assumes "channel_reach fds chans p" and "inj fds"
  shows "watched p (fds a) = ch_events (chans a) \<and>
    (op_allowed op (chans a) \<longrightarrow> (\<exists>ch p'. apply_channel_op op a (chans a) p = Inr (ch, p')))"
  using channel_reach_registered [OF assms, of a] registered_watched channel_op_registered by metis

theorem epoll_interest_exact_witness:
  "\<exists>ch p. apply_channel_op EnableWriting 0 (Channel_ctor 5) EPollPoller_ctor = Inr (ch, p) \<and> watched p 5 = POLLOUT"
proof -
  let ?fds = "\<lambda>a. int a + 5"
  obtain ch p where c: "apply_channel_op EnableWriting 0 (Channel_ctor (?fds 0)) EPollPoller_ctor = Inr (ch, p)" "ch_events ch = POLLOUT"
    using Channel_update_registered [of 0 "Channel_ctor (?fds 0)" EPollPoller_ctor POLLOUT] registered_ctor [of EPollPoller_ctor 5 0]
    by (auto simp: enableWriting_def EPollPoller_ctor_def Channel_ctor_def kWriteEvent_def)
  have "channel_reach ?fds ((\<lambda>a. Channel_ctor (?fds a))(0 := ch)) p"
    using channel_reach.step [OF channel_reach.init, of EnableWriting ?fds 0 ch p] c(1) by (simp add: op_allowed_def)
  then show ?thesis
    using epoll_interest_exact [of ?fds _ p 0 EnableWriting] c by (auto simp: inj_def)
qed

end
