(* ===== verification/Event_Loop.thy ===== *)
theory Event_Loop
  imports Channel_Poller
begin

text \<open>
  The event loop of muduo (\<^verbatim>\<open>muduo/net/EventLoop.cc\<close>): one thread polls, runs the callbacks of the
  active channels and then the functors queued meanwhile; any thread may queue a functor and wakes the
  loop up through an eventfd. Functors are values of a type \<open>'f\<close>, the program state they act on is
  \<open>'s\<close>.
\<close>

section \<open>The loop object\<close>

record ('f, 's) EventLoop =
  el_looping :: bool
  el_quit :: bool
  el_eventHandling :: bool
  el_callingPendingFunctors :: bool
  el_iteration :: nat
  el_pendingFunctors :: "'f list"
  el_wakeups :: nat \<comment> \<open>the counter of the eventfd \<^verbatim>\<open>wakeupFd_\<close>\<close>
  el_poller :: EPollPoller
  el_activeChannels :: "address list"
  el_currentActiveChannel :: "address option"
  el_user :: 's

definition EventLoop_ctor :: "'s \<Rightarrow> ('f, 's) EventLoop" where
  "EventLoop_ctor u = \<lparr>el_looping = False, el_quit = False, el_eventHandling = False, el_callingPendingFunctors = False,
     el_iteration = 0, el_pendingFunctors = [], el_wakeups = 0, el_poller = EPollPoller_ctor, el_activeChannels = [],
     el_currentActiveChannel = None, el_user = u\<rparr>"

text \<open>Writing to the eventfd adds to its counter, reading it resets the counter.\<close>

definition wakeup :: "('f, 's) EventLoop \<Rightarrow> ('f, 's) EventLoop" where
  "wakeup l = l\<lparr>el_wakeups := el_wakeups l + 1\<rparr>"

definition EventLoop_handleRead :: "('f, 's) EventLoop \<Rightarrow> ('f, 's) EventLoop" where
  "EventLoop_handleRead l = l\<lparr>el_wakeups := 0\<rparr>"

definition quit :: "bool \<Rightarrow> ('f, 's) EventLoop \<Rightarrow> ('f, 's) EventLoop" where
  "quit in_loop_thread l = (let l = l\<lparr>el_quit := True\<rparr> in if \<not> in_loop_thread then wakeup l else l)"

text \<open>The two halves of \<^verbatim>\<open>queueInLoop\<close>: the push under the mutex, and the wake-up after it.\<close>

definition push_functor :: "'f \<Rightarrow> ('f, 's) EventLoop \<Rightarrow> ('f, 's) EventLoop" where
  "push_functor cb l = l\<lparr>el_pendingFunctors := el_pendingFunctors l @ [cb]\<rparr>"

definition wakeup_if_needed :: "bool \<Rightarrow> ('f, 's) EventLoop \<Rightarrow> ('f, 's) EventLoop" where
  "wakeup_if_needed in_loop_thread l = (if \<not> in_loop_thread \<or> el_callingPendingFunctors l then wakeup l else l)"

definition queueInLoop :: "bool \<Rightarrow> 'f \<Rightarrow> ('f, 's) EventLoop \<Rightarrow> ('f, 's) EventLoop" where
  "queueInLoop in_loop_thread cb l = wakeup_if_needed in_loop_thread (push_functor cb l)"

definition runInLoop ::
    "('f \<Rightarrow> ('f, 's) EventLoop \<Rightarrow> ('f, 's) EventLoop result) \<Rightarrow> bool \<Rightarrow> 'f \<Rightarrow> ('f, 's) EventLoop \<Rightarrow> ('f, 's) EventLoop result" where
  "runInLoop call in_loop_thread cb l = (if in_loop_thread then call cb l else Inr (queueInLoop in_loop_thread cb l))"

definition queueSize :: "('f, 's) EventLoop \<Rightarrow> nat" where
  "queueSize l = length (el_pendingFunctors l)"

text \<open>Calling a list of functors in order.\<close>

primrec call_all ::
    "('f \<Rightarrow> ('f, 's) EventLoop \<Rightarrow> ('f, 's) EventLoop result) \<Rightarrow> 'f list \<Rightarrow> ('f, 's) EventLoop \<Rightarrow> ('f, 's) EventLoop result" where
  "call_all call [] l = Inr l"
| "call_all call (f # fs) l = rbind (call f l) (call_all call fs)"

definition doPendingFunctors ::
    "('f \<Rightarrow> ('f, 's) EventLoop \<Rightarrow> ('f, 's) EventLoop result) \<Rightarrow> ('f, 's) EventLoop \<Rightarrow> ('f, 's) EventLoop result" where
  "doPendingFunctors call l =
     (let functors = el_pendingFunctors l;
          l = l\<lparr>el_callingPendingFunctors := True, el_pendingFunctors := []\<rparr> in
      rbind (call_all call functors l) (\<lambda>l. Inr (l\<lparr>el_callingPendingFunctors := False\<rparr>)))"

text \<open>The body of the loop after \<^verbatim>\<open>poll\<close> returned the active channels.\<close>

primrec handle_active ::
    "(address \<Rightarrow> ('f, 's) EventLoop \<Rightarrow> ('f, 's) EventLoop result) \<Rightarrow> address list \<Rightarrow> ('f, 's) EventLoop \<Rightarrow> ('f, 's) EventLoop result" where
  "handle_active handle [] l = Inr l"
| "handle_active handle (a # as) l =
     rbind (handle a (l\<lparr>el_currentActiveChannel := Some a\<rparr>)) (handle_active handle as)"

definition loop_body ::
    "(address \<Rightarrow> ('f, 's) EventLoop \<Rightarrow> ('f, 's) EventLoop result) \<Rightarrow> ('f \<Rightarrow> ('f, 's) EventLoop \<Rightarrow> ('f, 's) EventLoop result) \<Rightarrow>
      address list \<Rightarrow> ('f, 's) EventLoop \<Rightarrow> ('f, 's) EventLoop result" where
  "loop_body handle call active l =
     rbind (handle_active handle active (l\<lparr>el_activeChannels := active, el_iteration := el_iteration l + 1, el_eventHandling := True\<rparr>)) (\<lambda>l.
       doPendingFunctors call (l\<lparr>el_currentActiveChannel := None, el_eventHandling := False\<rparr>))"

text \<open>
  \<^verbatim>\<open>loop\<close>, for the sequence of active channels that the successive polls return; it is left
  unfinished when the polls run out before \<^verbatim>\<open>quit_\<close> is set.
\<close>

primrec loop_while ::
    "(address \<Rightarrow> ('f, 's) EventLoop \<Rightarrow> ('f, 's) EventLoop result) \<Rightarrow> ('f \<Rightarrow> ('f, 's) EventLoop \<Rightarrow> ('f, 's) EventLoop result) \<Rightarrow>
      address list list \<Rightarrow> ('f, 's) EventLoop \<Rightarrow> (bool \<times> ('f, 's) EventLoop) result" where
  "loop_while handle call [] l = Inr (el_quit l, if el_quit l then l\<lparr>el_looping := False\<rparr> else l)"
| "loop_while handle call (active # polls) l =
     (if el_quit l then Inr (True, l\<lparr>el_looping := False\<rparr>)
      else rbind (loop_body handle call active l) (loop_while handle call polls))"

definition EventLoop_loop ::
    "(address \<Rightarrow> ('f, 's) EventLoop \<Rightarrow> ('f, 's) EventLoop result) \<Rightarrow> ('f \<Rightarrow> ('f, 's) EventLoop \<Rightarrow> ('f, 's) EventLoop result) \<Rightarrow>
      address list list \<Rightarrow> ('f, 's) EventLoop \<Rightarrow> (bool \<times> ('f, 's) EventLoop) result" where
  "EventLoop_loop handle call polls l =
     rbind (ensure (\<not> el_looping l) AssertFailed) (\<lambda>_.
       loop_while handle call polls (l\<lparr>el_looping := True, el_quit := False\<rparr>))"

section \<open>Channels of the loop\<close>

definition EventLoop_updateChannel :: "address \<Rightarrow> Channel \<Rightarrow> ('f, 's) EventLoop \<Rightarrow> (Channel \<times> ('f, 's) EventLoop) result" where
  "EventLoop_updateChannel a ch l =
     rbind (EPollPoller_updateChannel a ch (el_poller l)) (\<lambda>(ch, p). Inr (ch, l\<lparr>el_poller := p\<rparr>))"

definition EventLoop_removeChannel :: "address \<Rightarrow> Channel \<Rightarrow> ('f, 's) EventLoop \<Rightarrow> (Channel \<times> ('f, 's) EventLoop) result" where
  "EventLoop_removeChannel a ch l =
     rbind (ensure (el_eventHandling l \<longrightarrow> el_currentActiveChannel l = Some a \<or> a \<notin> set (el_activeChannels l)) AssertFailed) (\<lambda>_.
     rbind (EPollPoller_removeChannel a ch (el_poller l)) (\<lambda>(ch, p). Inr (ch, l\<lparr>el_poller := p\<rparr>)))"

definition EventLoop_hasChannel :: "address \<Rightarrow> Channel \<Rightarrow> ('f, 's) EventLoop \<Rightarrow> bool" where
  "EventLoop_hasChannel a ch l \<longleftrightarrow> ep_channels (el_poller l) (ch_fd ch) = Some a"

section \<open>One round of functors\<close>

text \<open>A functor that leaves a mark and queues further functors, possibly itself.\<close>

definition spawning :: "('f \<Rightarrow> 'f list) \<Rightarrow> 'f \<Rightarrow> ('f, 'f list) EventLoop \<Rightarrow> ('f, 'f list) EventLoop result" where
  "spawning spawn f l = Inr (foldl (\<lambda>l g. queueInLoop True g l) (l\<lparr>el_user := el_user l @ [f]\<rparr>) (spawn f))"

lemma foldl_queueInLoop:
  "foldl (\<lambda>l g. queueInLoop True g l) l gs =
     l\<lparr>el_pendingFunctors := el_pendingFunctors l @ gs,
       el_wakeups := el_wakeups l + (if el_callingPendingFunctors l then length gs else 0)\<rparr>"
  by (induction gs arbitrary: l) (simp_all add: queueInLoop_def push_functor_def wakeup_if_needed_def wakeup_def)

lemma call_all_spawning:
  "el_callingPendingFunctors l \<Longrightarrow> call_all (spawning spawn) fs l =
     Inr (l\<lparr>el_pendingFunctors := el_pendingFunctors l @ concat (map spawn fs),
       el_wakeups := el_wakeups l + length (concat (map spawn fs)), el_user := el_user l @ fs\<rparr>)"
  by (induction fs arbitrary: l) (simp_all add: spawning_def foldl_queueInLoop)

text \<open>
  C36. A round of pending functors ends after the functors that were queued when it began, each run
  once and in order, even if they queue themselves again: what they queue is left for the next round,
  and the loop will not block before it.
\<close>

theorem doPendingFunctors_ends:
  "\<exists>l'. doPendingFunctors (spawning spawn) l = Inr l' \<and> el_user l' = el_user l @ el_pendingFunctors l \<and>
     el_pendingFunctors l' = concat (map spawn (el_pendingFunctors l)) \<and> \<not> el_callingPendingFunctors l' \<and>
     (el_pendingFunctors l' \<noteq> [] \<longrightarrow> 0 < el_wakeups l')"
  by (simp add: doPendingFunctors_def Let_def call_all_spawning)

theorem doPendingFunctors_ends_witness:
  "\<exists>l'. doPendingFunctors (spawning (\<lambda>f. [f, f])) ((EventLoop_ctor [])\<lparr>el_pendingFunctors := [7 :: nat]\<rparr>) = Inr l' \<and>
     el_user l' = [7] \<and> el_pendingFunctors l' = [7, 7] \<and> 0 < el_wakeups l'"
  using doPendingFunctors_ends [of "\<lambda>f. [f, f]" "(EventLoop_ctor [])\<lparr>el_pendingFunctors := [7 :: nat]\<rparr>"]
  by (auto simp: EventLoop_ctor_def)

section \<open>Waking the loop up\<close>

text \<open>
  The loop thread is in \<^verbatim>\<open>poll\<close>, handling events, about to swap the queue, or calling the functors it
  took. Other threads may be between the two halves of \<^verbatim>\<open>queueInLoop\<close>; \<open>mid\<close> counts them.
\<close>

datatype 'f loop_pc = Polling | Handling | Swapping | Calling "'f list"

inductive loop_step ::
    "'f loop_pc \<times> nat \<times> ('f, 's) EventLoop \<Rightarrow> 'f loop_pc \<times> nat \<times> ('f, 's) EventLoop \<Rightarrow> bool" where
  poll_returns: "loop_step (Polling, mid, l) (Handling, mid, l)"
| read_wakeup: "loop_step (Handling, mid, l) (Handling, mid, EventLoop_handleRead l)"
| queue_handling: "loop_step (Handling, mid, l) (Handling, mid, queueInLoop True f l)"
| begin_calling: "loop_step (Handling, mid, l) (Swapping, mid, l\<lparr>el_callingPendingFunctors := True\<rparr>)"
| swap: "loop_step (Swapping, mid, l) (Calling (el_pendingFunctors l), mid, l\<lparr>el_pendingFunctors := []\<rparr>)"
| queue_calling: "loop_step (Calling fs, mid, l) (Calling fs, mid, queueInLoop True f l)"
| call: "loop_step (Calling (f # fs), mid, l) (Calling fs, mid, l)"
| end_calling: "loop_step (Calling [], mid, l) (Polling, mid, l\<lparr>el_callingPendingFunctors := False\<rparr>)"
| other_push: "loop_step (pc, mid, l) (pc, Suc mid, push_functor f l)"
| other_wakeup: "loop_step (pc, Suc mid, l) (pc, mid, wakeup_if_needed False l)"

inductive_cases loop_stepE: "loop_step s s'"

definition loop_wakeup_inv :: "'f loop_pc \<times> nat \<times> ('f, 's) EventLoop \<Rightarrow> bool" where
  "loop_wakeup_inv s \<longleftrightarrow>
     (case s of (pc, mid, l) \<Rightarrow>
        (el_callingPendingFunctors l \<longleftrightarrow> (case pc of Polling \<Rightarrow> False | Handling \<Rightarrow> False | _ \<Rightarrow> True)) \<and>
        ((case pc of Polling \<Rightarrow> True | Calling _ \<Rightarrow> True | _ \<Rightarrow> False) \<and> el_pendingFunctors l \<noteq> [] \<longrightarrow> 0 < el_wakeups l \<or> 0 < mid))"

lemma loop_wakeup_inv_step: "loop_step s s' \<Longrightarrow> loop_wakeup_inv s \<Longrightarrow> loop_wakeup_inv s'"
  by (erule loop_step.cases)
    (auto simp: loop_wakeup_inv_def queueInLoop_def push_functor_def wakeup_if_needed_def wakeup_def EventLoop_handleRead_def
      split: loop_pc.splits)

lemma loop_wakeup_inv_reach: "loop_step\<^sup>*\<^sup>* s s' \<Longrightarrow> loop_wakeup_inv s \<Longrightarrow> loop_wakeup_inv s'"
  by (induction rule: rtranclp_induct) (auto intro: loop_wakeup_inv_step)

text \<open>
  C14. No wake-up is lost. However the loop thread and the threads that queue functors interleave,
  whenever the loop sits in \<^verbatim>\<open>poll\<close> with functors pending, its eventfd is readable or a thread
  that has queued one is just about to write to it.
\<close>

theorem no_lost_wakeup:
  assumes "loop_step\<^sup>*\<^sup>* (Polling, 0, EventLoop_ctor u) (Polling, mid, l)" and "el_pendingFunctors l \<noteq> []"
  shows "0 < el_wakeups l \<or> 0 < mid"
proof -
  have "loop_wakeup_inv (Polling, 0, EventLoop_ctor u)"
    by (simp add: loop_wakeup_inv_def EventLoop_ctor_def)
  from loop_wakeup_inv_reach [OF assms(1) this] show ?thesis
    using assms(2) by (simp add: loop_wakeup_inv_def)
qed

theorem no_lost_wakeup_witness:
  "let l = wakeup_if_needed False (push_functor (7 :: nat) (EventLoop_ctor ())) in
   el_pendingFunctors l = [7] \<and> (0 < el_wakeups l \<or> 0 < (0 :: nat))"
proof -
  let ?l = "wakeup_if_needed False (push_functor (7 :: nat) (EventLoop_ctor ()))"
  have steps: "loop_step\<^sup>*\<^sup>* (Polling, 0, EventLoop_ctor ()) (Polling, 0, ?l)"
    by (rule converse_rtranclp_into_rtranclp [where r = loop_step], rule other_push,
        rule r_into_rtranclp [where r = loop_step], rule other_wakeup)
  have "el_pendingFunctors ?l = [7]"
    by (simp add: wakeup_if_needed_def push_functor_def wakeup_def EventLoop_ctor_def)
  with no_lost_wakeup [OF steps] show ?thesis
    by (simp add: Let_def)
qed

text \<open>A request to quit made before the loop starts is forgotten.\<close>

lemma quit_before_loop_lost:
  "\<not> el_looping l \<Longrightarrow> EventLoop_loop handle call [] (quit b l) = Inr (False, (quit b l)\<lparr>el_looping := True, el_quit := False\<rparr>)"
  by (simp add: EventLoop_loop_def quit_def Let_def wakeup_def)

end
