(* ===== verification/Tcp_Connection.thy ===== *)
theory Tcp_Connection
  imports Event_Loop "HOL-Library.Sublist"
begin

text \<open>
  The TCP connection of muduo (\<^verbatim>\<open>muduo/net/TcpConnection.cc\<close>), on which the sessions of the server
  are built: the connection states, the output buffer with its high water mark, half-close and close.

  The connection is the user state of its event loop. The two buffers are the byte strings they hold;
  what the kernel has taken from the connection is in the socket. The results of \<^verbatim>\<open>read(2)\<close> and
  \<^verbatim>\<open>write(2)\<close> are arguments of the handlers. User callbacks are values of a type \<open>'cb\<close>; calls of the
  connection, message and close callbacks are recorded in a log. Every function here runs in the
  loop thread, except where it takes an argument that says so.
\<close>

section \<open>Sockets\<close>

datatype errno = EWOULDBLOCK | EPIPE | ECONNRESET | OtherErrno

datatype write_result = Wrote nat | WriteFailed errno

datatype read_result = ReadData byte "byte list" | ReadEof | ReadFailed

record Socket =
  sk_sent :: "byte list"
  sk_fin :: bool

text \<open>\<^verbatim>\<open>write(2)\<close>: takes at most the given bytes, and fails with \<^verbatim>\<open>EPIPE\<close> after the write side was shut down.\<close>

definition sockets_write :: "write_result \<Rightarrow> byte list \<Rightarrow> Socket \<Rightarrow> (errno + nat) \<times> Socket" where
  "sockets_write w data sk =
     (if sk_fin sk then (Inl EPIPE, sk)
      else case w of
        Wrote n \<Rightarrow> (Inr (min n (length data)), sk\<lparr>sk_sent := sk_sent sk @ take n data\<rparr>)
      | WriteFailed e \<Rightarrow> (Inl e, sk))"

section \<open>The connection\<close>

datatype StateE = kDisconnected | kConnecting | kConnected | kDisconnecting

text \<open>What the connection queues in its loop.\<close>

datatype 'cb conn_functor =
    SendInLoop "byte list"
  | ShutdownInLoop
  | ForceCloseInLoop
  | StartReadInLoop
  | StopReadInLoop
  | WriteCompleteFunctor 'cb
  | HighWaterMarkFunctor 'cb nat
  | ConnectDestroyed

datatype callback_event = ConnectionEvent StateE | MessageEvent | CloseEvent | ErrorEvent

record 'cb TcpConnection =
  tc_address :: address
  tc_state :: StateE
  tc_reading :: bool
  tc_socket :: Socket
  tc_channel :: Channel
  tc_writeCompleteCallback :: "'cb option"
  tc_highWaterMarkCallback :: "'cb option"
  tc_highWaterMark :: nat
  tc_inputBuffer :: "byte list"
  tc_outputBuffer :: "byte list"
  tc_tcpNoDelay :: bool
  tc_log :: "callback_event list"

type_synonym 'cb conn_loop = "('cb conn_functor, 'cb TcpConnection) EventLoop"

definition TcpConnection_ctor :: "address \<Rightarrow> int \<Rightarrow> 'cb TcpConnection" where
  "TcpConnection_ctor a sockfd =
     \<lparr>tc_address = a, tc_state = kConnecting, tc_reading = True, tc_socket = \<lparr>sk_sent = [], sk_fin = False\<rparr>,
      tc_channel = Channel_ctor sockfd, tc_writeCompleteCallback = None, tc_highWaterMarkCallback = None,
      tc_highWaterMark = 64 * 1024 * 1024, tc_inputBuffer = [], tc_outputBuffer = [], tc_tcpNoDelay = False, tc_log = []\<rparr>"

definition TcpConnection_dtor :: "'cb TcpConnection \<Rightarrow> unit result" where
  "TcpConnection_dtor c = ensure (tc_state c = kDisconnected) AssertFailed"

definition upd_conn :: "('cb TcpConnection \<Rightarrow> 'cb TcpConnection) \<Rightarrow> 'cb conn_loop \<Rightarrow> 'cb conn_loop" where
  "upd_conn g l = l\<lparr>el_user := g (el_user l)\<rparr>"

text \<open>An operation of the connection's channel, which goes through to the poller of the loop.\<close>

definition on_channel ::
    "(address \<Rightarrow> Channel \<Rightarrow> EPollPoller \<Rightarrow> (Channel \<times> EPollPoller) result) \<Rightarrow> 'cb conn_loop \<Rightarrow> 'cb conn_loop result" where
  "on_channel op l =
     rbind (op (tc_address (el_user l)) (tc_channel (el_user l)) (el_poller l)) (\<lambda>(ch, p).
       Inr (l\<lparr>el_poller := p, el_user := (el_user l)\<lparr>tc_channel := ch\<rparr>\<rparr>))"

definition log_event :: "callback_event \<Rightarrow> 'cb conn_loop \<Rightarrow> 'cb conn_loop" where
  "log_event e = upd_conn (\<lambda>c. c\<lparr>tc_log := tc_log c @ [e]\<rparr>)"

definition setState :: "StateE \<Rightarrow> 'cb conn_loop \<Rightarrow> 'cb conn_loop" where
  "setState s = upd_conn (\<lambda>c. c\<lparr>tc_state := s\<rparr>)"

definition setWriteCompleteCallback :: "'cb option \<Rightarrow> 'cb conn_loop \<Rightarrow> 'cb conn_loop" where
  "setWriteCompleteCallback cb = upd_conn (\<lambda>c. c\<lparr>tc_writeCompleteCallback := cb\<rparr>)"

definition setHighWaterMarkCallback :: "'cb option \<Rightarrow> nat \<Rightarrow> 'cb conn_loop \<Rightarrow> 'cb conn_loop" where
  "setHighWaterMarkCallback cb n = upd_conn (\<lambda>c. c\<lparr>tc_highWaterMarkCallback := cb, tc_highWaterMark := n\<rparr>)"

definition setTcpNoDelay :: "bool \<Rightarrow> 'cb conn_loop \<Rightarrow> 'cb conn_loop" where
  "setTcpNoDelay on = upd_conn (\<lambda>c. c\<lparr>tc_tcpNoDelay := on\<rparr>)"

section \<open>Sending\<close>

text \<open>With nothing queued the data is written directly; the result is what was written and whether the peer is gone.\<close>

definition direct_write :: "write_result \<Rightarrow> byte list \<Rightarrow> 'cb conn_loop \<Rightarrow> nat \<times> bool \<times> 'cb conn_loop" where
  "direct_write w data l =
     (let c = el_user l in
      if \<not> isWriting (tc_channel c) \<and> tc_outputBuffer c = [] then
        (case sockets_write w data (tc_socket c) of
           (Inr nwrote, sk) \<Rightarrow>
             let l = upd_conn (\<lambda>c. c\<lparr>tc_socket := sk\<rparr>) l in
             (nwrote, False,
              case tc_writeCompleteCallback c of
                Some cb \<Rightarrow> if length data - nwrote = 0 then queueInLoop True (WriteCompleteFunctor cb) l else l
              | None \<Rightarrow> l)
         | (Inl e, sk) \<Rightarrow> (0, e \<noteq> EWOULDBLOCK \<and> (e = EPIPE \<or> e = ECONNRESET), l))
      else (0, False, l))"

definition notify_high_water_mark :: "nat \<Rightarrow> 'cb conn_loop \<Rightarrow> 'cb conn_loop" where
  "notify_high_water_mark remaining l =
     (let c = el_user l; oldLen = length (tc_outputBuffer c) in
      case tc_highWaterMarkCallback c of
        Some cb \<Rightarrow>
          if oldLen + remaining \<ge> tc_highWaterMark c \<and> oldLen < tc_highWaterMark c
          then queueInLoop True (HighWaterMarkFunctor cb (oldLen + remaining)) l else l
      | None \<Rightarrow> l)"

definition sendInLoop :: "write_result \<Rightarrow> byte list \<Rightarrow> 'cb conn_loop \<Rightarrow> 'cb conn_loop result" where
  "sendInLoop w data l =
     (if tc_state (el_user l) = kDisconnected then Inr l
      else
        let (nwrote, faultError, l) = direct_write w data l; remaining = length data - nwrote in
        rbind (ensure (remaining \<le> length data) AssertFailed) (\<lambda>_.
          if \<not> faultError \<and> remaining > 0 then
            let l = notify_high_water_mark remaining l;
                l = upd_conn (\<lambda>c. c\<lparr>tc_outputBuffer := tc_outputBuffer c @ take remaining (drop nwrote data)\<rparr>) l in
            if \<not> isWriting (tc_channel (el_user l)) then on_channel enableWriting l else Inr l
          else Inr l))"

definition TcpConnection_send :: "bool \<Rightarrow> write_result \<Rightarrow> byte list \<Rightarrow> 'cb conn_loop \<Rightarrow> 'cb conn_loop result" where
  "TcpConnection_send in_loop_thread w message l =
     (if tc_state (el_user l) = kConnected then
        if in_loop_thread then sendInLoop w message l
        else Inr (queueInLoop False (SendInLoop message) l)
      else Inr l)"

text \<open>The variant for a buffer gives back what is left in the buffer.\<close>

definition TcpConnection_send_buffer ::
    "bool \<Rightarrow> write_result \<Rightarrow> byte list \<Rightarrow> 'cb conn_loop \<Rightarrow> (byte list \<times> 'cb conn_loop) result" where
  "TcpConnection_send_buffer in_loop_thread w buf l =
     (if tc_state (el_user l) = kConnected then
        if in_loop_thread then rbind (sendInLoop w buf l) (\<lambda>l. Inr ([], l))
        else Inr ([], queueInLoop False (SendInLoop buf) l)
      else Inr (buf, l))"

section \<open>Closing\<close>

definition shutdownInLoop :: "'cb conn_loop \<Rightarrow> 'cb conn_loop" where
  "shutdownInLoop l =
     (if \<not> isWriting (tc_channel (el_user l))
      then upd_conn (\<lambda>c. c\<lparr>tc_socket := (tc_socket c)\<lparr>sk_fin := True\<rparr>\<rparr>) l else l)"

definition TcpConnection_shutdown :: "bool \<Rightarrow> 'cb conn_loop \<Rightarrow> 'cb conn_loop" where
  "TcpConnection_shutdown in_loop_thread l =
     (if tc_state (el_user l) = kConnected then
        let l = setState kDisconnecting l in
        if in_loop_thread then shutdownInLoop l else queueInLoop False ShutdownInLoop l
      else l)"

definition forceClose :: "bool \<Rightarrow> 'cb conn_loop \<Rightarrow> 'cb conn_loop" where
  "forceClose in_loop_thread l =
     (if tc_state (el_user l) = kConnected \<or> tc_state (el_user l) = kDisconnecting then
        queueInLoop in_loop_thread ForceCloseInLoop (setState kDisconnecting l)
      else l)"

text \<open>
  The close callback that \<^verbatim>\<open>TcpServer\<close> installs erases the connection from its map and queues
  \<^verbatim>\<open>connectDestroyed\<close>.
\<close>

definition closeCallback :: "'cb conn_loop \<Rightarrow> 'cb conn_loop" where
  "closeCallback l = queueInLoop True ConnectDestroyed (log_event CloseEvent l)"

definition handleClose :: "'cb conn_loop \<Rightarrow> 'cb conn_loop result" where
  "handleClose l =
     rbind (ensure (tc_state (el_user l) = kConnected \<or> tc_state (el_user l) = kDisconnecting) AssertFailed) (\<lambda>_.
     rbind (on_channel disableAll (setState kDisconnected l)) (\<lambda>l.
       Inr (closeCallback (log_event (ConnectionEvent kDisconnected) l))))"

definition forceCloseInLoop :: "'cb conn_loop \<Rightarrow> 'cb conn_loop result" where
  "forceCloseInLoop l =
     (if tc_state (el_user l) = kConnected \<or> tc_state (el_user l) = kDisconnecting then handleClose l else Inr l)"

section \<open>Reading\<close>

definition startReadInLoop :: "'cb conn_loop \<Rightarrow> 'cb conn_loop result" where
  "startReadInLoop l =
     (if \<not> tc_reading (el_user l) \<or> \<not> isReading (tc_channel (el_user l)) then
        rbind (on_channel enableReading l) (\<lambda>l. Inr (upd_conn (\<lambda>c. c\<lparr>tc_reading := True\<rparr>) l))
      else Inr l)"

definition startRead :: "bool \<Rightarrow> 'cb conn_loop \<Rightarrow> 'cb conn_loop result" where
  "startRead in_loop_thread l =
     (if in_loop_thread then startReadInLoop l else Inr (queueInLoop False StartReadInLoop l))"

definition stopReadInLoop :: "'cb conn_loop \<Rightarrow> 'cb conn_loop result" where
  "stopReadInLoop l =
     (if tc_reading (el_user l) \<or> isReading (tc_channel (el_user l)) then
        rbind (on_channel disableReading l) (\<lambda>l. Inr (upd_conn (\<lambda>c. c\<lparr>tc_reading := False\<rparr>) l))
      else Inr l)"

definition stopRead :: "bool \<Rightarrow> 'cb conn_loop \<Rightarrow> 'cb conn_loop result" where
  "stopRead in_loop_thread l =
     (if in_loop_thread then stopReadInLoop l else Inr (queueInLoop False StopReadInLoop l))"

section \<open>Events of the socket\<close>

definition connectEstablished :: "'cb conn_loop \<Rightarrow> 'cb conn_loop result" where
  "connectEstablished l =
     rbind (ensure (tc_state (el_user l) = kConnecting) AssertFailed) (\<lambda>_.
     rbind (on_channel enableReading (upd_conn (\<lambda>c. c\<lparr>tc_channel := Channel_tie (tc_channel c)\<rparr>) (setState kConnected l))) (\<lambda>l.
       Inr (log_event (ConnectionEvent kConnected) l)))"

definition connectDestroyed :: "'cb conn_loop \<Rightarrow> 'cb conn_loop result" where
  "connectDestroyed l =
     rbind (if tc_state (el_user l) = kConnected then
              rbind (on_channel disableAll (setState kDisconnected l)) (\<lambda>l. Inr (log_event (ConnectionEvent kDisconnected) l))
            else Inr l) (\<lambda>l.
     rbind (ensure (isNoneEvent (tc_channel (el_user l))) AssertFailed) (\<lambda>_.
     rbind (EventLoop_removeChannel (tc_address (el_user l)) ((tc_channel (el_user l))\<lparr>ch_addedToLoop := False\<rparr>) l) (\<lambda>(ch, l).
       Inr (upd_conn (\<lambda>c. c\<lparr>tc_channel := ch\<rparr>) l))))"

definition handleError :: "'cb conn_loop \<Rightarrow> 'cb conn_loop" where
  "handleError l = log_event ErrorEvent l"

definition handleRead :: "read_result \<Rightarrow> 'cb conn_loop \<Rightarrow> 'cb conn_loop result" where
  "handleRead r l =
     (case r of
        ReadData b bs \<Rightarrow> Inr (log_event MessageEvent (upd_conn (\<lambda>c. c\<lparr>tc_inputBuffer := tc_inputBuffer c @ b # bs\<rparr>) l))
      | ReadEof \<Rightarrow> handleClose l
      | ReadFailed \<Rightarrow> Inr (handleError l))"

text \<open>All that was queued is out: stop writing, tell the user, finish a pending half-close.\<close>

definition output_drained :: "'cb conn_loop \<Rightarrow> 'cb conn_loop result" where
  "output_drained l =
     rbind (on_channel disableWriting l) (\<lambda>l.
       let l = (case tc_writeCompleteCallback (el_user l) of
                  Some cb \<Rightarrow> queueInLoop True (WriteCompleteFunctor cb) l | None \<Rightarrow> l) in
       Inr (if tc_state (el_user l) = kDisconnecting then shutdownInLoop l else l))"

definition handleWrite :: "write_result \<Rightarrow> 'cb conn_loop \<Rightarrow> 'cb conn_loop result" where
  "handleWrite w l =
     (if isWriting (tc_channel (el_user l)) then
        case sockets_write w (tc_outputBuffer (el_user l)) (tc_socket (el_user l)) of
          (Inr n, sk) \<Rightarrow>
            if n > 0 then
              let l = upd_conn (\<lambda>c. c\<lparr>tc_socket := sk, tc_outputBuffer := drop n (tc_outputBuffer c)\<rparr>) l in
              if tc_outputBuffer (el_user l) = [] then output_drained l else Inr l
            else Inr l
        | (Inl e, sk) \<Rightarrow> Inr l
      else Inr l)"

text \<open>What the channel calls for the events the poller reported.\<close>

primrec channel_callback :: "read_result \<Rightarrow> write_result \<Rightarrow> channel_callback \<Rightarrow> 'cb conn_loop \<Rightarrow> 'cb conn_loop result" where
  "channel_callback r w CloseCallback l = handleClose l"
| "channel_callback r w ErrorCallback l = Inr (handleError l)"
| "channel_callback r w ReadCallback l = handleRead r l"
| "channel_callback r w WriteCallback l = handleWrite w l"

lemma channel_callback_eta [simp]:
  "channel_callback r w CloseCallback = handleClose" "channel_callback r w ErrorCallback = (\<lambda>l. Inr (handleError l))"
  "channel_callback r w ReadCallback = handleRead r" "channel_callback r w WriteCallback = handleWrite w"
  by (simp_all add: fun_eq_iff)

definition handle_event :: "events \<Rightarrow> read_result \<Rightarrow> write_result \<Rightarrow> 'cb conn_loop \<Rightarrow> 'cb conn_loop result" where
  "handle_event revents r w l =
     (let l = upd_conn (\<lambda>c. c\<lparr>tc_channel := (tc_channel c)\<lparr>ch_revents := revents\<rparr>\<rparr>) l in
      foldl (\<lambda>m cb. rbind m (channel_callback r w cb)) (Inr l) (handleEvent True (tc_channel (el_user l))))"

text \<open>What the loop runs for a queued functor; user callbacks are interpreted by \<open>user\<close>.\<close>

primrec call_functor ::
    "('cb \<Rightarrow> 'cb conn_loop \<Rightarrow> 'cb conn_loop result) \<Rightarrow> write_result \<Rightarrow> 'cb conn_functor \<Rightarrow> 'cb conn_loop \<Rightarrow> 'cb conn_loop result" where
  "call_functor user w (SendInLoop data) l = sendInLoop w data l"
| "call_functor user w ShutdownInLoop l = Inr (shutdownInLoop l)"
| "call_functor user w ForceCloseInLoop l = forceCloseInLoop l"
| "call_functor user w StartReadInLoop l = startReadInLoop l"
| "call_functor user w StopReadInLoop l = stopReadInLoop l"
| "call_functor user w (WriteCompleteFunctor cb) l = user cb l"
| "call_functor user w (HighWaterMarkFunctor cb n) l = user cb l"
| "call_functor user w ConnectDestroyed l = connectDestroyed l"

section \<open>The invariant\<close>

lemmas conn_simps = upd_conn_def log_event_def setState_def queueInLoop_def push_functor_def wakeup_if_needed_def wakeup_def

text \<open>
  While the connection is not closed it waits for the socket to become writable exactly if output
  is queued; after the close its channel waits for nothing. \<^verbatim>\<open>connectDestroyed\<close> is queued at most once,
  after the close and before the channel is removed. Nothing is queued once the write side is shut.
\<close>

definition conn_inv :: "'cb conn_loop \<Rightarrow> bool" where
  "conn_inv l \<longleftrightarrow>
     (let c = el_user l; ch = tc_channel c in
      registered (tc_address c) ch (el_poller l) \<and> ch_tied ch \<and> \<not> el_eventHandling l \<and> tc_state c \<noteq> kConnecting \<and>
      (if tc_state c = kDisconnected then isNoneEvent ch
       else (isWriting ch \<longleftrightarrow> tc_outputBuffer c \<noteq> []) \<and> ch_index ch \<noteq> kNew \<and> ConnectDestroyed \<notin> set (el_pendingFunctors l)) \<and>
      count_list (el_pendingFunctors l) ConnectDestroyed \<le> 1 \<and>
      (ConnectDestroyed \<in> set (el_pendingFunctors l) \<longrightarrow> ch_index ch \<noteq> kNew) \<and>
      (ShutdownInLoop \<in> set (el_pendingFunctors l) \<longrightarrow> tc_state c \<noteq> kConnected) \<and>
      (sk_fin (tc_socket c) \<and> tc_state c \<noteq> kDisconnected \<longrightarrow> tc_state c = kDisconnecting \<and> tc_outputBuffer c = []))"

text \<open>What the socket has taken and what is queued.\<close>

definition outgoing :: "'cb conn_loop \<Rightarrow> byte list" where
  "outgoing l = sk_sent (tc_socket (el_user l)) @ tc_outputBuffer (el_user l)"

text \<open>Only the channel and the poller change.\<close>

definition rechannel :: "Channel \<Rightarrow> EPollPoller \<Rightarrow> 'cb conn_loop \<Rightarrow> 'cb conn_loop" where
  "rechannel ch p l = l\<lparr>el_poller := p, el_user := (el_user l)\<lparr>tc_channel := ch\<rparr>\<rparr>"

lemma el_user_rechannel [simp]:
  "el_user (rechannel ch p l) = (el_user l)\<lparr>tc_channel := ch\<rparr>" "el_poller (rechannel ch p l) = p"
  "el_pendingFunctors (rechannel ch p l) = el_pendingFunctors l" "el_eventHandling (rechannel ch p l) = el_eventHandling l"
  by (simp_all add: rechannel_def)

lemma outgoing_rechannel [simp]: "outgoing (rechannel ch p l) = outgoing l"
  by (simp add: outgoing_def)

lemma upd_conn_simps [simp]:
  "el_user (upd_conn g l) = g (el_user l)" "el_poller (upd_conn g l) = el_poller l"
  "el_pendingFunctors (upd_conn g l) = el_pendingFunctors l" "el_eventHandling (upd_conn g l) = el_eventHandling l"
  by (simp_all add: upd_conn_def)

lemma queueInLoop_simps [simp]:
  "el_user (queueInLoop b f l) = el_user l" "el_poller (queueInLoop b f l) = el_poller l"
  "el_pendingFunctors (queueInLoop b f l) = el_pendingFunctors l @ [f]" "el_eventHandling (queueInLoop b f l) = el_eventHandling l"
  by (simp_all add: queueInLoop_def push_functor_def wakeup_if_needed_def wakeup_def)

lemma on_channel_update:
  assumes "registered (tc_address (el_user l)) (tc_channel (el_user l)) (el_poller l)"
    and "\<And>a ch p. op a ch p = Channel_update a (ch\<lparr>ch_events := f (ch_events ch)\<rparr>) p"
  obtains ch p where "on_channel op l = Inr (rechannel ch p l)" and "registered (tc_address (el_user l)) ch p"
    and "ch_tied ch = ch_tied (tc_channel (el_user l))" and "ch_index ch \<noteq> kNew"
    and "ch_events ch = f (ch_events (tc_channel (el_user l)))"
  using Channel_update_registered [OF assms(1), of "f (ch_events (tc_channel (el_user l)))"]
  by (auto simp: on_channel_def assms(2) rechannel_def)

lemmas on_enableReading = on_channel_update [OF _ enableReading_def]
lemmas on_disableReading = on_channel_update [OF _ disableReading_def]
lemmas on_enableWriting = on_channel_update [OF _ enableWriting_def]
lemmas on_disableWriting = on_channel_update [OF _ disableWriting_def]
lemmas on_disableAll = on_channel_update [OF _ disableAll_def]

lemma flags_of_events:
  "ch_events ch = e OR kWriteEvent \<Longrightarrow> isWriting ch"
  "ch_events ch = e AND NOT kWriteEvent \<Longrightarrow> \<not> isWriting ch"
  "ch_events ch = ch_events ch' OR kReadEvent \<Longrightarrow> isWriting ch = isWriting ch'"
  "ch_events ch = ch_events ch' AND NOT kReadEvent \<Longrightarrow> isWriting ch = isWriting ch'"
  "ch_events ch = kNoneEvent \<Longrightarrow> isNoneEvent ch"
  by (auto simp: isWriting_iff isNoneEvent_def bit_simps bit_kReadEvent bit_kWriteEvent)

text \<open>Every operation keeps the invariant, and extends what goes out by the data it accepts.\<close>

definition keeps :: "'cb conn_loop \<Rightarrow> byte list \<Rightarrow> 'cb conn_loop result \<Rightarrow> bool" where
  "keeps l data r \<longleftrightarrow> (\<exists>l'. r = Inr l' \<and> conn_inv l' \<and> outgoing l' = outgoing l @ data)"

lemma keepsI: "conn_inv l' \<Longrightarrow> outgoing l' = outgoing l @ data \<Longrightarrow> keeps l data (Inr l')"
  by (simp add: keeps_def)

lemma keeps_rbind:
  "keeps l xs m \<Longrightarrow> (\<And>l'. conn_inv l' \<Longrightarrow> outgoing l' = outgoing l @ xs \<Longrightarrow> keeps l' ys (f l')) \<Longrightarrow> keeps l (xs @ ys) (rbind m f)"
  unfolding keeps_def by (auto; metis append_assoc)

lemma conn_inv_queue:
  "conn_inv l \<Longrightarrow> f \<noteq> ConnectDestroyed \<Longrightarrow> f = ShutdownInLoop \<longrightarrow> tc_state (el_user l) \<noteq> kConnected \<Longrightarrow> conn_inv (queueInLoop b f l)"
  by (auto simp: conn_inv_def Let_def)

lemma outgoing_queue [simp]: "outgoing (queueInLoop b f l) = outgoing l"
  by (simp add: outgoing_def)

lemma conn_inv_registered: "conn_inv l \<Longrightarrow> registered (tc_address (el_user l)) (tc_channel (el_user l)) (el_poller l)"
  by (simp add: conn_inv_def Let_def)

definition accepted :: "write_result \<Rightarrow> byte list \<Rightarrow> 'cb conn_loop \<Rightarrow> byte list" where
  "accepted w data l =
     (if tc_state (el_user l) = kDisconnected \<or> fst (snd (direct_write w data l)) then [] else data)"

text \<open>Queueing the rest of a message.\<close>

definition queue_output :: "byte list \<Rightarrow> 'cb conn_loop \<Rightarrow> 'cb conn_loop result" where
  "queue_output rest l =
     (let l = notify_high_water_mark (length rest) l;
          l = upd_conn (\<lambda>c. c\<lparr>tc_outputBuffer := tc_outputBuffer c @ rest\<rparr>) l in
      if \<not> isWriting (tc_channel (el_user l)) then on_channel enableWriting l else Inr l)"

lemma notify_keeps:
  "conn_inv l \<Longrightarrow> conn_inv (notify_high_water_mark n l)" "el_user (notify_high_water_mark n l) = el_user l"
  "outgoing (notify_high_water_mark n l) = outgoing l"
  by (auto simp: notify_high_water_mark_def Let_def conn_inv_queue split: option.split)

lemma queue_output_keeps:
  assumes l: "conn_inv l" and opn: "tc_state (el_user l) \<noteq> kDisconnected" "\<not> sk_fin (tc_socket (el_user l))" and "rest \<noteq> []"
  shows "keeps l rest (queue_output rest l)"
proof -
  let ?n = "notify_high_water_mark (length rest) l"
  let ?l = "upd_conn (\<lambda>c. c\<lparr>tc_outputBuffer := tc_outputBuffer c @ rest\<rparr>) ?n"
  have n: "conn_inv ?n" "el_user ?n = el_user l" "outgoing ?n = outgoing l"
    using l notify_keeps by blast+
  have out: "outgoing ?l = outgoing l @ rest"
    using n(2) by (simp add: outgoing_def)
  show ?thesis
  proof (cases "isWriting (tc_channel (el_user l))")
    case True
    then have "conn_inv ?l"
      using n opn assms(4) by (auto simp: conn_inv_def Let_def)
    with True out show ?thesis
      using n(2) by (simp add: queue_output_def Let_def keepsI)
  next
    case False
    have reg: "registered (tc_address (el_user ?l)) (tc_channel (el_user ?l)) (el_poller ?l)"
      using n by (simp add: conn_inv_def Let_def)
    obtain ch p where ch: "on_channel enableWriting ?l = Inr (rechannel ch p ?l)" "registered (tc_address (el_user ?l)) ch p"
      "ch_tied ch = ch_tied (tc_channel (el_user ?l))" "ch_index ch \<noteq> kNew"
      "ch_events ch = ch_events (tc_channel (el_user ?l)) OR kWriteEvent"
      using on_enableWriting [OF reg] by blast
    have "isWriting ch"
      using ch(5) by (rule flags_of_events(1))
    then have "conn_inv (rechannel ch p ?l)"
      using n opn ch(2-4) assms(4) by (auto simp: conn_inv_def Let_def)
    with False ch(1) out show ?thesis
      using n(2) by (simp add: queue_output_def Let_def keepsI)
  qed
qed

lemma sendInLoop_keeps:
  assumes l: "conn_inv l"
  shows "keeps l (accepted w data l) (sendInLoop w data l)"
proof (cases "tc_state (el_user l) = kDisconnected")
  case True
  then show ?thesis
    using l by (simp add: sendInLoop_def accepted_def keepsI)
next
  case opn: False
  obtain nwrote fault l1 where d: "direct_write w data l = (nwrote, fault, l1)"
    by (metis prod_cases3)
  have send: "sendInLoop w data l = (if \<not> fault \<and> drop nwrote data \<noteq> [] then queue_output (drop nwrote data) l1 else Inr l1)"
    using opn by (simp add: sendInLoop_def d queue_output_def Let_def)
  have acc: "accepted w data l = (if fault then [] else data)"
    using opn by (simp add: accepted_def d)
  have d_inv: "conn_inv l1 \<and> outgoing l1 = outgoing l @ take nwrote data \<and> tc_state (el_user l1) = tc_state (el_user l) \<and>
      (fault \<longrightarrow> nwrote = 0) \<and> (\<not> fault \<longrightarrow> \<not> sk_fin (tc_socket (el_user l1)))"
  proof (cases "\<not> isWriting (tc_channel (el_user l)) \<and> tc_outputBuffer (el_user l) = []")
    case False
    then have "direct_write w data l = (0, False, l)"
      by (auto simp: direct_write_def Let_def)
    then show ?thesis
      using d l opn False by (auto simp: conn_inv_def Let_def)
  next
    case idle: True
    show ?thesis
    proof (cases "\<not> sk_fin (tc_socket (el_user l)) \<and> (\<exists>n. w = Wrote n)")
      case False
      then have "nwrote = 0" "l1 = l" "\<not> fault \<longrightarrow> \<not> sk_fin (tc_socket (el_user l))"
        using d idle by (auto simp: direct_write_def Let_def sockets_write_def split: if_splits write_result.splits)
      with l show ?thesis by simp
    next
      case True
      then obtain n where n: "w = Wrote n" and fin: "\<not> sk_fin (tc_socket (el_user l))"
        by blast
      let ?l = "upd_conn (\<lambda>c. c\<lparr>tc_socket := (tc_socket c)\<lparr>sk_sent := sk_sent (tc_socket c) @ take n data\<rparr>\<rparr>) l"
      have inv: "conn_inv ?l" "outgoing ?l = outgoing l @ take n data"
        using l idle fin by (auto simp: conn_inv_def Let_def outgoing_def)
      have "nwrote = min n (length data)" "\<not> fault" "l1 = ?l \<or> (\<exists>cb. l1 = queueInLoop True (WriteCompleteFunctor cb) ?l)"
        using d idle fin n by (auto simp: direct_write_def Let_def sockets_write_def upd_conn_def split: option.splits if_splits)
      with inv fin show ?thesis
        using conn_inv_queue [OF inv(1)] by (auto simp: min_def)
    qed
  qed
  show ?thesis
  proof (cases "\<not> fault \<and> drop nwrote data \<noteq> []")
    case True
    then have "keeps l1 (drop nwrote data) (queue_output (drop nwrote data) l1)"
      using d_inv opn by (intro queue_output_keeps) auto
    then show ?thesis
      using True d_inv unfolding send acc keeps_def by auto
  next
    case False
    then show ?thesis
      using d_inv unfolding send acc keeps_def by auto
  qed
qed

lemma shutdownInLoop_keeps:
  "conn_inv l \<Longrightarrow> tc_state (el_user l) \<noteq> kConnected \<Longrightarrow> keeps l [] (Inr (shutdownInLoop l))"
  by (intro keepsI; cases "tc_state (el_user l)") (auto simp: conn_inv_def Let_def shutdownInLoop_def outgoing_def)

lemma setState_Disconnecting:
  "conn_inv l \<Longrightarrow> tc_state (el_user l) \<noteq> kDisconnected \<Longrightarrow> conn_inv (setState kDisconnecting l)"
  "outgoing (setState s l) = outgoing l" "tc_state (el_user (setState s l)) = s"
  by (auto simp: conn_inv_def Let_def setState_def outgoing_def)

lemma shutdown_keeps: "conn_inv l \<Longrightarrow> keeps l [] (Inr (TcpConnection_shutdown b l))"
  using setState_Disconnecting(1) [of l] setState_Disconnecting(2,3) [of kDisconnecting l] shutdownInLoop_keeps [of "setState kDisconnecting l"]
    conn_inv_queue [of "setState kDisconnecting l" ShutdownInLoop False]
  by (auto simp: TcpConnection_shutdown_def Let_def keeps_def)

lemma forceClose_keeps: "conn_inv l \<Longrightarrow> keeps l [] (Inr (forceClose b l))"
  using setState_Disconnecting(1) [of l] setState_Disconnecting(2,3) [of kDisconnecting l] conn_inv_queue [of "setState kDisconnecting l" ForceCloseInLoop b]
  by (auto simp: forceClose_def Let_def keeps_def)

lemma handleClose_keeps:
  assumes l: "conn_inv l" and s: "tc_state (el_user l) \<noteq> kDisconnected"
  shows "keeps l [] (handleClose l)"
proof -
  have state: "tc_state (el_user l) = kConnected \<or> tc_state (el_user l) = kDisconnecting"
    using l s by (cases "tc_state (el_user l)") (auto simp: conn_inv_def Let_def)
  let ?l = "setState kDisconnected l"
  have reg: "registered (tc_address (el_user ?l)) (tc_channel (el_user ?l)) (el_poller ?l)"
    using conn_inv_registered [OF l] by (simp add: setState_def)
  obtain ch p where ch: "on_channel disableAll ?l = Inr (rechannel ch p ?l)" "registered (tc_address (el_user ?l)) ch p"
    "ch_tied ch = ch_tied (tc_channel (el_user ?l))" "ch_index ch \<noteq> kNew" "ch_events ch = kNoneEvent"
    using on_disableAll [OF reg] by blast
  have none: "isNoneEvent ch"
    using ch(5) by (rule flags_of_events(5))
  have "handleClose l = Inr (closeCallback (log_event (ConnectionEvent kDisconnected) (rechannel ch p ?l)))"
    using state ch(1) by (simp add: handleClose_def)
  moreover have "ConnectDestroyed \<notin> set (el_pendingFunctors l)"
    using l s by (simp add: conn_inv_def Let_def)
  then have "conn_inv (closeCallback (log_event (ConnectionEvent kDisconnected) (rechannel ch p ?l)))"
    using l none ch(2-4) by (auto simp: conn_inv_def Let_def closeCallback_def log_event_def setState_def count_list_0_iff)
  ultimately show ?thesis
    by (simp add: keeps_def closeCallback_def log_event_def outgoing_def setState_def)
qed

lemma forceCloseInLoop_keeps: "conn_inv l \<Longrightarrow> keeps l [] (forceCloseInLoop l)"
  using handleClose_keeps [of l] by (auto simp: forceCloseInLoop_def keepsI)

lemma startReadInLoop_keeps:
  assumes l: "conn_inv l" and s: "tc_state (el_user l) \<noteq> kDisconnected"
  shows "keeps l [] (startReadInLoop l)"
proof -
  obtain ch p where ch: "on_channel enableReading l = Inr (rechannel ch p l)" "registered (tc_address (el_user l)) ch p"
    "ch_tied ch = ch_tied (tc_channel (el_user l))" "ch_index ch \<noteq> kNew"
    "ch_events ch = ch_events (tc_channel (el_user l)) OR kReadEvent"
    using on_enableReading [OF conn_inv_registered [OF l]] by blast
  have "conn_inv (upd_conn (\<lambda>c. c\<lparr>tc_reading := True\<rparr>) (rechannel ch p l))"
    using l s ch(2-4) flags_of_events(3) [OF ch(5)] by (auto simp: conn_inv_def Let_def)
  then show ?thesis
    using l ch(1) by (auto simp: startReadInLoop_def keeps_def outgoing_def)
qed

lemma stopReadInLoop_keeps:
  assumes l: "conn_inv l"
  shows "keeps l [] (stopReadInLoop l)"
proof -
  obtain ch p where ch: "on_channel disableReading l = Inr (rechannel ch p l)" "registered (tc_address (el_user l)) ch p"
    "ch_tied ch = ch_tied (tc_channel (el_user l))" "ch_index ch \<noteq> kNew"
    "ch_events ch = ch_events (tc_channel (el_user l)) AND NOT kReadEvent"
    using on_disableReading [OF conn_inv_registered [OF l]] by blast
  have none: "isNoneEvent (tc_channel (el_user l)) \<Longrightarrow> isNoneEvent ch"
    using ch(5) by (simp add: isNoneEvent_def kNoneEvent_def)
  have "conn_inv (upd_conn (\<lambda>c. c\<lparr>tc_reading := False\<rparr>) (rechannel ch p l))"
    using l ch(2-4) none flags_of_events(4) [OF ch(5)] by (auto simp: conn_inv_def Let_def split: if_splits)
  then show ?thesis
    using l ch(1) by (auto simp: stopReadInLoop_def keeps_def outgoing_def)
qed

lemma output_drained_keeps:
  assumes reg: "registered (tc_address (el_user l)) (tc_channel (el_user l)) (el_poller l)"
    and inv: "\<And>ch p. registered (tc_address (el_user l)) ch p \<Longrightarrow> ch_tied ch = ch_tied (tc_channel (el_user l)) \<Longrightarrow>
      ch_index ch \<noteq> kNew \<Longrightarrow> \<not> isWriting ch \<Longrightarrow> conn_inv (rechannel ch p l)"
  shows "keeps l [] (output_drained l)"
proof -
  obtain ch p where ch: "on_channel disableWriting l = Inr (rechannel ch p l)" "registered (tc_address (el_user l)) ch p"
    "ch_tied ch = ch_tied (tc_channel (el_user l))" "ch_index ch \<noteq> kNew"
    "ch_events ch = ch_events (tc_channel (el_user l)) AND NOT kWriteEvent"
    using on_disableWriting [OF reg] by blast
  define l1 where "l1 = (case tc_writeCompleteCallback (el_user l) of
      Some cb \<Rightarrow> queueInLoop True (WriteCompleteFunctor cb) (rechannel ch p l) | None \<Rightarrow> rechannel ch p l)"
  have "conn_inv (rechannel ch p l)"
    using inv [OF ch(2-4) flags_of_events(2) [OF ch(5)]] .
  then have l1: "conn_inv l1" "outgoing l1 = outgoing l" "tc_state (el_user l1) = tc_state (el_user l)"
    by (auto simp: l1_def conn_inv_queue split: option.splits)
  have "output_drained l = Inr (if tc_state (el_user l1) = kDisconnecting then shutdownInLoop l1 else l1)"
    using ch(1) by (simp add: output_drained_def Let_def l1_def)
  then show ?thesis
    using l1 shutdownInLoop_keeps [OF l1(1)] by (auto simp: keeps_def)
qed

lemma handleWrite_keeps:
  assumes l: "conn_inv l"
  shows "keeps l [] (handleWrite w l)"
proof (cases "isWriting (tc_channel (el_user l))")
  case False
  then show ?thesis
    using l by (simp add: handleWrite_def keepsI)
next
  case True
  then have opn: "tc_state (el_user l) \<noteq> kDisconnected" "tc_outputBuffer (el_user l) \<noteq> []" "\<not> sk_fin (tc_socket (el_user l))"
    using l by (auto simp: conn_inv_def Let_def isNoneEvent_def isWriting_def kNoneEvent_def split: if_splits)
  show ?thesis
  proof (cases "\<exists>n. w = Wrote n \<and> 0 < n")
    case False
    then show ?thesis
      using l True opn by (auto simp: handleWrite_def sockets_write_def keepsI split: write_result.split)
  next
    case n: True
    then obtain n where n: "w = Wrote n" "0 < n"
      by blast
    let ?l = "upd_conn (\<lambda>c. c\<lparr>tc_socket := (tc_socket c)\<lparr>sk_sent := sk_sent (tc_socket c) @ take n (tc_outputBuffer c)\<rparr>,
        tc_outputBuffer := drop (min n (length (tc_outputBuffer c))) (tc_outputBuffer c)\<rparr>) l"
    have out: "outgoing ?l = outgoing l"
      by (simp add: outgoing_def min_def)
    have w: "handleWrite w l = (if tc_outputBuffer (el_user ?l) = [] then output_drained ?l else Inr ?l)"
      using True n opn by (simp add: handleWrite_def sockets_write_def Let_def upd_conn_def)
    show ?thesis
    proof (cases "tc_outputBuffer (el_user ?l) = []")
      case False
      then have "conn_inv ?l"
        using l True opn by (auto simp: conn_inv_def Let_def)
      with False out show ?thesis
        unfolding w by (simp add: keepsI)
    next
      case empty: True
      have "keeps ?l [] (output_drained ?l)"
        using l opn empty by (intro output_drained_keeps) (auto simp: conn_inv_def Let_def)
      with empty out show ?thesis
        unfolding w by (simp add: keeps_def)
    qed
  qed
qed

lemma connectDestroyed_keeps:
  assumes l: "conn_inv l" and s: "tc_state (el_user l) = kDisconnected" "ch_index (tc_channel (el_user l)) \<noteq> kNew"
    and pending: "ConnectDestroyed \<notin> set (el_pendingFunctors l)"
  shows "keeps l [] (connectDestroyed l)"
proof -
  let ?c = "el_user l"
  have reg: "registered (tc_address ?c) (tc_channel ?c) (el_poller l)" and none: "isNoneEvent (tc_channel ?c)"
    using l s by (simp_all add: conn_inv_def Let_def)
  obtain ch p where ch: "Channel_remove (tc_address ?c) (tc_channel ?c) (el_poller l) = Inr (ch, p)"
    "registered (tc_address ?c) ch p" "ch_events ch = 0"
    using Channel_remove_registered [OF reg none s(2)] by blast
  have tied: "ch_tied ch = ch_tied (tc_channel ?c)"
    using ch(1) by (auto simp: Channel_remove_def EPollPoller_removeChannel_def Let_def rbind_eq_Inr split: if_splits)
  have "connectDestroyed l = Inr (rechannel ch p l)"
    using l s(1) none ch(1) by (simp add: connectDestroyed_def EventLoop_removeChannel_def Channel_remove_def conn_inv_def Let_def
        rechannel_def upd_conn_def)
  moreover have "conn_inv (rechannel ch p l)"
    using l s(1) ch(2,3) tied pending by (auto simp: conn_inv_def Let_def isNoneEvent_def kNoneEvent_def)
  ultimately show ?thesis
    by (simp add: keepsI)
qed

lemma handleRead_keeps:
  assumes "conn_inv l" and "r = ReadEof \<longrightarrow> tc_state (el_user l) \<noteq> kDisconnected"
  shows "keeps l [] (handleRead r l)"
  using assms handleClose_keeps [of l]
  by (cases r) (auto simp: handleRead_def handleError_def log_event_def conn_inv_def Let_def keeps_def outgoing_def)

section \<open>Histories of a connection\<close>

text \<open>The kernel reports that the peer is gone without urgent data, or together with readable data.\<close>

definition hup_ok :: "events \<Rightarrow> bool" where
  "hup_ok revents \<longleftrightarrow> revents AND POLLHUP \<noteq> 0 \<and> revents AND POLLIN = 0 \<longrightarrow> revents AND (POLLIN OR POLLPRI OR POLLRDHUP) = 0"

lemma handle_event_keeps:
  assumes l: "conn_inv l" and s: "tc_state (el_user l) \<noteq> kDisconnected" and hup: "hup_ok revents"
  shows "keeps l [] (handle_event revents r w l)"
proof -
  let ?l = "upd_conn (\<lambda>c. c\<lparr>tc_channel := (tc_channel c)\<lparr>ch_revents := revents\<rparr>\<rparr>) l"
  have inv: "conn_inv ?l" "outgoing ?l = outgoing l" "tc_state (el_user ?l) \<noteq> kDisconnected"
    using l s by (auto simp: conn_inv_def Let_def outgoing_def registered_def isWriting_def isNoneEvent_def)
  have cbs: "handleEvent True (tc_channel (el_user ?l)) = handleEventWithGuard (tc_channel (el_user ?l))"
    by (simp add: handleEvent_def)
  have error: "keeps l' [] (Inr (handleError l'))" if "conn_inv l'" for l' :: "'a conn_loop"
    using that by (simp add: keeps_def handleError_def log_event_def conn_inv_def Let_def outgoing_def)
  note seq = keeps_rbind [where xs = "[]" and ys = "[]", simplified]
  let ?e = "revents AND (POLLERR OR POLLNVAL) \<noteq> 0" and ?o = "revents AND POLLOUT \<noteq> 0"
    and ?i = "revents AND (POLLIN OR POLLPRI OR POLLRDHUP) \<noteq> 0"
  have opt_error: "keeps l' [] (if ?e then Inr (handleError l') else Inr l')" if "conn_inv l'" for l' :: "'a conn_loop"
    using error [OF that] that by (simp add: keepsI)
  have opt_write: "keeps l' [] (if ?o then handleWrite w l' else Inr l')" if "conn_inv l'" for l' :: "'a conn_loop"
    using handleWrite_keeps [OF that] that by (simp add: keepsI)
  show ?thesis
  proof (cases "revents AND POLLHUP \<noteq> 0 \<and> revents AND POLLIN = 0")
    case True
    then have "\<not> ?i"
      using hup by (simp add: hup_ok_def)
    then have "handle_event revents r w l =
        rbind (rbind (handleClose ?l) (\<lambda>l. if ?e then Inr (handleError l) else Inr l)) (\<lambda>l. if ?o then handleWrite w l else Inr l)"
      unfolding handle_event_def Let_def cbs using True by (cases "handleClose ?l") (auto simp: handleEventWithGuard_def Let_def)
    moreover have "keeps ?l [] (rbind (rbind (handleClose ?l) (\<lambda>l. if ?e then Inr (handleError l) else Inr l))
        (\<lambda>l. if ?o then handleWrite w l else Inr l))"
      by (rule seq, rule seq, rule handleClose_keeps) (use inv opt_error opt_write in auto)
    ultimately show ?thesis
      using inv(2) by (simp add: keeps_def)
  next
    case False
    let ?l1 = "if ?e then handleError ?l else ?l"
    have l1: "conn_inv ?l1" "outgoing ?l1 = outgoing l" "tc_state (el_user ?l1) \<noteq> kDisconnected"
      using inv error [OF inv(1)] by (auto simp: keeps_def handleError_def log_event_def)
    have "handle_event revents r w l =
        rbind (if ?i then handleRead r ?l1 else Inr ?l1) (\<lambda>l. if ?o then handleWrite w l else Inr l)"
      unfolding handle_event_def Let_def cbs using False by (auto simp: handleEventWithGuard_def Let_def)
    moreover have "keeps ?l1 [] (if ?i then handleRead r ?l1 else Inr ?l1)"
      using handleRead_keeps [OF l1(1)] l1 by (auto simp: keepsI)
    then have "keeps ?l1 [] (rbind (if ?i then handleRead r ?l1 else Inr ?l1) (\<lambda>l. if ?o then handleWrite w l else Inr l))"
      by (rule seq) (use opt_write in auto)
    ultimately show ?thesis
      using l1(2) by (simp add: keeps_def)
  qed
qed

text \<open>The functor at the head of the queue; user callbacks act through the operations below.\<close>

definition run_functor :: "write_result \<Rightarrow> 'cb conn_functor \<Rightarrow> 'cb conn_loop \<Rightarrow> 'cb conn_loop result" where
  "run_functor w f l = call_functor (\<lambda>_ l. Inr l) w f (l\<lparr>el_pendingFunctors := tl (el_pendingFunctors l)\<rparr>)"

primrec functor_data :: "write_result \<Rightarrow> 'cb conn_functor \<Rightarrow> 'cb conn_loop \<Rightarrow> byte list" where
  "functor_data w (SendInLoop data) l = accepted w data l"
| "functor_data w ShutdownInLoop l = []"
| "functor_data w ForceCloseInLoop l = []"
| "functor_data w StartReadInLoop l = []"
| "functor_data w StopReadInLoop l = []"
| "functor_data w (WriteCompleteFunctor cb) l = []"
| "functor_data w (HighWaterMarkFunctor cb n) l = []"
| "functor_data w ConnectDestroyed l = []"

lemma accepted_pending [simp]: "accepted w data (l\<lparr>el_pendingFunctors := fs\<rparr>) = accepted w data l"
proof -
  have "fst (snd (direct_write w data (l\<lparr>el_pendingFunctors := fs\<rparr>))) = fst (snd (direct_write w data l))"
    by (cases "sockets_write w data (tc_socket (el_user l))") (auto simp: direct_write_def Let_def split: sum.split)
  then show ?thesis
    by (simp add: accepted_def)
qed

lemma run_functor_keeps:
  assumes l: "conn_inv l" and f: "el_pendingFunctors l = f # fs"
    and late: "f = StartReadInLoop \<longrightarrow> tc_state (el_user l) \<noteq> kDisconnected"
  shows "keeps l (functor_data w f l) (run_functor w f l)"
proof -
  let ?l = "l\<lparr>el_pendingFunctors := fs\<rparr>"
  have inv: "conn_inv ?l"
    using l f by (auto simp: conn_inv_def Let_def split: if_splits)
  have out: "outgoing ?l = outgoing l"
    by (simp add: outgoing_def)
  have "keeps ?l (functor_data w f l) (call_functor (\<lambda>_ l. Inr l) w f ?l)"
  proof (cases f)
    case (SendInLoop data)
    then show ?thesis
      using sendInLoop_keeps [OF inv, of w data] by simp
  next
    case ShutdownInLoop
    then show ?thesis
      using shutdownInLoop_keeps [OF inv] l f by (auto simp: conn_inv_def Let_def)
  next
    case ConnectDestroyed
    then have "tc_state (el_user l) = kDisconnected" "ch_index (tc_channel (el_user l)) \<noteq> kNew" "ConnectDestroyed \<notin> set fs"
      using l f by (auto simp: conn_inv_def Let_def count_list_0_iff split: if_splits)
    then show ?thesis
      using connectDestroyed_keeps [OF inv] ConnectDestroyed by simp
  qed (use inv late forceCloseInLoop_keeps [OF inv] startReadInLoop_keeps [OF inv] stopReadInLoop_keeps [OF inv] in \<open>auto intro: keepsI\<close>)
  then show ?thesis
    using out f by (simp add: keeps_def run_functor_def)
qed

text \<open>
  The histories of one connection: calls of its operations from the loop thread or from others,
  queued functors in order, socket events while it is not closed. The second component is the data that
  was accepted for sending.
\<close>

inductive conn_reach :: "'cb conn_loop \<Rightarrow> byte list \<Rightarrow> bool" where
  established: "connectEstablished (EventLoop_ctor (TcpConnection_ctor a fd)) = Inr l \<Longrightarrow> conn_reach l []"
| write_complete_cb: "conn_reach l sent \<Longrightarrow> conn_reach (setWriteCompleteCallback cb l) sent"
| high_water_mark_cb: "conn_reach l sent \<Longrightarrow> conn_reach (setHighWaterMarkCallback cb n l) sent"
| consume: "conn_reach l sent \<Longrightarrow> conn_reach (upd_conn (\<lambda>c. c\<lparr>tc_inputBuffer := drop n (tc_inputBuffer c)\<rparr>) l) sent"
| send: "conn_reach l sent \<Longrightarrow> TcpConnection_send in_loop w data l = Inr l' \<Longrightarrow>
    conn_reach l' (sent @ (if in_loop \<and> tc_state (el_user l) = kConnected then accepted w data l else []))"
| shutdown: "conn_reach l sent \<Longrightarrow> conn_reach (TcpConnection_shutdown in_loop l) sent"
| force_close: "conn_reach l sent \<Longrightarrow> conn_reach (forceClose in_loop l) sent"
| start_read: "conn_reach l sent \<Longrightarrow> in_loop \<longrightarrow> tc_state (el_user l) \<noteq> kDisconnected \<Longrightarrow>
    startRead in_loop l = Inr l' \<Longrightarrow> conn_reach l' sent"
| stop_read: "conn_reach l sent \<Longrightarrow> stopRead in_loop l = Inr l' \<Longrightarrow> conn_reach l' sent"
| run: "conn_reach l sent \<Longrightarrow> el_pendingFunctors l = f # fs \<Longrightarrow>
    f = StartReadInLoop \<longrightarrow> tc_state (el_user l) \<noteq> kDisconnected \<Longrightarrow>
    run_functor w f l = Inr l' \<Longrightarrow> conn_reach l' (sent @ functor_data w f l)"
| event: "conn_reach l sent \<Longrightarrow> tc_state (el_user l) \<noteq> kDisconnected \<Longrightarrow> hup_ok revents \<Longrightarrow>
    handle_event revents r w l = Inr l' \<Longrightarrow> conn_reach l' sent"

lemma established_inv:
  assumes "connectEstablished (EventLoop_ctor (TcpConnection_ctor a fd)) = Inr l"
  shows "conn_inv l" "outgoing l = []"
proof -
  let ?l0 = "upd_conn (\<lambda>c. c\<lparr>tc_channel := Channel_tie (tc_channel c)\<rparr>) (setState kConnected (EventLoop_ctor (TcpConnection_ctor a fd))) :: 'a conn_loop"
  have reg: "registered (tc_address (el_user ?l0)) (tc_channel (el_user ?l0)) (el_poller ?l0)"
    by (simp add: registered_def setState_def EventLoop_ctor_def TcpConnection_ctor_def Channel_tie_def isNoneEvent_def
        EPollPoller_ctor_def Channel_ctor_def index_constants kNoneEvent_def)
  obtain ch p where ch: "on_channel enableReading ?l0 = Inr (rechannel ch p ?l0)" "registered (tc_address (el_user ?l0)) ch p"
    "ch_tied ch = ch_tied (tc_channel (el_user ?l0))" "ch_index ch \<noteq> kNew"
    "ch_events ch = ch_events (tc_channel (el_user ?l0)) OR kReadEvent"
    using on_enableReading [OF reg] by blast
  have l: "l = log_event (ConnectionEvent kConnected) (rechannel ch p ?l0)"
    using assms ch(1) by (simp add: connectEstablished_def EventLoop_ctor_def TcpConnection_ctor_def)
  have "\<not> isWriting ch"
    using flags_of_events(3) [OF ch(5)]
    by (simp add: setState_def EventLoop_ctor_def TcpConnection_ctor_def Channel_tie_def Channel_ctor_def isWriting_def)
  then show "conn_inv l" "outgoing l = []"
    unfolding l using ch(2-4)
    by (simp_all add: conn_inv_def Let_def outgoing_def log_event_def setState_def EventLoop_ctor_def TcpConnection_ctor_def Channel_tie_def)
qed

lemma send_keeps:
  "conn_inv l \<Longrightarrow> keeps l (if in_loop \<and> tc_state (el_user l) = kConnected then accepted w data l else []) (TcpConnection_send in_loop w data l)"
  using sendInLoop_keeps [of l w data] conn_inv_queue [of l "SendInLoop data" False] by (auto simp: TcpConnection_send_def keepsI)

lemma conn_inv_frame:
  "conn_inv (setWriteCompleteCallback cb l) = conn_inv l" "conn_inv (setHighWaterMarkCallback cb n l) = conn_inv l"
  "conn_inv (upd_conn (\<lambda>c. c\<lparr>tc_inputBuffer := xs c\<rparr>) l) = conn_inv l"
  "outgoing (setWriteCompleteCallback cb l) = outgoing l" "outgoing (setHighWaterMarkCallback cb n l) = outgoing l"
  "outgoing (upd_conn (\<lambda>c. c\<lparr>tc_inputBuffer := xs c\<rparr>) l) = outgoing l"
  by (simp_all add: setWriteCompleteCallback_def setHighWaterMarkCallback_def conn_inv_def outgoing_def Let_def)

lemma keepsD: "keeps l data r \<Longrightarrow> r = Inr l' \<Longrightarrow> conn_inv l' \<and> outgoing l' = outgoing l @ data"
  by (auto simp: keeps_def)

lemma conn_reach_inv: "conn_reach l sent \<Longrightarrow> conn_inv l \<and> outgoing l = sent"
proof (induction rule: conn_reach.induct)
  case (established a fd l)
  then show ?case
    using established_inv by blast
next
  case (send l sent in_loop w data l')
  then show ?case
    using keepsD [OF send_keeps] by blast
next
  case (shutdown l sent in_loop)
  then show ?case
    using keepsD [OF shutdown_keeps refl] by auto
next
  case (force_close l sent in_loop)
  then show ?case
    using keepsD [OF forceClose_keeps refl] by auto
next
  case (start_read l sent in_loop l')
  then show ?case
    using keepsD [OF startReadInLoop_keeps] conn_inv_queue [of l StartReadInLoop False]
    by (cases in_loop) (auto simp: startRead_def)
next
  case (stop_read l sent in_loop l')
  then show ?case
    using keepsD [OF stopReadInLoop_keeps] conn_inv_queue [of l StopReadInLoop False]
    by (cases in_loop) (auto simp: stopRead_def)
next
  case (run l sent f fs w l')
  then show ?case
    using keepsD [OF run_functor_keeps] by blast
next
  case (event l sent revents r w l')
  then show ?case
    using keepsD [OF handle_event_keeps] by fastforce
qed (simp_all add: conn_inv_frame)


text \<open>Evaluating a history from the start.\<close>

lemmas poller_eval = Channel_update_def EPollPoller_updateChannel_def EPollPoller_update_def epoll_ctl_def Channel_ctor_def
  Channel_tie_def EPollPoller_ctor_def index_constants Let_def isNoneEvent_def kNoneEvent_def

lemmas conn_eval = EventLoop_ctor_def TcpConnection_ctor_def connectEstablished_def on_channel_def channel_op_defs
  poller_eval conn_simps

definition established_loop :: "address \<Rightarrow> int \<Rightarrow> 'cb conn_loop" where
  "established_loop a fd = \<lparr>el_looping = False, el_quit = False, el_eventHandling = False, el_callingPendingFunctors = False,
     el_iteration = 0, el_pendingFunctors = [], el_wakeups = 0,
     el_poller = \<lparr>ep_channels = [fd \<mapsto> a], ep_kernel = [fd \<mapsto> (kReadEvent, a)]\<rparr>,
     el_activeChannels = [], el_currentActiveChannel = None,
     el_user = (TcpConnection_ctor a fd)\<lparr>tc_state := kConnected, tc_log := [ConnectionEvent kConnected],
       tc_channel := (Channel_ctor fd)\<lparr>ch_events := kReadEvent, ch_index := kAdded, ch_tied := True, ch_addedToLoop := True\<rparr>\<rparr>\<rparr>"

lemma connectEstablished_loop: "connectEstablished (EventLoop_ctor (TcpConnection_ctor a fd)) = Inr (established_loop a fd)"
  by (simp add: conn_eval established_loop_def)


text \<open>
  C37. A connection that was told to stop reading and is then force-closed with nothing left to send is
  put back into the kernel's interest list by the close itself, since disabling all events of a
  channel that is not watched adds it again; the hang-up that the kernel then reports before the
  connection is destroyed runs the close handler a second time, and its assertion aborts the process.
\<close>

theorem hangup_after_close_aborts:
  "\<exists>l0 l1 (l2 :: 'cb conn_loop). connectEstablished (EventLoop_ctor (TcpConnection_ctor a fd)) = Inr l0 \<and> stopRead True l0 = Inr l1 \<and>
     ep_kernel (el_poller l1) fd = None \<and> run_functor w ForceCloseInLoop (forceClose True l1) = Inr l2 \<and>
     tc_state (el_user l2) = kDisconnected \<and> ep_kernel (el_poller l2) fd = Some (0, a) \<and>
     handle_event POLLHUP r w l2 = Inl AssertFailed"
proof -
  let ?l0 = "established_loop a fd :: 'cb conn_loop"
  obtain l1 where l1: "stopRead True ?l0 = Inr l1" "ep_kernel (el_poller l1) fd = None" "el_pendingFunctors l1 = []"
    "tc_state (el_user l1) = kConnected" "tc_channel (el_user l1) = (tc_channel (el_user ?l0))\<lparr>ch_events := 0, ch_index := kDeleted\<rparr>"
    "tc_address (el_user l1) = a" "ep_channels (el_poller l1) fd = Some a"
    by (simp add: stopRead_def stopReadInLoop_def established_loop_def TcpConnection_ctor_def on_channel_def disableReading_def
        poller_eval upd_conn_def)
  let ?f = "forceClose True l1"
  obtain l2 where l2: "run_functor w ForceCloseInLoop ?f = Inr l2" "tc_state (el_user l2) = kDisconnected"
    "ep_kernel (el_poller l2) fd = Some (0, a)" "ch_tied (tc_channel (el_user l2))"
    using l1(2-7) by (simp add: run_functor_def forceCloseInLoop_def forceClose_def handleClose_def closeCallback_def
        on_channel_def disableAll_def poller_eval setState_def log_event_def established_loop_def)
  have "handle_event POLLHUP r w l2 = Inl AssertFailed"
    using l2(2,4) by (simp add: handle_event_def Let_def handleEvent_def handleEventWithGuard_def poll_constants handleClose_def)
  with l1(1,2) l2 show ?thesis
    using connectEstablished_loop by metis
qed

end
