(* ===== verification/Session.thy ===== *)
theory Session
  imports Tcp_Connection Codec_Proto
begin

text \<open>
  Sessions over a connection (\<^verbatim>\<open>src/common/net/session.cpp\<close>, \<^verbatim>\<open>protobuf_session.cpp\<close>): sending of messages
  and the back pressure by which a session stops reading from a peer that does not take its output.

  Both files refer to names that do not exist (a header \<^verbatim>\<open>boost/bind.h\<close>, a member \<^verbatim>\<open>onWriteComplete\<close>,
  \<^verbatim>\<open>lock\<close> through the arrow of a weak pointer), so the model follows the evident reading. The callbacks
  that a session installs in its connection are the values of a datatype.
\<close>

section \<open>The session\<close>

datatype session_callback = OnConnectedCallback | OnMessageCallback | OnCloseCallback | OnHighWaterMarkCallback | OnWriteCompleteWeak

type_synonym session_loop = "session_callback conn_loop"

record Session =
  ss_owned :: bool \<comment> \<open>a \<^verbatim>\<open>shared_ptr\<close> owns the session\<close>
  ss_connectionCallback :: "session_callback option"
  ss_messageCallback :: "session_callback option"
  ss_closeCallback :: "session_callback option"

text \<open>\<^verbatim>\<open>shared_from_this\<close> throws unless a shared pointer owns the object already.\<close>

definition shared_from_this :: "Session \<Rightarrow> unit result" where
  "shared_from_this s = ensure (ss_owned s) BadWeakPtr"

definition install_callbacks :: "nat \<Rightarrow> Session \<Rightarrow> session_loop \<Rightarrow> (Session \<times> session_loop) result" where
  "install_callbacks watermark s l =
     rbind (shared_from_this s) (\<lambda>_.
       let s = s\<lparr>ss_connectionCallback := Some OnConnectedCallback\<rparr> in
     rbind (shared_from_this s) (\<lambda>_.
       let s = s\<lparr>ss_messageCallback := Some OnMessageCallback\<rparr> in
     rbind (shared_from_this s) (\<lambda>_.
       let s = s\<lparr>ss_closeCallback := Some OnCloseCallback\<rparr> in
     rbind (shared_from_this s) (\<lambda>_.
       Inr (s, setTcpNoDelay True (setHighWaterMarkCallback (Some OnHighWaterMarkCallback) watermark l))))))"

text \<open>No shared pointer can own the object while its constructor runs.\<close>

definition Session_ctor :: "nat \<Rightarrow> session_loop \<Rightarrow> (Session \<times> session_loop) result" where
  "Session_ctor watermark l =
     install_callbacks watermark \<lparr>ss_owned = False, ss_connectionCallback = None, ss_messageCallback = None, ss_closeCallback = None\<rparr> l"

definition OnWriteComplete :: "session_loop \<Rightarrow> session_loop result" where
  "OnWriteComplete l = rbind (startRead True l) (\<lambda>l. Inr (setWriteCompleteCallback None l))"

definition onWriteCompleteWeak :: "Session option \<Rightarrow> session_loop \<Rightarrow> session_loop result" where
  "onWriteCompleteWeak psess l =
     (case psess of
        Some ses \<Rightarrow> OnWriteComplete l
      | None \<Rightarrow> Inr l)"

definition OnHighWaterMark :: "Session \<Rightarrow> session_loop \<Rightarrow> session_loop result" where
  "OnHighWaterMark s l =
     (if length (tc_outputBuffer (el_user l)) > 0 then
        rbind (stopRead True l) (\<lambda>l.
        rbind (shared_from_this s) (\<lambda>_.
          Inr (setWriteCompleteCallback (Some OnWriteCompleteWeak) l)))
      else Inr l)"

text \<open>\<^verbatim>\<open>SendProtocol\<close>: the codec hands the encoded frame to \<^verbatim>\<open>TcpConnection::send(Buffer*)\<close>.\<close>

definition conn_send :: "bool \<Rightarrow> write_result \<Rightarrow> session_loop result \<Rightarrow> Buffer \<Rightarrow> session_loop result" where
  "conn_send in_loop_thread w conn buf =
     rbind conn (\<lambda>l. rbind (TcpConnection_send_buffer in_loop_thread w (content buf) l) (\<lambda>(_, l). Inr l))"

definition SendProtocol ::
    "endian \<Rightarrow> ('m, 'd) message_lib \<Rightarrow> bool \<Rightarrow> write_result \<Rightarrow> 'm \<Rightarrow> session_loop \<Rightarrow> session_loop result" where
  "SendProtocol e lib in_loop_thread w packet l =
     rbind (SendMsg e lib (conn_send in_loop_thread w) (Inr l) packet) (\<lambda>r. r)"

text \<open>What a callback of the session does when the loop calls it; \<open>s\<close> is the session unless it is gone.\<close>

definition call_session_callback :: "Session option \<Rightarrow> session_callback \<Rightarrow> session_loop \<Rightarrow> session_loop result" where
  "call_session_callback s cb l =
     (case cb of
        OnHighWaterMarkCallback \<Rightarrow> (case s of Some ses \<Rightarrow> OnHighWaterMark ses l | None \<Rightarrow> Inr l)
      | OnWriteCompleteWeak \<Rightarrow> onWriteCompleteWeak s l
      | _ \<Rightarrow> Inr l)"

section \<open>The protobuf session\<close>

text \<open>The handlers that \<^verbatim>\<open>protobuf_session.cpp\<close> defines; the received packets are shared pointers.\<close>

record 'm ProtobufSession =
  ps_packets :: "'m list"
  ps_registered :: nat \<comment> \<open>calls of \<^verbatim>\<open>OnStartupRegisterMsgHandler\<close>\<close>

fun erase_all :: "'m list \<Rightarrow> 'm list" where
  "erase_all [] = []"
| "erase_all (p # ps) = erase_all ps"

definition ClearPacketVec :: "'m ProtobufSession \<Rightarrow> 'm ProtobufSession" where
  "ClearPacketVec s = s\<lparr>ps_packets := erase_all (ps_packets s)\<rparr>"

definition ProtobufSession_dtor :: "'m ProtobufSession \<Rightarrow> 'm ProtobufSession" where
  "ProtobufSession_dtor s = ClearPacketVec s"

definition OnRecv :: "'m ProtobufSession \<Rightarrow> Buffer \<Rightarrow> 'm ProtobufSession \<times> Buffer" where
  "OnRecv s pbuf = (s, pbuf)"

definition PacketDefaultHandler :: "'m \<Rightarrow> 'm ProtobufSession \<Rightarrow> 'm ProtobufSession" where
  "PacketDefaultHandler packet s = s"

definition StartupRegisterMsgHandler :: "'m ProtobufSession \<Rightarrow> 'm ProtobufSession" where
  "StartupRegisterMsgHandler s = s\<lparr>ps_registered := ps_registered s + 1\<rparr>"

lemma ProtobufSession_dtor_empty: "ps_packets (ProtobufSession_dtor s) = []"
proof -
  have "erase_all ps = []" for ps :: "'m list"
    by (induction ps) simp_all
  then show ?thesis
    by (simp add: ProtobufSession_dtor_def ClearPacketVec_def)
qed

text \<open>Every construction of a session throws, since it asks for a shared pointer to itself.\<close>

lemma Session_ctor_throws: "Session_ctor watermark l = Inl BadWeakPtr"
  by (simp add: Session_ctor_def install_callbacks_def shared_from_this_def)

lemma install_callbacks_owned:
  "ss_owned s \<Longrightarrow> \<exists>s'. ss_owned s' \<and>
     install_callbacks watermark s l = Inr (s', setTcpNoDelay True (setHighWaterMarkCallback (Some OnHighWaterMarkCallback) watermark l))"
  by (simp add: install_callbacks_def shared_from_this_def Let_def)

section \<open>Back pressure\<close>

text \<open>
  The histories of a connection with a session whose callbacks were installed when a shared pointer
  owned it, and which lives on. The functor at the head of the queue runs next.
\<close>

definition session_functor :: "Session \<Rightarrow> write_result \<Rightarrow> session_callback conn_functor \<Rightarrow> session_loop \<Rightarrow> session_loop result" where
  "session_functor s w f l = call_functor (call_session_callback (Some s)) w f (l\<lparr>el_pendingFunctors := tl (el_pendingFunctors l)\<rparr>)"

inductive session_reach :: "Session \<Rightarrow> session_loop \<Rightarrow> bool" where
  start: "connectEstablished (EventLoop_ctor (TcpConnection_ctor a fd)) = Inr l \<Longrightarrow> ss_owned s \<Longrightarrow>
    install_callbacks watermark s l = Inr (s', l') \<Longrightarrow> session_reach s' l'"
| consume: "session_reach s l \<Longrightarrow> session_reach s (upd_conn (\<lambda>c. c\<lparr>tc_inputBuffer := drop n (tc_inputBuffer c)\<rparr>) l)"
| send: "session_reach s l \<Longrightarrow> TcpConnection_send_buffer in_loop w data l = Inr (rest, l') \<Longrightarrow> session_reach s l'"
| shutdown: "session_reach s l \<Longrightarrow> session_reach s (TcpConnection_shutdown in_loop l)"
| force_close: "session_reach s l \<Longrightarrow> session_reach s (forceClose in_loop l)"
| run: "session_reach s l \<Longrightarrow> el_pendingFunctors l = f # fs \<Longrightarrow> session_functor s w f l = Inr l' \<Longrightarrow> session_reach s l'"
| event: "session_reach s l \<Longrightarrow> hup_ok revents \<Longrightarrow> handle_event revents r w l = Inr l' \<Longrightarrow> session_reach s l'"

text \<open>A paused connection has its resumption under way.\<close>

definition resumable :: "session_loop \<Rightarrow> bool" where
  "resumable l \<longleftrightarrow> tc_reading (el_user l) \<or>
     tc_writeCompleteCallback (el_user l) = Some OnWriteCompleteWeak \<and> tc_outputBuffer (el_user l) \<noteq> [] \<or>
     WriteCompleteFunctor OnWriteCompleteWeak \<in> set (el_pendingFunctors l)"

text \<open>While the connection is open; once closed it stays closed.\<close>

definition session_inv :: "session_loop \<Rightarrow> bool" where
  "session_inv l \<longleftrightarrow> tc_state (el_user l) = kDisconnected \<or>
     conn_inv l \<and> resumable l \<and> StopReadInLoop \<notin> set (el_pendingFunctors l)"

text \<open>
  What the operations other than the callbacks of the session leave alone: reading and the callback, the
  functors already queued, the end of the connection; draining the output queues the callback.
\<close>

definition flow :: "'cb conn_loop \<Rightarrow> 'cb conn_loop \<Rightarrow> bool" where
  "flow l l' \<longleftrightarrow>
     (tc_state (el_user l) = kDisconnected \<longrightarrow> tc_state (el_user l') = kDisconnected) \<and>
     tc_reading (el_user l') = tc_reading (el_user l) \<and>
     tc_writeCompleteCallback (el_user l') = tc_writeCompleteCallback (el_user l) \<and>
     set (el_pendingFunctors l) \<subseteq> set (el_pendingFunctors l') \<and>
     (StopReadInLoop \<in> set (el_pendingFunctors l') \<longrightarrow> StopReadInLoop \<in> set (el_pendingFunctors l)) \<and>
     (\<forall>cb. tc_writeCompleteCallback (el_user l) = Some cb \<and> tc_outputBuffer (el_user l) \<noteq> [] \<and> tc_outputBuffer (el_user l') = [] \<longrightarrow>
        WriteCompleteFunctor cb \<in> set (el_pendingFunctors l'))"

lemma flow_refl [simp]: "flow l l"
  by (simp add: flow_def)

lemma flow_trans:
  assumes "flow l l'" and "flow l' l''"
  shows "flow l l''"
proof -
  have "set (el_pendingFunctors l') \<subseteq> set (el_pendingFunctors l'')"
    using assms(2) by (simp add: flow_def)
  then show ?thesis
    using assms by (cases "tc_outputBuffer (el_user l') = []") (auto simp: flow_def)
qed

lemma flow_resumable: "flow l l' \<Longrightarrow> resumable l \<Longrightarrow> resumable l'"
  by (cases "tc_outputBuffer (el_user l') = []") (auto simp: flow_def resumable_def)

lemma flow_closed: "flow l l' \<Longrightarrow> tc_state (el_user l) = kDisconnected \<Longrightarrow> tc_state (el_user l') = kDisconnected"
  by (simp add: flow_def)

lemma flow_queue: "f \<noteq> StopReadInLoop \<Longrightarrow> flow l (queueInLoop b f l)"
  by (auto simp: flow_def)

lemma flow_rechannel [simp]: "flow l (rechannel ch p l)"
  by (simp add: flow_def)

lemma on_channelD: "on_channel op l = Inr l' \<Longrightarrow> \<exists>ch p. l' = rechannel ch p l"
  by (auto simp: on_channel_def rbind_eq_Inr rechannel_def)

lemma flow_on_channel: "on_channel op l = Inr l' \<Longrightarrow> flow l l'"
  using on_channelD [of op l l'] by auto

lemma flow_log [simp]: "flow l (log_event e l)"
  by (simp add: flow_def log_event_def)

lemma flow_setState: "tc_state (el_user l) \<noteq> kDisconnected \<or> st = kDisconnected \<Longrightarrow> flow l (setState st l)"
  by (auto simp: flow_def setState_def)

lemma flow_shutdownInLoop [simp]: "flow l (shutdownInLoop l)"
  by (simp add: flow_def shutdownInLoop_def)

lemma flow_closeCallback [simp]: "flow l (closeCallback l)"
  unfolding closeCallback_def by (rule flow_trans [OF flow_log flow_queue]) simp

lemma flow_handleClose:
  assumes "handleClose l = Inr l'"
  shows "flow l l'"
proof -
  obtain l1 where l1: "on_channel disableAll (setState kDisconnected l) = Inr l1"
    and l': "l' = closeCallback (log_event (ConnectionEvent kDisconnected) l1)"
    using assms by (auto simp: handleClose_def rbind_eq_Inr split: if_splits)
  have "flow l (setState kDisconnected l)"
    by (simp add: flow_setState)
  then have "flow l l1"
    using flow_on_channel [OF l1] by (rule flow_trans)
  then show ?thesis
    unfolding l' by (rule flow_trans [OF _ flow_trans [OF flow_log flow_closeCallback]])
qed

lemma flow_notify: "flow l (notify_high_water_mark n l)"
  by (auto simp: notify_high_water_mark_def Let_def flow_queue split: option.split)

lemma flow_direct_write:
  assumes "direct_write w data l = (n, faulty, l')"
  shows "flow l l'"
proof -
  obtain res sk where s: "sockets_write w data (tc_socket (el_user l)) = (res, sk)"
    by fastforce
  have sock: "flow l (upd_conn (\<lambda>c. c\<lparr>tc_socket := sk\<rparr>) l)"
    by (auto simp: flow_def)
  then have "flow l (queueInLoop True (WriteCompleteFunctor cb) (upd_conn (\<lambda>c. c\<lparr>tc_socket := sk\<rparr>) l))" for cb
    by (rule flow_trans) (rule flow_queue, simp)
  with sock s show ?thesis
    using assms by (cases res) (auto simp: direct_write_def Let_def split: if_splits option.splits)
qed

lemma flow_sendInLoop:
  assumes "sendInLoop w data l = Inr l'"
  shows "flow l l'"
proof (cases "tc_state (el_user l) = kDisconnected")
  case True
  then show ?thesis
    using assms by (simp add: sendInLoop_def)
next
  case False
  obtain n fault l1 where d: "direct_write w data l = (n, fault, l1)"
    by (metis prod_cases3)
  let ?l2 = "upd_conn (\<lambda>c. c\<lparr>tc_outputBuffer := tc_outputBuffer c @ drop n data\<rparr>) (notify_high_water_mark (length data - n) l1)"
  have "flow (notify_high_water_mark (length data - n) l1) ?l2"
    by (auto simp: flow_def)
  then have "flow l ?l2"
    using flow_trans [OF flow_direct_write [OF d]] flow_trans [OF flow_notify] by blast
  moreover have "l' = l1 \<or> l' = ?l2 \<or> on_channel enableWriting ?l2 = Inr l'"
    using assms False by (auto simp: sendInLoop_def d Let_def split: if_splits)
  ultimately show ?thesis
    using flow_direct_write [OF d] flow_trans [OF _ flow_on_channel] by blast
qed

lemma flow_output_drained:
  assumes "output_drained l = Inr l'"
  shows "flow l l' \<and> (\<forall>cb. tc_writeCompleteCallback (el_user l) = Some cb \<longrightarrow> WriteCompleteFunctor cb \<in> set (el_pendingFunctors l'))"
proof -
  obtain ch p where "on_channel disableWriting l = Inr (rechannel ch p l)"
    using assms on_channelD by (fastforce simp: output_drained_def rbind_eq_Inr)
  then show ?thesis
    using assms by (cases "tc_writeCompleteCallback (el_user l)")
      (auto simp: output_drained_def Let_def flow_def shutdownInLoop_def split: if_splits)
qed

lemma flow_drain:
  assumes "l1 = upd_conn (\<lambda>c. c\<lparr>tc_socket := sk, tc_outputBuffer := drop n (tc_outputBuffer c)\<rparr>) l"
    and "if tc_outputBuffer (el_user l1) = [] then output_drained l1 = Inr l' else l' = l1"
  shows "flow l l'"
proof (cases "tc_outputBuffer (el_user l1) = []")
  case True
  then show ?thesis
    using assms flow_output_drained [of l1 l'] by (simp add: flow_def)
next
  case False
  then show ?thesis
    using assms by (simp add: flow_def)
qed

lemma flow_handleWrite:
  assumes "handleWrite w l = Inr l'"
  shows "flow l l'"
proof -
  obtain n sk where s: "sockets_write w (tc_outputBuffer (el_user l)) (tc_socket (el_user l)) = (n, sk)"
    by fastforce
  show ?thesis
  proof (cases "isWriting (tc_channel (el_user l)) \<and> (\<exists>k > 0. n = Inr k)")
    case True
    then obtain k where "n = Inr k" "k > 0"
      by blast
    with True show ?thesis
      using assms s flow_drain [OF refl, where sk = sk and n = k and l = l and l' = l'] by (simp add: handleWrite_def Let_def split: if_splits)
  next
    case False
    then have "l' = l"
      using assms s by (cases n) (auto simp: handleWrite_def split: if_splits)
    then show ?thesis
      by simp
  qed
qed

lemma flow_log_input: "flow l (log_event e (upd_conn (\<lambda>c. c\<lparr>tc_inputBuffer := xs c\<rparr>) l))"
  by (simp add: flow_def log_event_def)

lemma flow_handleRead: "handleRead r l = Inr l' \<Longrightarrow> flow l l'"
  using flow_handleClose [of l l'] by (cases r) (auto simp: handleRead_def handleError_def flow_log_input)

lemma flow_channel_callback: "channel_callback r w cb l = Inr l' \<Longrightarrow> flow l l'"
  using flow_handleClose [of l l'] flow_handleRead [of r l l'] flow_handleWrite [of w l l']
  by (cases cb) (auto simp: handleError_def)

lemma foldl_rbind_Inl [simp]: "foldl (\<lambda>m cb. rbind m (f cb)) (Inl e) cbs = Inl e"
  by (induction cbs) simp_all

lemma flow_callbacks:
  "foldl (\<lambda>m cb. rbind m (channel_callback r w cb)) (Inr l) cbs = Inr l' \<Longrightarrow> flow l l'"
proof (induction cbs arbitrary: l)
  case (Cons cb cbs)
  then show ?case
    using flow_trans [OF flow_channel_callback [of r w cb l]] by (cases "channel_callback r w cb l") simp_all
qed simp

lemma flow_handle_event:
  assumes "handle_event revents r w l = Inr l'"
  shows "flow l l'"
proof -
  let ?l = "upd_conn (\<lambda>c. c\<lparr>tc_channel := (tc_channel c)\<lparr>ch_revents := revents\<rparr>\<rparr>) l"
  have "flow ?l l'"
    using assms flow_callbacks [of r w ?l "handleEvent True (tc_channel (el_user ?l))" l'] by (simp add: handle_event_def Let_def)
  then show ?thesis
    by (simp add: flow_def)
qed

lemma flow_removeChannel: "EventLoop_removeChannel a ch l = Inr (ch', l') \<Longrightarrow> \<exists>p. l' = l\<lparr>el_poller := p\<rparr>"
  by (auto simp: EventLoop_removeChannel_def rbind_eq_Inr split: if_splits)

lemma flow_connectDestroyed:
  assumes "connectDestroyed l = Inr l'" "tc_state (el_user l) \<noteq> kConnected"
  shows "flow l l'"
proof -
  obtain ch l1 where "EventLoop_removeChannel (tc_address (el_user l)) ((tc_channel (el_user l))\<lparr>ch_addedToLoop := False\<rparr>) l = Inr (ch, l1)"
    "l' = upd_conn (\<lambda>c. c\<lparr>tc_channel := ch\<rparr>) l1"
    using assms by (auto simp: connectDestroyed_def rbind_eq_Inr split: if_splits)
  then show ?thesis
    using flow_removeChannel by (fastforce simp: flow_def)
qed

text \<open>The operations of the session's owner.\<close>

lemma flow_send_buffer: "TcpConnection_send_buffer in_loop w data l = Inr (rest, l') \<Longrightarrow> flow l l'"
  by (auto simp: TcpConnection_send_buffer_def rbind_eq_Inr flow_sendInLoop flow_queue split: if_splits)

lemma flow_shutdown: "flow l (TcpConnection_shutdown in_loop l)"
proof -
  have "flow l (setState kDisconnecting l)" if "tc_state (el_user l) = kConnected"
    using that by (simp add: flow_setState)
  then show ?thesis
    using flow_trans [OF _ flow_shutdownInLoop] flow_trans [OF _ flow_queue [of ShutdownInLoop]]
    by (auto simp: TcpConnection_shutdown_def Let_def)
qed

lemma flow_forceClose: "flow l (forceClose in_loop l)"
  using flow_trans [OF flow_setState [of l kDisconnecting] flow_queue [of ForceCloseInLoop]] by (auto simp: forceClose_def)

lemma flow_consume: "flow l (upd_conn (\<lambda>c. c\<lparr>tc_inputBuffer := xs c\<rparr>) l)"
  by (simp add: flow_def)

lemma flow_inv:
  assumes "flow l l'" and "session_inv l" and "conn_inv l \<Longrightarrow> tc_state (el_user l) \<noteq> kDisconnected \<Longrightarrow> conn_inv l'"
  shows "session_inv l'"
proof (cases "tc_state (el_user l) = kDisconnected")
  case True
  then show ?thesis
    using flow_closed [OF assms(1)] by (simp add: session_inv_def)
next
  case False
  then have l: "conn_inv l" "resumable l" "StopReadInLoop \<notin> set (el_pendingFunctors l)"
    using assms(2) by (simp_all add: session_inv_def)
  then have "StopReadInLoop \<notin> set (el_pendingFunctors l')"
    using assms(1) by (auto simp: flow_def)
  then show ?thesis
    using l False assms(3) flow_resumable [OF assms(1)] by (simp add: session_inv_def)
qed

lemma send_buffer_keeps_inv:
  "conn_inv l \<Longrightarrow> TcpConnection_send_buffer in_loop w data l = Inr (rest, l') \<Longrightarrow> conn_inv l'"
  using sendInLoop_keeps [of l w data] conn_inv_queue [of l "SendInLoop data" False]
  by (auto simp: TcpConnection_send_buffer_def rbind_eq_Inr keeps_def split: if_splits)

text \<open>The callbacks of the session: one pauses with the resumption under way, the other one resumes.\<close>

lemma startRead_resumes:
  assumes "startRead True l = Inr l'"
  shows "tc_reading (el_user l')" "tc_state (el_user l') = tc_state (el_user l)" "el_pendingFunctors l' = el_pendingFunctors l"
  using assms on_channelD [of enableReading l] by (fastforce simp: startRead_def startReadInLoop_def rbind_eq_Inr split: if_splits)+

lemma stopRead_pauses:
  assumes "stopRead True l = Inr l'"
  shows "tc_outputBuffer (el_user l') = tc_outputBuffer (el_user l)" "tc_state (el_user l') = tc_state (el_user l)"
    "el_pendingFunctors l' = el_pendingFunctors l"
  using assms on_channelD [of disableReading l] by (fastforce simp: stopRead_def stopReadInLoop_def rbind_eq_Inr split: if_splits)+

lemma setWriteCompleteCallback_simps [simp]:
  "el_pendingFunctors (setWriteCompleteCallback cb l) = el_pendingFunctors l"
  "el_user (setWriteCompleteCallback cb l) = (el_user l)\<lparr>tc_writeCompleteCallback := cb\<rparr>"
  by (simp_all add: setWriteCompleteCallback_def)

lemma session_callback_inv:
  assumes "tc_state (el_user l) \<noteq> kDisconnected \<Longrightarrow> conn_inv l \<and> StopReadInLoop \<notin> set (el_pendingFunctors l) \<and> (cb = OnWriteCompleteWeak \<or> resumable l)"
    and "call_session_callback (Some s) cb l = Inr l'"
  shows "session_inv l'"
proof (cases cb)
  case OnWriteCompleteWeak
  then obtain l1 where l1: "startRead True l = Inr l1" "l' = setWriteCompleteCallback None l1"
    using assms(2) by (auto simp: call_session_callback_def onWriteCompleteWeak_def OnWriteComplete_def rbind_eq_Inr)
  have "conn_inv l1" if "tc_state (el_user l) \<noteq> kDisconnected"
    using that assms(1) startReadInLoop_keeps [of l] l1(1) by (auto simp: startRead_def keeps_def)
  then show ?thesis
    using l1 assms(1) startRead_resumes [OF l1(1)] by (auto simp: session_inv_def resumable_def conn_inv_frame)
next
  case OnHighWaterMarkCallback
  show ?thesis
  proof (cases "tc_outputBuffer (el_user l) = []")
    case True
    then show ?thesis
      using assms OnHighWaterMarkCallback by (auto simp: call_session_callback_def OnHighWaterMark_def session_inv_def)
  next
    case False
    then obtain l1 where l1: "stopRead True l = Inr l1" "l' = setWriteCompleteCallback (Some OnWriteCompleteWeak) l1"
      using assms(2) OnHighWaterMarkCallback by (auto simp: call_session_callback_def OnHighWaterMark_def rbind_eq_Inr)
    have "conn_inv l1" if "tc_state (el_user l) \<noteq> kDisconnected"
      using that assms(1) stopReadInLoop_keeps [of l] l1(1) by (auto simp: stopRead_def keeps_def)
    then show ?thesis
      using l1 False assms(1) stopRead_pauses [OF l1(1)] by (auto simp: session_inv_def resumable_def conn_inv_frame)
  qed
qed (use assms in \<open>auto simp: call_session_callback_def session_inv_def\<close>)

lemma flow_call_functor:
  assumes "call_functor user w f l = Inr l'" and "f = ConnectDestroyed \<longrightarrow> tc_state (el_user l) \<noteq> kConnected"
    and "f \<noteq> StartReadInLoop" "f \<noteq> StopReadInLoop" "\<And>cb n. f \<noteq> WriteCompleteFunctor cb \<and> f \<noteq> HighWaterMarkFunctor cb n"
  shows "flow l l'"
  using assms flow_sendInLoop flow_handleClose flow_connectDestroyed
  by (cases f) (auto simp: forceCloseInLoop_def split: if_splits)

lemma session_functor_inv:
  assumes inv: "session_inv l" and f: "el_pendingFunctors l = f # fs" and run: "session_functor s w f l = Inr l'"
  shows "session_inv l'"
proof -
  let ?l = "l\<lparr>el_pendingFunctors := fs\<rparr>"
  have pop: "tc_state (el_user l) \<noteq> kDisconnected \<Longrightarrow> conn_inv ?l \<and> StopReadInLoop \<notin> set fs \<and> f \<noteq> StopReadInLoop"
    "tc_state (el_user l) \<noteq> kDisconnected \<Longrightarrow> f \<noteq> WriteCompleteFunctor OnWriteCompleteWeak \<Longrightarrow> resumable ?l"
    using inv f by (auto simp: session_inv_def conn_inv_def Let_def resumable_def split: if_splits)
  have call: "call_functor (call_session_callback (Some s)) w f ?l = Inr l'"
    using run f by (simp add: session_functor_def)
  show ?thesis
  proof (cases "\<exists>cb n. f = WriteCompleteFunctor cb \<or> f = HighWaterMarkFunctor cb n")
    case True
    then obtain cb where "call_session_callback (Some s) cb ?l = Inr l'" "f = WriteCompleteFunctor cb \<or> (\<exists>n. f = HighWaterMarkFunctor cb n)"
      using call by auto
    then show ?thesis
      using pop by (intro session_callback_inv [of ?l cb]) auto
  next
    case user: False
    then have "run_functor w f l = Inr l'"
      using call f by (cases f) (auto simp: run_functor_def)
    then have keeps: "conn_inv l'" if "conn_inv l" "tc_state (el_user l) \<noteq> kDisconnected"
      using run_functor_keeps [OF that(1) f, of w] that(2) by (auto simp: keeps_def)
    consider "f = StartReadInLoop" | "f = StopReadInLoop" | "flow ?l l'"
      using flow_call_functor [OF call] user inv f by (auto simp: session_inv_def conn_inv_def Let_def split: if_splits)
    then show ?thesis
    proof cases
      case 1
      then show ?thesis
        using call startRead_resumes [of ?l l'] keeps pop(1) inv by (auto simp: startRead_def session_inv_def resumable_def)
    next
      case 2
      then show ?thesis
        using call stopRead_pauses [of ?l l'] pop(1) by (auto simp: stopRead_def session_inv_def)
    next
      case 3
      then show ?thesis
        using keeps pop user inv flow_inv [OF 3] by (auto simp: session_inv_def)
    qed
  qed
qed

lemma session_reach_inv: "session_reach s l \<Longrightarrow> ss_owned s \<and> session_inv l"
proof (induction rule: session_reach.induct)
  case (start a fd l s watermark s' l')
  have l: "conn_inv l" "tc_reading (el_user l)" "el_pendingFunctors l = []"
    using start(1) established_inv(1) [OF start(1)] unfolding connectEstablished_loop
    by (auto simp: established_loop_def TcpConnection_ctor_def)
  have "ss_owned s'" "l' = setTcpNoDelay True (setHighWaterMarkCallback (Some OnHighWaterMarkCallback) watermark l)"
    using start(2,3) install_callbacks_owned [of s watermark l] by auto
  then show ?case
    using l by (auto simp: session_inv_def resumable_def setTcpNoDelay_def setHighWaterMarkCallback_def conn_inv_def Let_def)
next
  case (consume s l n)
  then show ?case
    using flow_inv [OF flow_consume] by (simp add: conn_inv_frame)
next
  case (send s l in_loop w data rest l')
  then show ?case
    using flow_inv [OF flow_send_buffer] send_buffer_keeps_inv by blast
next
  case (shutdown s l in_loop)
  then show ?case
    using flow_inv [OF flow_shutdown] shutdown_keeps by (fastforce simp: keeps_def)
next
  case (force_close s l in_loop)
  then show ?case
    using flow_inv [OF flow_forceClose] forceClose_keeps by (fastforce simp: keeps_def)
next
  case (run s l f fs w l')
  then show ?case
    using session_functor_inv by blast
next
  case (event s l revents r w l')
  then show ?case
    using flow_inv [OF flow_handle_event] handle_event_keeps by (fastforce simp: keeps_def)
qed

lemma pollout_handleWrite:
  "handle_event POLLOUT r w l = handleWrite w (upd_conn (\<lambda>c. c\<lparr>tc_channel := (tc_channel c)\<lparr>ch_revents := POLLOUT\<rparr>\<rparr>) l)"
  by (simp add: handle_event_def Let_def handleEvent_def handleEventWithGuard_def poll_constants)

lemma output_drained_buffer: "output_drained l = Inr l' \<Longrightarrow> tc_outputBuffer (el_user l') = tc_outputBuffer (el_user l)"
  using on_channelD [of disableWriting l]
  by (fastforce simp: output_drained_def rbind_eq_Inr Let_def shutdownInLoop_def split: option.splits if_splits)

text \<open>A socket that takes all that is queued completes the write.\<close>

lemma pollout_completes:
  assumes l: "conn_inv l" "tc_state (el_user l) \<noteq> kDisconnected" and out: "tc_outputBuffer (el_user l) \<noteq> []"
    and cb: "tc_writeCompleteCallback (el_user l) = Some cb" and n: "length (tc_outputBuffer (el_user l)) \<le> n"
  shows "\<exists>l'. handle_event POLLOUT r (Wrote n) l = Inr l' \<and> WriteCompleteFunctor cb \<in> set (el_pendingFunctors l')"
proof -
  have "hup_ok POLLOUT"
    by (simp add: hup_ok_def poll_constants)
  then obtain l' where l': "handle_event POLLOUT r (Wrote n) l = Inr l'"
    using handle_event_keeps [OF l] unfolding keeps_def by blast
  have "\<not> sk_fin (tc_socket (el_user l))" "isWriting (tc_channel (el_user l))"
    using l out by (auto simp: conn_inv_def Let_def)
  then have "tc_outputBuffer (el_user l') = []"
    using l' n out output_drained_buffer
    by (fastforce simp: pollout_handleWrite handleWrite_def sockets_write_def isWriting_def Let_def split: if_splits)
  then show ?thesis
    using l' flow_handle_event [OF l'] out cb by (simp add: flow_def)
qed

text \<open>The write-complete callback puts the read events back into the interest set.\<close>

lemma resume_reads:
  assumes l: "conn_inv l" and paused: "\<not> tc_reading (el_user l)"
  shows "\<exists>l'. OnWriteComplete l = Inr l' \<and> tc_reading (el_user l') \<and> isReading (tc_channel (el_user l')) \<and>
    tc_writeCompleteCallback (el_user l') = None"
proof -
  obtain ch p where ch: "on_channel enableReading l = Inr (rechannel ch p l)"
    "ch_events ch = ch_events (tc_channel (el_user l)) OR kReadEvent"
    using on_enableReading [OF conn_inv_registered [OF l]] by metis
  have "isReading ch"
    using ch(2) by (simp add: isReading_iff bit_simps bit_kReadEvent)
  with ch(1) paused show ?thesis
    by (simp add: OnWriteComplete_def startRead_def startReadInLoop_def)
qed


section \<open>Scenarios\<close>

text \<open>
  A session whose first send of at least the water mark finds the socket full, seen after the
  high water mark functor has run.
\<close>

definition owned_session :: Session where
  "owned_session = \<lparr>ss_owned = True, ss_connectionCallback = Some OnConnectedCallback, ss_messageCallback = Some OnMessageCallback,
     ss_closeCallback = Some OnCloseCallback\<rparr>"

definition session_start :: "address \<Rightarrow> int \<Rightarrow> nat \<Rightarrow> session_loop" where
  "session_start a fd watermark =
     setTcpNoDelay True (setHighWaterMarkCallback (Some OnHighWaterMarkCallback) watermark (established_loop a fd))"

lemma session_start_reach: "session_reach owned_session (session_start a fd watermark)"
  by (rule session_reach.start [OF connectEstablished_loop, where s = owned_session and watermark = watermark])
    (simp_all add: owned_session_def session_start_def install_callbacks_def shared_from_this_def Let_def)

definition paused_loop :: "address \<Rightarrow> int \<Rightarrow> nat \<Rightarrow> byte list \<Rightarrow> session_loop" where
  "paused_loop a fd watermark data =
     (let l = session_start a fd watermark; c = el_user l in
      l\<lparr>el_poller := \<lparr>ep_channels = [fd \<mapsto> a], ep_kernel = [fd \<mapsto> (kWriteEvent, a)]\<rparr>,
        el_user := c\<lparr>tc_reading := False, tc_outputBuffer := data, tc_writeCompleteCallback := Some OnWriteCompleteWeak,
          tc_channel := (tc_channel c)\<lparr>ch_events := kWriteEvent\<rparr>\<rparr>\<rparr>)"

lemmas session_eval = session_start_def established_loop_def TcpConnection_ctor_def setTcpNoDelay_def setHighWaterMarkCallback_def

lemma event_constants: "kReadEvent = 3" "kWriteEvent = 4"
  by (simp_all add: kReadEvent_def kWriteEvent_def poll_constants)

lemma full_socket_send:
  assumes "0 < watermark" and "watermark \<le> length data"
  shows "\<exists>l. TcpConnection_send_buffer True (WriteFailed EWOULDBLOCK) data (session_start a fd watermark) = Inr ([], l) \<and>
    el_pendingFunctors l = [HighWaterMarkFunctor OnHighWaterMarkCallback (length data)] \<and>
    session_functor owned_session w (HighWaterMarkFunctor OnHighWaterMarkCallback (length data)) l = Inr (paused_loop a fd watermark data) \<and>
    doPendingFunctors (call_functor (call_session_callback (Some owned_session)) w) l = Inr (paused_loop a fd watermark data)"
proof -
  have "data \<noteq> []"
    using assms by auto
  then show ?thesis
    using assms
    by (simp add: TcpConnection_send_buffer_def sendInLoop_def direct_write_def sockets_write_def notify_high_water_mark_def session_eval
        Let_def isWriting_def isReading_def on_channel_def enableWriting_def disableReading_def poller_eval conn_simps event_constants
        session_functor_def call_session_callback_def OnHighWaterMark_def stopRead_def stopReadInLoop_def shared_from_this_def
        owned_session_def setWriteCompleteCallback_def paused_loop_def doPendingFunctors_def)
qed


text \<open>The close of a paused connection while its output drains: the resumption runs after the close.\<close>

lemma drained_while_closing:
  assumes "data \<noteq> []"
  shows "\<exists>l. handle_event POLLOUT r (Wrote (length data)) (forceClose False (paused_loop a fd watermark data)) = Inr l \<and>
    el_pendingFunctors l = [ForceCloseInLoop, WriteCompleteFunctor OnWriteCompleteWeak] \<and> tc_state (el_user l) = kDisconnecting \<and>
    tc_address (el_user l) = a \<and> ch_fd (tc_channel (el_user l)) = fd \<and> ch_events (tc_channel (el_user l)) = 0 \<and>
    ch_index (tc_channel (el_user l)) = kDeleted \<and> \<not> tc_reading (el_user l) \<and>
    el_poller l = \<lparr>ep_channels = [fd \<mapsto> a], ep_kernel = (\<lambda>_. None)\<rparr>"
  using assms
  by (simp add: pollout_handleWrite forceClose_def handleWrite_def sockets_write_def output_drained_def paused_loop_def session_eval
      Let_def isWriting_def on_channel_def disableWriting_def poller_eval conn_simps event_constants shutdownInLoop_def)

lemma resumed_after_close:
  assumes "el_pendingFunctors l = [ForceCloseInLoop, WriteCompleteFunctor OnWriteCompleteWeak]" "tc_state (el_user l) = kDisconnecting"
    "tc_address (el_user l) = a" "ch_fd (tc_channel (el_user l)) = fd" "ch_events (tc_channel (el_user l)) = 0"
    "ch_index (tc_channel (el_user l)) = kDeleted" "\<not> tc_reading (el_user l)"
    "el_poller l = \<lparr>ep_channels = [fd \<mapsto> a], ep_kernel = (\<lambda>_. None)\<rparr>"
  shows "\<exists>l'. doPendingFunctors (call_functor (call_session_callback (Some owned_session)) w) l = Inr l' \<and>
    tc_state (el_user l') = kDisconnected \<and> ch_events (tc_channel (el_user l')) = kReadEvent \<and> el_pendingFunctors l' = [ConnectDestroyed]"
  using assms
  by (simp add: doPendingFunctors_def forceCloseInLoop_def handleClose_def closeCallback_def on_channel_def disableAll_def poller_eval
      conn_simps call_session_callback_def onWriteCompleteWeak_def OnWriteComplete_def startRead_def startReadInLoop_def
      enableReading_def event_constants setWriteCompleteCallback_def)



end
