(* ===== verification/Dispatcher.thy ===== *)
theory Dispatcher
  imports Airnet_Prelude
begin

text \<open>
  Dispatching of received messages by type (\<^verbatim>\<open>src/common/net/dispatcher_proto.h\<close>). Message classes are
  values of a type \<open>'t\<close>; what protocol buffers say about them is a parameter: the descriptor of a class,
  the descriptor of a message, and whether a \<^verbatim>\<open>dynamic_cast\<close> of a message to a class succeeds. A call of
  a user callback is returned as a value.
\<close>

record ('m, 'd, 't) message_types =
  GetDescriptor :: "'m \<Rightarrow> 'd"
  T_descriptor :: "'t \<Rightarrow> 'd"
  instance_of :: "'m \<Rightarrow> 't \<Rightarrow> bool"

record ('t, 'k) CallbackT =
  cb_type :: 't
  cb_callback :: 'k

datatype ('m, 't, 'k) invocation = Concrete 't 'k 'm | Default 'k 'm

text \<open>\<^verbatim>\<open>down_pointer_cast\<close> of \<^verbatim>\<open>muduo/net/Callbacks.h\<close>: asserts that the object has the target class.\<close>

definition down_pointer_cast :: "('m, 'd, 't) message_types \<Rightarrow> 't \<Rightarrow> 'm option \<Rightarrow> 'm option result" where
  "down_pointer_cast types T f =
     rbind (ensure (case f of None \<Rightarrow> True | Some m \<Rightarrow> instance_of types m T) AssertFailed) (\<lambda>_. Inr f)"

definition CallbackT_onMessage ::
    "('m, 'd, 't) message_types \<Rightarrow> ('t, 'k) CallbackT \<Rightarrow> 'm option \<Rightarrow> ('m, 't, 'k) invocation result" where
  "CallbackT_onMessage types cb message =
     rbind (down_pointer_cast types (cb_type cb) message) (\<lambda>concrete.
       case concrete of
         None \<Rightarrow> Inl AssertFailed
       | Some m \<Rightarrow> Inr (Concrete (cb_type cb) (cb_callback cb) m))"

record ('d, 't, 'k) ProtobufDispatcher =
  pd_callbacks :: "'d \<Rightarrow> ('t, 'k) CallbackT option"
  pd_defaultCallback :: 'k

definition ProtobufDispatcher_ctor :: "'k \<Rightarrow> ('d, 't, 'k) ProtobufDispatcher" where
  "ProtobufDispatcher_ctor defaultCb = \<lparr>pd_callbacks = (\<lambda>_. None), pd_defaultCallback = defaultCb\<rparr>"

definition onProtobufMessage ::
    "('m, 'd, 't) message_types \<Rightarrow> ('d, 't, 'k) ProtobufDispatcher \<Rightarrow> 'm option \<Rightarrow> ('m, 't, 'k) invocation result" where
  "onProtobufMessage types d message =
     (case message of
        None \<Rightarrow> Inl NullDeref
      | Some m \<Rightarrow>
          (case pd_callbacks d (GetDescriptor types m) of
             Some cb \<Rightarrow> CallbackT_onMessage types cb message
           | None \<Rightarrow> Inr (Default (pd_defaultCallback d) m)))"

definition registerMessageCallback ::
    "('m, 'd, 't) message_types \<Rightarrow> 't \<Rightarrow> 'k \<Rightarrow> ('d, 't, 'k) ProtobufDispatcher \<Rightarrow> ('d, 't, 'k) ProtobufDispatcher" where
  "registerMessageCallback types T callback d =
     d\<lparr>pd_callbacks := (pd_callbacks d)(T_descriptor types T \<mapsto> \<lparr>cb_type = T, cb_callback = callback\<rparr>)\<rparr>"

section \<open>Type safety\<close>

text \<open>A dispatcher after a sequence of registrations, and the reference: the last one for the descriptor counts.\<close>

definition register_all :: "('m, 'd, 't) message_types \<Rightarrow> ('t \<times> 'k) list \<Rightarrow> 'k \<Rightarrow> ('d, 't, 'k) ProtobufDispatcher" where
  "register_all types regs defaultCb =
     foldl (\<lambda>d (T, cb). registerMessageCallback types T cb d) (ProtobufDispatcher_ctor defaultCb) regs"

definition handler :: "('m, 'd, 't) message_types \<Rightarrow> ('t \<times> 'k) list \<Rightarrow> 'k \<Rightarrow> 'm \<Rightarrow> ('m, 't, 'k) invocation" where
  "handler types regs defaultCb m =
     (case find (\<lambda>(T, _). T_descriptor types T = GetDescriptor types m) (rev regs) of
        Some (T, cb) \<Rightarrow> Concrete T cb m
      | None \<Rightarrow> Default defaultCb m)"

lemma register_all_snoc [simp]:
  "register_all types (regs @ [(T, cb)]) defaultCb = registerMessageCallback types T cb (register_all types regs defaultCb)"
  by (simp add: register_all_def)

lemma register_all_lookup:
  "pd_defaultCallback (register_all types regs defaultCb) = defaultCb"
  "pd_callbacks (register_all types regs defaultCb) desc =
     map_option (\<lambda>(T, cb). \<lparr>cb_type = T, cb_callback = cb\<rparr>) (find (\<lambda>(T, _). T_descriptor types T = desc) (rev regs))"
proof (induction regs rule: rev_induct)
  case Nil
  {
    case 1
    then show ?case by (simp add: register_all_def ProtobufDispatcher_ctor_def)
  next
    case 2
    then show ?case by (simp add: register_all_def ProtobufDispatcher_ctor_def)
  }
next
  case (snoc r regs)
  {
    case 1
    then show ?case using snoc by (cases r) (simp add: registerMessageCallback_def)
  next
    case 2
    then show ?case using snoc by (cases r) (simp add: registerMessageCallback_def)
  }
qed

lemma find_SomeD: "find P xs = Some x \<Longrightarrow> x \<in> set xs \<and> P x"
  by (induction xs) (auto split: if_splits)

lemma dispatch_handler:
  assumes "\<And>T. GetDescriptor types m = T_descriptor types T \<Longrightarrow> instance_of types m T"
  shows "onProtobufMessage types (register_all types regs defaultCb) (Some m) = Inr (handler types regs defaultCb m)"
proof (cases "find (\<lambda>(T, _). T_descriptor types T = GetDescriptor types m) (rev regs)")
  case None
  then show ?thesis
    by (simp add: onProtobufMessage_def handler_def register_all_lookup)
next
  case (Some r)
  obtain T cb where r: "r = (T, cb)"
    by fastforce
  then have "T_descriptor types T = GetDescriptor types m"
    using find_SomeD [OF Some] by simp
  then show ?thesis
    using assms [of T] Some r
    by (simp add: onProtobufMessage_def handler_def register_all_lookup CallbackT_onMessage_def down_pointer_cast_def)
qed

text \<open>
  C18. Dispatching is type-safe. Where a message whose descriptor is that of a class is an object of
  that class, as for generated classes, the assertions in the callbacks never fail: after any sequence of
  registrations a message reaches the callback that was last registered for its type, as an object of
  this type, and the default callback if there is none; a null message is a crash.
\<close>

theorem dispatch_type_safe:
  assumes "\<And>m T. GetDescriptor types m = T_descriptor types T \<Longrightarrow> instance_of types m T"
  shows "onProtobufMessage types (register_all types regs defaultCb) (Some m) = Inr (handler types regs defaultCb m) \<and>
    (case handler types regs defaultCb m of Concrete T cb m' \<Rightarrow> m' = m \<and> instance_of types m T \<and> (T, cb) \<in> set regs
       | Default cb m' \<Rightarrow> m' = m \<and> cb = defaultCb \<and> (\<forall>(T, cb) \<in> set regs. T_descriptor types T \<noteq> GetDescriptor types m)) \<and>
    onProtobufMessage types (register_all types regs defaultCb) None = Inl NullDeref"
proof -
  have "case handler types regs defaultCb m of Concrete T cb m' \<Rightarrow> m' = m \<and> instance_of types m T \<and> (T, cb) \<in> set regs
       | Default cb m' \<Rightarrow> m' = m \<and> cb = defaultCb \<and> (\<forall>(T, cb) \<in> set regs. T_descriptor types T \<noteq> GetDescriptor types m)"
  proof (cases "find (\<lambda>(T, _). T_descriptor types T = GetDescriptor types m) (rev regs)")
    case None
    then have "\<forall>(T, cb) \<in> set regs. T_descriptor types T \<noteq> GetDescriptor types m"
      by (auto simp: find_None_iff)
    with None show ?thesis
      by (simp add: handler_def)
  next
    case (Some r)
    then have "r \<in> set regs" "T_descriptor types (fst r) = GetDescriptor types m"
      using find_SomeD [OF Some] by (auto simp: case_prod_beta)
    with Some show ?thesis
      using assms [of m "fst r"] by (cases r) (simp add: handler_def)
  qed
  then show ?thesis
    using dispatch_handler [of types m regs defaultCb] assms by (auto simp: onProtobufMessage_def)
qed

theorem dispatch_type_safe_witness:
  "let types = \<lparr>GetDescriptor = (\<lambda>m. m mod 3), T_descriptor = (\<lambda>T. T), instance_of = (\<lambda>m T. m mod 3 = T)\<rparr> in
   onProtobufMessage types (register_all types [(0, ''a''), (1, ''b''), (0, ''c'')] ''default'') (Some (6 :: nat)) = Inr (Concrete 0 ''c'' 6)"
proof -
  let ?types = "\<lparr>GetDescriptor = (\<lambda>m :: nat. m mod 3), T_descriptor = (\<lambda>T. T), instance_of = (\<lambda>m T. m mod 3 = T)\<rparr>"
  have "onProtobufMessage ?types (register_all ?types [(0, ''a''), (1, ''b''), (0, ''c'')] ''default'') (Some 6) =
      Inr (handler ?types [(0, ''a''), (1, ''b''), (0, ''c'')] ''default'' 6)"
    using dispatch_type_safe [of ?types "[(0, ''a''), (1, ''b''), (0, ''c'')]" "''default''" 6] by simp
  then show ?thesis
    by (simp add: handler_def Let_def)
qed

end
