(* ===== verification/Session_Stream.thy ===== *)
theory Session_Stream
  imports Session Codec_Stream Dispatcher
begin

text \<open>
  The way of messages through a session: \<^verbatim>\<open>SendProtocol\<close> encodes each into a frame and hands it to the
  connection, which writes what the socket takes and queues the rest; the loop goes on writing
  when the socket becomes writable and runs the callbacks of the session in between.
\<close>

datatype 'm session_step = SendStep write_result 'm | WritableStep write_result | FunctorStep write_result

primrec do_step ::
    "endian \<Rightarrow> ('m, 'd) message_lib \<Rightarrow> Session \<Rightarrow> 'm session_step \<Rightarrow> session_loop \<Rightarrow> session_loop result" where
  "do_step e lib s (SendStep w m) l = SendProtocol e lib True w m l"
| "do_step e lib s (WritableStep w) l = handle_event POLLOUT ReadFailed w l"
| "do_step e lib s (FunctorStep w) l =
     (case el_pendingFunctors l of [] \<Rightarrow> Inr l | f # fs \<Rightarrow> session_functor s w f l)"

primrec do_steps ::
    "endian \<Rightarrow> ('m, 'd) message_lib \<Rightarrow> Session \<Rightarrow> 'm session_step list \<Rightarrow> session_loop \<Rightarrow> session_loop result" where
  "do_steps e lib s [] l = Inr l"
| "do_steps e lib s (x # xs) l = rbind (do_step e lib s x l) (do_steps e lib s xs)"

primrec messages_of :: "'m session_step \<Rightarrow> 'm list" where
  "messages_of (SendStep w m) = [m]"
| "messages_of (WritableStep w) = []"
| "messages_of (FunctorStep w) = []"

definition sent_messages :: "'m session_step list \<Rightarrow> 'm list" where
  "sent_messages steps = concat (map messages_of steps)"

text \<open>The peer is there: a write may be partial or would block, but finds no broken connection.\<close>

primrec peer_alive :: "'m session_step \<Rightarrow> bool" where
  "peer_alive (SendStep w m) = (w \<noteq> WriteFailed EPIPE \<and> w \<noteq> WriteFailed ECONNRESET)"
| "peer_alive (WritableStep w) = True"
| "peer_alive (FunctorStep w) = True"

section \<open>What sending and writing leave alone\<close>

definition callback_functor :: "'cb conn_functor \<Rightarrow> bool" where
  "callback_functor f = (case f of WriteCompleteFunctor cb \<Rightarrow> True | HighWaterMarkFunctor cb n \<Rightarrow> True | _ \<Rightarrow> False)"

definition quiet :: "'cb conn_loop \<Rightarrow> 'cb conn_loop \<Rightarrow> bool" where
  "quiet l l' \<longleftrightarrow> tc_state (el_user l') = tc_state (el_user l) \<and>
     (\<forall>f \<in> set (el_pendingFunctors l'). f \<in> set (el_pendingFunctors l) \<or> callback_functor f)"

lemma quiet_refl [simp]: "quiet l l"
  by (simp add: quiet_def)

lemma quiet_trans: "quiet l l' \<Longrightarrow> quiet l' l'' \<Longrightarrow> quiet l l''"
  by (auto simp: quiet_def)

lemma quiet_queue: "callback_functor f \<Longrightarrow> quiet l (queueInLoop b f l)"
  by (auto simp: quiet_def)

lemma quiet_rechannel [simp]: "quiet l (rechannel ch p l)"
  by (simp add: quiet_def)

lemma quiet_on_channel: "on_channel op l = Inr l' \<Longrightarrow> quiet l l'"
  using on_channelD [of op l l'] by auto

lemma quiet_direct_write:
  assumes "direct_write w data l = (n, faulty, l')"
  shows "quiet l l'"
proof -
  obtain res sk where s: "sockets_write w data (tc_socket (el_user l)) = (res, sk)"
    by fastforce
  have sock: "quiet l (upd_conn (\<lambda>c. c\<lparr>tc_socket := sk\<rparr>) l)"
    by (auto simp: quiet_def)
  then have "quiet l (queueInLoop True (WriteCompleteFunctor cb) (upd_conn (\<lambda>c. c\<lparr>tc_socket := sk\<rparr>) l))" for cb
    by (rule quiet_trans) (rule quiet_queue, simp add: callback_functor_def)
  with sock s show ?thesis
    using assms by (cases res) (auto simp: direct_write_def Let_def split: if_splits option.splits)
qed

lemma quiet_notify: "quiet l (notify_high_water_mark n l)"
  by (auto simp: notify_high_water_mark_def Let_def callback_functor_def intro!: quiet_queue split: option.split)

lemma quiet_sendInLoop:
  assumes "sendInLoop w data l = Inr l'"
  shows "quiet l l'"
proof (cases "tc_state (el_user l) = kDisconnected")
  case True
  then show ?thesis
    using assms by (simp add: sendInLoop_def)
next
  case False
  obtain n fault l1 where d: "direct_write w data l = (n, fault, l1)"
    by (metis prod_cases3)
  let ?l2 = "upd_conn (\<lambda>c. c\<lparr>tc_outputBuffer := tc_outputBuffer c @ drop n data\<rparr>) (notify_high_water_mark (length data - n) l1)"
  have "quiet (notify_high_water_mark (length data - n) l1) ?l2"
    by (auto simp: quiet_def)
  then have "quiet l ?l2"
    using quiet_trans [OF quiet_direct_write [OF d]] quiet_trans [OF quiet_notify] by blast
  moreover have "l' = l1 \<or> l' = ?l2 \<or> on_channel enableWriting ?l2 = Inr l'"
    using assms False by (auto simp: sendInLoop_def d Let_def split: if_splits)
  ultimately show ?thesis
    using quiet_direct_write [OF d] quiet_trans [OF _ quiet_on_channel] by blast
qed

lemma quiet_output_drained:
  assumes "output_drained l = Inr l'"
  shows "quiet l l'"
proof -
  obtain ch p where "on_channel disableWriting l = Inr (rechannel ch p l)"
    using assms on_channelD by (fastforce simp: output_drained_def rbind_eq_Inr)
  then show ?thesis
    using assms by (cases "tc_writeCompleteCallback (el_user l)")
      (auto simp: output_drained_def Let_def quiet_def callback_functor_def shutdownInLoop_def split: if_splits)
qed

lemma quiet_pollout:
  assumes "handle_event POLLOUT r w l = Inr l'"
  shows "quiet l l'"
proof -
  let ?l = "upd_conn (\<lambda>c. c\<lparr>tc_channel := (tc_channel c)\<lparr>ch_revents := POLLOUT\<rparr>\<rparr>) l"
  obtain res sk where s: "sockets_write w (tc_outputBuffer (el_user ?l)) (tc_socket (el_user ?l)) = (res, sk)"
    by fastforce
  let ?drop = "\<lambda>n. upd_conn (\<lambda>c. c\<lparr>tc_socket := sk, tc_outputBuffer := drop n (tc_outputBuffer c)\<rparr>) ?l"
  have "handleWrite w ?l = Inr l'"
    using assms by (simp only: pollout_handleWrite)
  then have "l' = ?l \<or> (\<exists>n. l' = ?drop n \<or> output_drained (?drop n) = Inr l')"
    using s by (cases res) (auto simp: handleWrite_def Let_def split: if_splits)
  moreover have "quiet l ?l" "quiet l (?drop n)" for n
    by (auto simp: quiet_def)
  ultimately show ?thesis
    using quiet_trans [OF _ quiet_output_drained] by blast
qed

section \<open>The stream of frames\<close>

lemma SendMsg_conn:
  assumes "message_ok lib m"
  shows "\<exists>b. SendMsg e lib send conn m = Inr (send conn b) \<and> content b = frame lib m"
proof -
  have "\<exists>b'. FillEmptyBuffer e lib fresh_buffer m = Inr b' \<and> buffer_wf b' \<and> content b' = frame lib m"
    using assms by (intro FillEmptyBuffer_frame) (auto simp: message_ok_def)
  then show ?thesis
    by (auto simp: SendMsg_def Buffer_ctor_fresh)
qed

lemma SendProtocol_frame:
  "message_ok lib m \<Longrightarrow> tc_state (el_user l) = kConnected \<Longrightarrow> SendProtocol e lib True w m l = sendInLoop w (frame lib m) l"
  using SendMsg_conn [of lib m e "conn_send True w" "Inr l"]
  by (auto simp: SendProtocol_def conn_send_def TcpConnection_send_buffer_def)

text \<open>The connection stays open, only callbacks are queued, and what goes out are the frames.\<close>

definition streaming :: "byte list \<Rightarrow> session_loop \<Rightarrow> bool" where
  "streaming out l \<longleftrightarrow> conn_inv l \<and> tc_state (el_user l) = kConnected \<and> outgoing l = out \<and>
     (\<forall>f \<in> set (el_pendingFunctors l). callback_functor f)"

lemma quiet_streaming:
  assumes "streaming out l" and "keeps l data (Inr l')" and "quiet l l'"
  shows "streaming (out @ data) l'"
  using assms by (auto simp: streaming_def keeps_def quiet_def)

lemma connected_not_fin: "conn_inv l \<Longrightarrow> tc_state (el_user l) = kConnected \<Longrightarrow> \<not> sk_fin (tc_socket (el_user l))"
  by (auto simp: conn_inv_def Let_def)

lemma alive_accepted:
  assumes "conn_inv l" "tc_state (el_user l) = kConnected" "w \<noteq> WriteFailed EPIPE" "w \<noteq> WriteFailed ECONNRESET"
  shows "accepted w data l = data"
  using connected_not_fin [OF assms(1,2)] assms(2-4)
  by (cases w) (auto simp: accepted_def direct_write_def Let_def sockets_write_def)

lemma streaming_send:
  assumes l: "streaming out l" and w: "w \<noteq> WriteFailed EPIPE" "w \<noteq> WriteFailed ECONNRESET" and m: "message_ok lib m"
  shows "\<exists>l'. SendProtocol e lib True w m l = Inr l' \<and> streaming (out @ frame lib m) l'"
proof -
  have c: "conn_inv l" "tc_state (el_user l) = kConnected"
    using l by (simp_all add: streaming_def)
  have "keeps l (frame lib m) (sendInLoop w (frame lib m) l)"
    using sendInLoop_keeps [OF c(1), of w "frame lib m"] alive_accepted [OF c w] by simp
  then obtain l' where "sendInLoop w (frame lib m) l = Inr l'" "keeps l (frame lib m) (Inr l')"
    by (auto simp: keeps_def)
  then show ?thesis
    using quiet_streaming [OF l] quiet_sendInLoop SendProtocol_frame [OF m c(2)] by metis
qed

lemma streaming_writable:
  assumes l: "streaming out l"
  shows "\<exists>l'. handle_event POLLOUT r w l = Inr l' \<and> streaming out l'"
proof -
  have "keeps l [] (handle_event POLLOUT r w l)"
    using l by (intro handle_event_keeps) (auto simp: streaming_def hup_ok_def poll_constants)
  then obtain l' where "handle_event POLLOUT r w l = Inr l'" "keeps l [] (Inr l')"
    by (auto simp: keeps_def)
  then show ?thesis
    using quiet_streaming [OF l] quiet_pollout by fastforce
qed

lemma streaming_callback:
  assumes l: "streaming out l" and s: "ss_owned s"
  shows "\<exists>l'. call_session_callback (Some s) cb l = Inr l' \<and> streaming out l'"
proof -
  have inv: "conn_inv l" "tc_state (el_user l) \<noteq> kDisconnected"
    using l by (simp_all add: streaming_def)
  obtain l1 where l1: "startRead True l = Inr l1" "conn_inv l1 \<and> outgoing l1 = outgoing l"
    using startReadInLoop_keeps [OF inv] by (auto simp: keeps_def startRead_def)
  obtain l2 where l2: "stopRead True l = Inr l2" "conn_inv l2 \<and> outgoing l2 = outgoing l"
    using stopReadInLoop_keeps [OF inv(1)] by (auto simp: keeps_def stopRead_def)
  show ?thesis
    using l l1 l2 s startRead_resumes [OF l1(1)] stopRead_pauses [OF l2(1)]
    by (cases cb) (auto simp: call_session_callback_def onWriteCompleteWeak_def OnWriteComplete_def OnHighWaterMark_def
        shared_from_this_def streaming_def conn_inv_frame)
qed

lemma streaming_functor:
  assumes l: "streaming out l" and s: "ss_owned s" and f: "el_pendingFunctors l = f # fs"
  shows "\<exists>l'. session_functor s w f l = Inr l' \<and> streaming out l'"
proof -
  have "streaming out (l\<lparr>el_pendingFunctors := fs\<rparr>)"
    using l f by (auto simp: streaming_def outgoing_def conn_inv_def Let_def)
  moreover have "callback_functor f"
    using l f by (simp add: streaming_def)
  ultimately show ?thesis
    using streaming_callback [OF _ s] f by (cases f) (auto simp: callback_functor_def session_functor_def)
qed

lemma streaming_step:
  assumes "streaming out l" and "ss_owned s" and "peer_alive x" and "\<forall>m \<in> set (messages_of x). message_ok lib m"
  shows "\<exists>l'. do_step e lib s x l = Inr l' \<and> streaming (out @ concat (map (frame lib) (messages_of x))) l'"
  using assms
proof (cases x)
  case (FunctorStep w)
  then show ?thesis
    using assms streaming_functor by (cases "el_pendingFunctors l") auto
qed (auto intro: streaming_send streaming_writable)

lemma streaming_steps:
  assumes "streaming out l" and "ss_owned s" and "list_all peer_alive steps" and "\<forall>m \<in> set (sent_messages steps). message_ok lib m"
  shows "\<exists>l'. do_steps e lib s steps l = Inr l' \<and> streaming (out @ concat (map (frame lib) (sent_messages steps))) l'"
  using assms
proof (induction steps arbitrary: out l)
  case (Cons x xs)
  have "\<exists>l1. do_step e lib s x l = Inr l1 \<and> streaming (out @ concat (map (frame lib) (messages_of x))) l1"
    using Cons.prems by (intro streaming_step) (auto simp: sent_messages_def)
  then obtain l1 where l1: "do_step e lib s x l = Inr l1" "streaming (out @ concat (map (frame lib) (messages_of x))) l1"
    by blast
  show ?case
    using Cons.IH [OF l1(2)] Cons.prems l1(1) by (auto simp: sent_messages_def)
qed (simp add: sent_messages_def)

lemma session_start_streaming: "streaming [] (session_start a fd watermark)"
proof -
  have "conn_inv (established_loop a fd :: session_loop)" "outgoing (established_loop a fd :: session_loop) = []"
    using established_inv [OF connectEstablished_loop] by blast+
  then show ?thesis
    by (simp add: streaming_def session_start_def setTcpNoDelay_def setHighWaterMarkCallback_def conn_inv_def Let_def outgoing_def
        established_loop_def)
qed

end
