(* ===== verification/Timer_Queue.thy ===== *)
theory Timer_Queue
  imports Airnet_Prelude "HOL-Library.Product_Lexorder" "HOL-Library.Extended_Nat"
begin

text \<open>
  The timers of the event loop (\<^verbatim>\<open>muduo/net/TimerQueue.cc\<close>, \<^verbatim>\<open>Timer.h\<close>, \<^verbatim>\<open>Timer.cc\<close>).

  Timers live in a heap of addresses; reading a deleted one is a fault. The allocator is a parameter
  that gives an address which is not in use. A floating point number of seconds is given by what the code
  computes from it, its microseconds cut towards zero and whether a positive part was cut off. Callbacks are
  lists of actions that depend on the state.

  Two simplifications concern time. Timestamps are unbounded integers where the code has 64-bit
  microseconds. And there is one clock, part of the state, which does not run backwards, where the code compares
  \<^verbatim>\<open>gettimeofday\<close> with timers armed on \<^verbatim>\<open>CLOCK_MONOTONIC\<close>: what follows is about a system whose
  wall clock is not set while the server runs.
\<close>

section \<open>Timestamps and timers\<close>

record duration =
  du_micros :: int
  du_rest :: bool

definition du_positive :: "duration \<Rightarrow> bool" where
  "du_positive d \<longleftrightarrow> du_micros d > 0 \<or> du_micros d = 0 \<and> du_rest d"

definition kMicroSecondsPerSecond :: int where
  "kMicroSecondsPerSecond = 1000 * 1000"

definition Timestamp_valid :: "int \<Rightarrow> bool" where
  "Timestamp_valid t \<longleftrightarrow> t > 0"

definition addTime :: "int \<Rightarrow> duration \<Rightarrow> int" where
  "addTime timestamp seconds = timestamp + du_micros seconds"

record 'cb Timer =
  tm_callback :: 'cb
  tm_expiration :: int
  tm_interval :: duration
  tm_repeat :: bool
  tm_sequence :: int

definition Timer_ctor :: "'cb \<Rightarrow> int \<Rightarrow> duration \<Rightarrow> int \<Rightarrow> 'cb Timer" where
  "Timer_ctor cb when interval sequence =
     \<lparr>tm_callback = cb, tm_expiration = when, tm_interval = interval, tm_repeat = du_positive interval, tm_sequence = sequence\<rparr>"

definition Timer_restart :: "int \<Rightarrow> 'cb Timer \<Rightarrow> 'cb Timer" where
  "Timer_restart now t =
     (if tm_repeat t then t\<lparr>tm_expiration := addTime now (tm_interval t)\<rparr> else t\<lparr>tm_expiration := 0\<rparr>)"

text \<open>The relative time for \<^verbatim>\<open>timerfd_settime\<close>, in seconds and nanoseconds.\<close>

definition howMuchTimeFromNow :: "int \<Rightarrow> int \<Rightarrow> int \<times> int" where
  "howMuchTimeFromNow when now =
     (let microseconds = when - now;
          microseconds = (if microseconds < 100 then 100 else microseconds) in
      (microseconds div kMicroSecondsPerSecond, (microseconds mod kMicroSecondsPerSecond) * 1000))"

section \<open>The queue\<close>

type_synonym TimerId = "nat \<times> int"

datatype timer_functor = AddTimerInLoop nat | CancelInLoop TimerId

record 'cb TimerQueue =
  tq_heap :: "nat \<Rightarrow> 'cb Timer option"
  tq_numCreated :: int
  tq_clock :: int
  tq_timerfd :: "int option" \<comment> \<open>when the timer descriptor fires, if it is armed\<close>
  tq_timers :: "(int \<times> nat) list" \<comment> \<open>\<^verbatim>\<open>std::set\<close> of entries, in its order\<close>
  tq_activeTimers :: "TimerId set"
  tq_callingExpiredTimers :: bool
  tq_cancelingTimers :: "TimerId set"
  tq_functors :: "timer_functor list" \<comment> \<open>queued in the loop by other threads\<close>
  tq_log :: "TimerId list" \<comment> \<open>the timers that ran\<close>

text \<open>\<^verbatim>\<open>UINTPTR_MAX\<close>, which is above every address of a timer.\<close>

definition UINTPTR_MAX :: enat where
  "UINTPTR_MAX = \<infinity>"

definition before_sentry :: "int \<Rightarrow> int \<times> nat \<Rightarrow> bool" where
  "before_sentry now e \<longleftrightarrow> (fst e, enat (snd e)) < (now, UINTPTR_MAX)"

definition TimerQueue_ctor :: "int \<Rightarrow> 'cb TimerQueue" where
  "TimerQueue_ctor clock =
     \<lparr>tq_heap = (\<lambda>_. None), tq_numCreated = 0, tq_clock = clock, tq_timerfd = None, tq_timers = [], tq_activeTimers = {},
      tq_callingExpiredTimers = False, tq_cancelingTimers = {}, tq_functors = [], tq_log = []\<rparr>"

definition deref :: "nat \<Rightarrow> 'cb TimerQueue \<Rightarrow> 'cb Timer result" where
  "deref a q = (case tq_heap q a of None \<Rightarrow> Inl UndefinedBehaviour | Some t \<Rightarrow> Inr t)"

definition delete_timer :: "nat \<Rightarrow> 'cb TimerQueue \<Rightarrow> 'cb TimerQueue" where
  "delete_timer a q = q\<lparr>tq_heap := (tq_heap q)(a := None)\<rparr>"

definition resetTimerfd :: "int \<Rightarrow> 'cb TimerQueue \<Rightarrow> 'cb TimerQueue" where
  "resetTimerfd expiration q =
     (let (sec, nsec) = howMuchTimeFromNow expiration (tq_clock q) in
      q\<lparr>tq_timerfd := Some (tq_clock q + sec * kMicroSecondsPerSecond + nsec div 1000)\<rparr>)"

definition readTimerfd :: "'cb TimerQueue \<Rightarrow> 'cb TimerQueue" where
  "readTimerfd q = q\<lparr>tq_timerfd := None\<rparr>"

definition same_size :: "'cb TimerQueue \<Rightarrow> bool" where
  "same_size q \<longleftrightarrow> length (tq_timers q) = card (tq_activeTimers q)"

definition TimerQueue_insert :: "nat \<Rightarrow> 'cb TimerQueue \<Rightarrow> (bool \<times> 'cb TimerQueue) result" where
  "TimerQueue_insert a q =
     rbind (ensure (same_size q) AssertFailed) (\<lambda>_.
     rbind (deref a q) (\<lambda>timer.
       let when = tm_expiration timer;
           earliestChanged = (tq_timers q = [] \<or> when < fst (hd (tq_timers q))) in
     rbind (ensure ((when, a) \<notin> set (tq_timers q)) AssertFailed) (\<lambda>_.
       let q = q\<lparr>tq_timers := insort (when, a) (tq_timers q)\<rparr> in
     rbind (ensure ((a, tm_sequence timer) \<notin> tq_activeTimers q) AssertFailed) (\<lambda>_.
       let q = q\<lparr>tq_activeTimers := insert (a, tm_sequence timer) (tq_activeTimers q)\<rparr> in
     rbind (ensure (same_size q) AssertFailed) (\<lambda>_. Inr (earliestChanged, q))))))"

definition addTimerInLoop :: "nat \<Rightarrow> 'cb TimerQueue \<Rightarrow> 'cb TimerQueue result" where
  "addTimerInLoop a q =
     rbind (TimerQueue_insert a q) (\<lambda>(earliestChanged, q).
       if earliestChanged then rbind (deref a q) (\<lambda>timer. Inr (resetTimerfd (tm_expiration timer) q)) else Inr q)"

definition cancelInLoop :: "TimerId \<Rightarrow> 'cb TimerQueue \<Rightarrow> 'cb TimerQueue result" where
  "cancelInLoop timerId q =
     rbind (ensure (same_size q) AssertFailed) (\<lambda>_.
     rbind (if timerId \<in> tq_activeTimers q then
              rbind (deref (fst timerId) q) (\<lambda>timer.
              rbind (ensure ((tm_expiration timer, fst timerId) \<in> set (tq_timers q)) AssertFailed) (\<lambda>_.
                Inr ((delete_timer (fst timerId) (q\<lparr>tq_timers := remove1 (tm_expiration timer, fst timerId) (tq_timers q)\<rparr>))
                  \<lparr>tq_activeTimers := tq_activeTimers q - {timerId}\<rparr>)))
            else if tq_callingExpiredTimers q then Inr (q\<lparr>tq_cancelingTimers := insert timerId (tq_cancelingTimers q)\<rparr>)
            else Inr q) (\<lambda>q.
     rbind (ensure (same_size q) AssertFailed) (\<lambda>_. Inr q)))"

primrec call_timer_functor :: "timer_functor \<Rightarrow> 'cb TimerQueue \<Rightarrow> 'cb TimerQueue result" where
  "call_timer_functor (AddTimerInLoop a) q = addTimerInLoop a q"
| "call_timer_functor (CancelInLoop timerId) q = cancelInLoop timerId q"

definition timer_runInLoop :: "bool \<Rightarrow> timer_functor \<Rightarrow> 'cb TimerQueue \<Rightarrow> 'cb TimerQueue result" where
  "timer_runInLoop in_loop_thread f q =
     (if in_loop_thread then call_timer_functor f q else Inr (q\<lparr>tq_functors := tq_functors q @ [f]\<rparr>))"

definition new_Timer :: "nat \<Rightarrow> 'cb \<Rightarrow> int \<Rightarrow> duration \<Rightarrow> 'cb TimerQueue \<Rightarrow> 'cb TimerQueue" where
  "new_Timer a cb when interval q =
     q\<lparr>tq_numCreated := tq_numCreated q + 1, tq_heap := (tq_heap q)(a \<mapsto> Timer_ctor cb when interval (tq_numCreated q + 1))\<rparr>"

text \<open>
  \<^verbatim>\<open>addTimer\<close> creates the timer, hands it to the loop thread, and then reads the sequence number for
  the result through its pointer. In the loop thread the three steps follow each other; in another
  thread the loop may run between the second and the third one, so that they are separate steps there.
\<close>

definition addTimer_begin ::
    "(('cb TimerQueue) \<Rightarrow> nat) \<Rightarrow> bool \<Rightarrow> 'cb \<Rightarrow> int \<Rightarrow> duration \<Rightarrow> 'cb TimerQueue \<Rightarrow> (nat \<times> 'cb TimerQueue) result" where
  "addTimer_begin alloc in_loop_thread cb when interval q =
     (let timer = alloc q in
      rbind (timer_runInLoop in_loop_thread (AddTimerInLoop timer) (new_Timer timer cb when interval q)) (\<lambda>q. Inr (timer, q)))"

definition addTimer_return :: "nat \<Rightarrow> 'cb TimerQueue \<Rightarrow> TimerId result" where
  "addTimer_return timer q = rbind (deref timer q) (\<lambda>t. Inr (timer, tm_sequence t))"

definition addTimer ::
    "(('cb TimerQueue) \<Rightarrow> nat) \<Rightarrow> bool \<Rightarrow> 'cb \<Rightarrow> int \<Rightarrow> duration \<Rightarrow> 'cb TimerQueue \<Rightarrow> (TimerId \<times> 'cb TimerQueue) result" where
  "addTimer alloc in_loop_thread cb when interval q =
     rbind (addTimer_begin alloc in_loop_thread cb when interval q) (\<lambda>(timer, q).
     rbind (addTimer_return timer q) (\<lambda>timerId. Inr (timerId, q)))"

definition timer_cancel :: "bool \<Rightarrow> TimerId \<Rightarrow> 'cb TimerQueue \<Rightarrow> 'cb TimerQueue result" where
  "timer_cancel in_loop_thread timerId q = timer_runInLoop in_loop_thread (CancelInLoop timerId) q"

text \<open>\<^verbatim>\<open>runAt\<close>, \<^verbatim>\<open>runAfter\<close> and \<^verbatim>\<open>runEvery\<close> of the loop.\<close>

definition runAt where
  "runAt alloc in_loop_thread time cb q = addTimer alloc in_loop_thread cb time \<lparr>du_micros = 0, du_rest = False\<rparr> q"

definition runAfter where
  "runAfter alloc in_loop_thread delay cb q = runAt alloc in_loop_thread (addTime (tq_clock q) delay) cb q"

definition runEvery where
  "runEvery alloc in_loop_thread interval cb q = addTimer alloc in_loop_thread cb (addTime (tq_clock q) interval) interval q"

section \<open>Expiration\<close>

fun erase_active :: "(int \<times> nat) list \<Rightarrow> 'cb TimerQueue \<Rightarrow> 'cb TimerQueue result" where
  "erase_active [] q = Inr q"
| "erase_active ((_, a) # es) q =
     rbind (deref a q) (\<lambda>timer.
     rbind (ensure ((a, tm_sequence timer) \<in> tq_activeTimers q) AssertFailed) (\<lambda>_.
       erase_active es (q\<lparr>tq_activeTimers := tq_activeTimers q - {(a, tm_sequence timer)}\<rparr>)))"

definition getExpired :: "int \<Rightarrow> 'cb TimerQueue \<Rightarrow> ((int \<times> nat) list \<times> 'cb TimerQueue) result" where
  "getExpired now q =
     rbind (ensure (same_size q) AssertFailed) (\<lambda>_.
       let expired = takeWhile (before_sentry now) (tq_timers q);
           rest = dropWhile (before_sentry now) (tq_timers q) in
     rbind (ensure (rest = [] \<or> now < fst (hd rest)) AssertFailed) (\<lambda>_.
     rbind (erase_active expired (q\<lparr>tq_timers := rest\<rparr>)) (\<lambda>q.
     rbind (ensure (same_size q) AssertFailed) (\<lambda>_. Inr (expired, q)))))"

fun reset_each :: "int \<Rightarrow> (int \<times> nat) list \<Rightarrow> 'cb TimerQueue \<Rightarrow> 'cb TimerQueue result" where
  "reset_each now [] q = Inr q"
| "reset_each now ((_, a) # es) q =
     rbind (deref a q) (\<lambda>timer.
     rbind (if tm_repeat timer \<and> (a, tm_sequence timer) \<notin> tq_cancelingTimers q then
              rbind (TimerQueue_insert a (q\<lparr>tq_heap := (tq_heap q)(a \<mapsto> Timer_restart now timer)\<rparr>)) (\<lambda>(_, q). Inr q)
            else Inr (delete_timer a q)) (reset_each now es))"

definition TimerQueue_reset :: "(int \<times> nat) list \<Rightarrow> int \<Rightarrow> 'cb TimerQueue \<Rightarrow> 'cb TimerQueue result" where
  "TimerQueue_reset expired now q =
     rbind (reset_each now expired q) (\<lambda>q.
     rbind (case tq_timers q of [] \<Rightarrow> Inr 0 | (_, a) # _ \<Rightarrow> rbind (deref a q) (\<lambda>timer. Inr (tm_expiration timer))) (\<lambda>nextExpire.
       Inr (if Timestamp_valid nextExpire then resetTimerfd nextExpire q else q)))"

text \<open>What a callback may do in the loop thread; time passes meanwhile.\<close>

datatype 'cb timer_action = AddAction 'cb int duration | CancelAction TimerId | TickAction nat

definition tick :: "nat \<Rightarrow> 'cb TimerQueue \<Rightarrow> 'cb TimerQueue" where
  "tick n q = q\<lparr>tq_clock := tq_clock q + int n\<rparr>"

primrec do_action :: "('cb TimerQueue \<Rightarrow> nat) \<Rightarrow> 'cb timer_action \<Rightarrow> 'cb TimerQueue \<Rightarrow> 'cb TimerQueue result" where
  "do_action alloc (AddAction cb when interval) q = rbind (addTimer alloc True cb when interval q) (\<lambda>(_, q). Inr q)"
| "do_action alloc (CancelAction timerId) q = timer_cancel True timerId q"
| "do_action alloc (TickAction n) q = Inr (tick n q)"

primrec do_actions :: "('cb TimerQueue \<Rightarrow> nat) \<Rightarrow> 'cb timer_action list \<Rightarrow> 'cb TimerQueue \<Rightarrow> 'cb TimerQueue result" where
  "do_actions alloc [] q = Inr q"
| "do_actions alloc (x # xs) q = rbind (do_action alloc x q) (do_actions alloc xs)"

fun run_expired ::
    "('cb TimerQueue \<Rightarrow> nat) \<Rightarrow> ('cb \<Rightarrow> 'cb TimerQueue \<Rightarrow> 'cb timer_action list) \<Rightarrow> (int \<times> nat) list \<Rightarrow> 'cb TimerQueue \<Rightarrow> 'cb TimerQueue result" where
  "run_expired alloc user [] q = Inr q"
| "run_expired alloc user ((_, a) # es) q =
     rbind (deref a q) (\<lambda>timer.
       let q = q\<lparr>tq_log := tq_log q @ [(a, tm_sequence timer)]\<rparr> in
     rbind (do_actions alloc (user (tm_callback timer) q) q) (run_expired alloc user es))"

definition TimerQueue_handleRead ::
    "('cb TimerQueue \<Rightarrow> nat) \<Rightarrow> ('cb \<Rightarrow> 'cb TimerQueue \<Rightarrow> 'cb timer_action list) \<Rightarrow> 'cb TimerQueue \<Rightarrow> 'cb TimerQueue result" where
  "TimerQueue_handleRead alloc user q =
     (let now = tq_clock q in
      rbind (getExpired now (readTimerfd q)) (\<lambda>(expired, q).
      rbind (run_expired alloc user expired (q\<lparr>tq_callingExpiredTimers := True, tq_cancelingTimers := {}\<rparr>)) (\<lambda>q.
        TimerQueue_reset expired now (q\<lparr>tq_callingExpiredTimers := False\<rparr>))))"

text \<open>The destructor deletes what is in the queue.\<close>

definition TimerQueue_dtor :: "'cb TimerQueue \<Rightarrow> 'cb TimerQueue" where
  "TimerQueue_dtor q = foldl (\<lambda>q e. delete_timer (snd e) q) q (tq_timers q)"

section \<open>The invariant\<close>

definition addrs :: "'cb TimerQueue \<Rightarrow> nat set" where
  "addrs q = snd ` set (tq_timers q)"

definition pending_adds :: "'cb TimerQueue \<Rightarrow> nat list" where
  "pending_adds q = concat (map (\<lambda>f. case f of AddTimerInLoop a \<Rightarrow> [a] | CancelInLoop _ \<Rightarrow> []) (tq_functors q))"

definition timer_id :: "'cb TimerQueue \<Rightarrow> int \<times> nat \<Rightarrow> TimerId" where
  "timer_id q e = (snd e, tm_sequence (the (tq_heap q (snd e))))"

text \<open>
  The two sets hold the same timers, in order and under their current expiration. A live timer
  is in the sets, waits to be added, or belongs to \<open>X\<close>, the timers that are just expiring.
\<close>

definition tq_inv :: "nat set \<Rightarrow> 'cb TimerQueue \<Rightarrow> bool" where
  "tq_inv X q \<longleftrightarrow>
     sorted (tq_timers q) \<and> distinct (tq_timers q) \<and>
     (\<forall>e \<in> set (tq_timers q). \<exists>t. tq_heap q (snd e) = Some t \<and> tm_expiration t = fst e) \<and>
     tq_activeTimers q = timer_id q ` set (tq_timers q) \<and>
     distinct (pending_adds q) \<and> set (pending_adds q) \<inter> X = {} \<and> addrs q \<inter> (X \<union> set (pending_adds q)) = {} \<and>
     dom (tq_heap q) = addrs q \<union> X \<union> set (pending_adds q) \<and>
     finite (dom (tq_heap q)) \<and> (\<forall>a t. tq_heap q a = Some t \<longrightarrow> tm_repeat t \<longrightarrow> du_positive (tm_interval t))"

text \<open>The timer descriptor fires by the time of the earliest timer; while timers expire, a positive one will be armed.\<close>

definition armed :: "'cb TimerQueue \<Rightarrow> bool" where
  "armed q \<longleftrightarrow> (\<exists>f. tq_timerfd q = Some f \<and> f \<le> max (fst (hd (tq_timers q))) (tq_clock q + 100))"

definition wakes :: "bool \<Rightarrow> 'cb TimerQueue \<Rightarrow> bool" where
  "wakes expiring q \<longleftrightarrow> tq_timers q = [] \<or> armed q \<or> expiring \<and> fst (hd (tq_timers q)) > 0"

lemma resetTimerfd_eq: "resetTimerfd e q = q\<lparr>tq_timerfd := Some (max e (tq_clock q + 100))\<rparr>"
proof -
  have "m div 1000000 * 1000000 + m mod 1000000 * 1000 div 1000 = m" for m :: int
    by simp
  then show ?thesis
    by (auto simp: resetTimerfd_def howMuchTimeFromNow_def kMicroSecondsPerSecond_def Let_def max_def)
qed

lemma inv_entry: "tq_inv X q \<Longrightarrow> e \<in> set (tq_timers q) \<Longrightarrow> \<exists>t. tq_heap q (snd e) = Some t \<and> tm_expiration t = fst e"
  by (simp add: tq_inv_def)

lemma inv_entry_unique: "tq_inv X q \<Longrightarrow> e \<in> set (tq_timers q) \<Longrightarrow> e' \<in> set (tq_timers q) \<Longrightarrow> snd e = snd e' \<Longrightarrow> e = e'"
  using inv_entry [of X q e] inv_entry [of X q e'] by (auto intro: prod_eqI)

lemma inj_timer_id: "tq_inv X q \<Longrightarrow> inj_on (timer_id q) (set (tq_timers q))"
  using inv_entry_unique [of X q] by (auto simp: inj_on_def timer_id_def)

lemma inv_sorted: "tq_inv X q \<Longrightarrow> sorted (tq_timers q)"
  by (simp add: tq_inv_def)

lemma inv_finite: "tq_inv X q \<Longrightarrow> finite (dom (tq_heap q))"
  unfolding tq_inv_def by blast

lemma inv_disjoint: "tq_inv X q \<Longrightarrow> e \<in> set (tq_timers q) \<Longrightarrow> snd e \<notin> X"
  unfolding tq_inv_def addrs_def by blast

lemma inv_active: "tq_inv X q \<Longrightarrow> i \<in> tq_activeTimers q \<longleftrightarrow> (\<exists>e \<in> set (tq_timers q). i = timer_id q e)"
  by (auto simp: tq_inv_def)

lemma inv_same_size [simp]: "tq_inv X q \<Longrightarrow> same_size q"
  using card_image [OF inj_timer_id, of X q] by (auto simp: same_size_def tq_inv_def distinct_card)

lemma fst_hd_insort: "fst (hd (insort (w, a) xs)) = (if xs = [] then w else min w (fst (hd xs)))" for xs :: "(int \<times> nat) list"
  by (cases xs) (auto simp: min_def)

lemma fst_hd_le: "sorted xs \<Longrightarrow> e \<in> set xs \<Longrightarrow> fst (hd xs) \<le> fst e" for xs :: "(int \<times> nat) list"
  by (cases xs) (auto simp: less_eq_prod_def)

lemma insert_inv:
  assumes inv: "tq_inv X q" and a: "a \<in> X"
  shows "\<exists>t. tq_heap q a = Some t \<and>
    (let q' = q\<lparr>tq_timers := insort (tm_expiration t, a) (tq_timers q), tq_activeTimers := insert (a, tm_sequence t) (tq_activeTimers q)\<rparr> in
     TimerQueue_insert a q = Inr (tq_timers q = [] \<or> tm_expiration t < fst (hd (tq_timers q)), q') \<and> tq_inv (X - {a}) q')"
proof -
  obtain t where t: "tq_heap q a = Some t"
    using inv a by (auto simp: tq_inv_def dom_def)
  have new: "a \<notin> addrs q"
    using inv a by (auto simp: tq_inv_def)
  then have notin: "(w, a) \<notin> set (tq_timers q)" "(a, n) \<notin> tq_activeTimers q" for w n
    unfolding inv_active [OF inv] by (force simp: addrs_def timer_id_def)+
  let ?q = "q\<lparr>tq_timers := insort (tm_expiration t, a) (tq_timers q), tq_activeTimers := insert (a, tm_sequence t) (tq_activeTimers q)\<rparr>"
  have frame: "timer_id ?q = timer_id q" "pending_adds ?q = pending_adds q" "addrs ?q = insert a (addrs q)"
    "set (tq_timers ?q) = insert (tm_expiration t, a) (set (tq_timers q))" "timer_id q (tm_expiration t, a) = (a, tm_sequence t)"
    using t by (simp_all add: timer_id_def fun_eq_iff pending_adds_def addrs_def set_insort_key)
  have "sorted (tq_timers ?q)" "distinct (tq_timers ?q)"
    using inv notin by (simp_all add: tq_inv_def sorted_insort distinct_insort)
  moreover have "a \<notin> set (pending_adds q)" "a \<in> X" "tq_activeTimers ?q = timer_id q ` set (tq_timers ?q)"
    using inv a frame(4,5) by (auto simp: tq_inv_def)
  ultimately have "tq_inv (X - {a}) ?q"
    using inv t new unfolding tq_inv_def frame by auto
  then show ?thesis
    using t notin inv_same_size [OF inv] inv_same_size [of "X - {a}" ?q] by (simp add: TimerQueue_insert_def deref_def Let_def)
qed

text \<open>What the operations of the loop thread keep, the timers that are expiring included.\<close>

definition tq_kept :: "nat set \<Rightarrow> bool \<Rightarrow> 'cb TimerQueue \<Rightarrow> 'cb TimerQueue \<Rightarrow> bool" where
  "tq_kept X b q q' \<longleftrightarrow> tq_inv X q' \<and> wakes b q' \<and> (\<forall>a \<in> X. tq_heap q' a = tq_heap q a) \<and> tq_clock q \<le> tq_clock q' \<and>
     tq_log q' = tq_log q \<and> tq_functors q' = tq_functors q \<and> tq_callingExpiredTimers q' = tq_callingExpiredTimers q"

lemma tq_kept_refl: "tq_inv X q \<Longrightarrow> wakes b q \<Longrightarrow> tq_kept X b q q"
  by (simp add: tq_kept_def)

lemma tq_kept_trans: "tq_kept X b q q' \<Longrightarrow> tq_kept X b q' q'' \<Longrightarrow> tq_kept X b q q''"
  by (auto simp: tq_kept_def)

lemma wakes_later:
  assumes "wakes b q" and "tq_timers q' \<noteq> [] \<Longrightarrow> tq_timers q \<noteq> [] \<and> fst (hd (tq_timers q)) \<le> fst (hd (tq_timers q'))"
    and "tq_timerfd q' = tq_timerfd q" and "tq_clock q \<le> tq_clock q'"
  shows "wakes b q'"
proof (cases "tq_timers q' = []")
  case False
  then have "max (fst (hd (tq_timers q))) (tq_clock q + 100) \<le> max (fst (hd (tq_timers q'))) (tq_clock q' + 100)"
    using assms(2,4) by auto
  then show ?thesis
    using assms False unfolding wakes_def armed_def by fastforce
qed (simp add: wakes_def)

lemma remove_inv:
  assumes inv: "tq_inv X q" and e: "(w, a) \<in> set (tq_timers q)"
  shows "tq_inv X (q\<lparr>tq_timers := remove1 (w, a) (tq_timers q), tq_heap := (tq_heap q)(a := None),
    tq_activeTimers := tq_activeTimers q - {timer_id q (w, a)}\<rparr>)" (is "tq_inv X ?q")
proof -
  have only: "e = (w, a)" if "e \<in> set (tq_timers q)" "snd e = a" for e
    using inv_entry_unique [OF inv that(1) e] that(2) by simp
  have set: "set (tq_timers ?q) = set (tq_timers q) - {(w, a)}"
    using inv by (simp add: tq_inv_def set_remove1_eq)
  have ids: "timer_id ?q e = timer_id q e" if "e \<in> set (tq_timers ?q)" for e
    using that only [of e] unfolding set by (auto simp: timer_id_def)
  have "tq_activeTimers ?q = timer_id q ` (set (tq_timers q) - {(w, a)})"
    using inj_on_image_set_diff [OF inj_timer_id [OF inv], of "set (tq_timers q)" "{(w, a)}"] inv e by (auto simp: tq_inv_def)
  also have "\<dots> = timer_id ?q ` set (tq_timers ?q)"
    using ids unfolding set by (auto intro: image_cong)
  finally have active: "tq_activeTimers ?q = timer_id ?q ` set (tq_timers ?q)" .
  have adds: "pending_adds ?q = pending_adds q"
    by (simp add: pending_adds_def)
  have addrs: "addrs ?q = addrs q - {a}"
    using only unfolding addrs_def set by force
  have entries: "\<forall>e \<in> set (tq_timers ?q). \<exists>t. tq_heap ?q (snd e) = Some t \<and> tm_expiration t = fst e"
    using inv_entry [OF inv] only unfolding set by auto
  have "a \<in> addrs q"
    using e by (force simp: addrs_def)
  then have "dom (tq_heap ?q) = addrs ?q \<union> X \<union> set (pending_adds q)"
    using inv unfolding addrs by (auto simp: tq_inv_def)
  moreover have "sorted (tq_timers ?q)" "distinct (tq_timers ?q)"
    using inv by (simp_all add: tq_inv_def sorted_remove1)
  moreover have "distinct (pending_adds q)" "set (pending_adds q) \<inter> X = {}" "addrs ?q \<inter> (X \<union> set (pending_adds q)) = {}"
    using inv unfolding addrs by (auto simp: tq_inv_def)
  moreover have "\<forall>b t. tq_heap ?q b = Some t \<longrightarrow> tm_repeat t \<longrightarrow> du_positive (tm_interval t)" "finite (dom (tq_heap ?q))"
    using inv inv_finite [OF inv] by (simp add: tq_inv_def, simp del: finite_Un)
  ultimately show ?thesis
    using active entries unfolding tq_inv_def adds by blast
qed

lemma cancel_kept:
  assumes inv: "tq_inv X q" and wakes: "wakes b q"
  shows "\<exists>q'. cancelInLoop timerId q = Inr q' \<and> tq_kept X b q q'"
proof (cases "timerId \<in> tq_activeTimers q")
  case True
  then obtain w a where e: "(w, a) \<in> set (tq_timers q)" "timerId = timer_id q (w, a)"
    using inv_active [OF inv, of timerId] by auto
  then obtain t where t: "tq_heap q a = Some t" "tm_expiration t = w"
    using inv_entry [OF inv e(1)] by auto
  let ?q = "q\<lparr>tq_timers := remove1 (w, a) (tq_timers q), tq_heap := (tq_heap q)(a := None),
    tq_activeTimers := tq_activeTimers q - {timerId}\<rparr>"
  have inv': "tq_inv X ?q"
    using remove_inv [OF inv e(1)] e(2) by simp
  have "wakes b ?q"
  proof (rule wakes_later [OF wakes])
    assume "tq_timers ?q \<noteq> []"
    then have "hd (tq_timers ?q) \<in> set (tq_timers q)"
      using subsetD [OF set_remove1_subset hd_in_set] by auto
    then show "tq_timers q \<noteq> [] \<and> fst (hd (tq_timers q)) \<le> fst (hd (tq_timers ?q))"
      using fst_hd_le [OF inv_sorted [OF inv]] by fastforce
  qed simp_all
  moreover have "a \<notin> X"
    using inv_disjoint [OF inv e(1)] by simp
  moreover have "cancelInLoop timerId q = Inr ?q"
    using True e t inv_same_size [OF inv] inv_same_size [OF inv']
    by (simp add: cancelInLoop_def deref_def delete_timer_def timer_id_def)
  ultimately show ?thesis
    using inv' by (auto simp: tq_kept_def)
next
  case False
  let ?q = "q\<lparr>tq_cancelingTimers := insert timerId (tq_cancelingTimers q)\<rparr>"
  have "tq_inv X ?q = tq_inv X q" "wakes b ?q = wakes b q" "same_size ?q = same_size q"
    by (simp_all add: tq_inv_def wakes_def armed_def addrs_def pending_adds_def timer_id_def [abs_def] same_size_def)
  with False inv wakes show ?thesis
    by (auto simp: cancelInLoop_def tq_kept_def)
qed

lemma inv_frame [simp]:
  "tq_inv X (q\<lparr>tq_timerfd := f\<rparr>) = tq_inv X q" "tq_inv X (q\<lparr>tq_clock := c\<rparr>) = tq_inv X q" "tq_inv X (q\<lparr>tq_log := l\<rparr>) = tq_inv X q"
  "tq_inv X (q\<lparr>tq_callingExpiredTimers := b\<rparr>) = tq_inv X q" "tq_inv X (q\<lparr>tq_cancelingTimers := c'\<rparr>) = tq_inv X q"
  by (simp_all add: tq_inv_def addrs_def pending_adds_def timer_id_def [abs_def])

lemma wakes_frame [simp]:
  "wakes b (q\<lparr>tq_log := l\<rparr>) = wakes b q" "wakes b (q\<lparr>tq_callingExpiredTimers := d\<rparr>) = wakes b q"
  "wakes b (q\<lparr>tq_cancelingTimers := c'\<rparr>) = wakes b q" "wakes b (q\<lparr>tq_functors := fs\<rparr>) = wakes b q"
  by (simp_all add: wakes_def armed_def)

lemma add_kept:
  assumes inv: "tq_inv X q" and a: "a \<in> X" and wakes: "wakes b q"
  shows "\<exists>q'. addTimerInLoop a q = Inr q' \<and> tq_kept (X - {a}) b q q'"
proof -
  obtain t where t: "tq_heap q a = Some t"
    using insert_inv [OF inv a] by blast
  define w where "w = tm_expiration t"
  define q1 where "q1 = q\<lparr>tq_timers := insort (w, a) (tq_timers q), tq_activeTimers := insert (a, tm_sequence t) (tq_activeTimers q)\<rparr>"
  have ins: "TimerQueue_insert a q = Inr (tq_timers q = [] \<or> w < fst (hd (tq_timers q)), q1)" "tq_inv (X - {a}) q1"
    using insert_inv [OF inv a] t unfolding q1_def w_def Let_def by auto
  have t1: "tq_heap q1 a = Some t" and hd: "fst (hd (tq_timers q1)) = (if tq_timers q = [] then w else min w (fst (hd (tq_timers q))))"
    using t by (simp_all add: q1_def fst_hd_insort)
  show ?thesis
  proof (cases "tq_timers q = [] \<or> w < fst (hd (tq_timers q))")
    case True
    let ?q = "q1\<lparr>tq_timerfd := Some (max w (tq_clock q1 + 100))\<rparr>"
    have "addTimerInLoop a q = Inr ?q"
      using True ins t1 by (simp add: addTimerInLoop_def deref_def w_def [symmetric] resetTimerfd_eq)
    moreover have "wakes b ?q"
      using True hd by (auto simp: wakes_def armed_def)
    ultimately show ?thesis
      using ins(2) by (auto simp: tq_kept_def q1_def)
  next
    case False
    then have "wakes b q1"
      using hd by (intro wakes_later [OF wakes]) (auto simp: q1_def)
    then show ?thesis
      using False ins by (auto simp: tq_kept_def q1_def addTimerInLoop_def)
  qed
qed

text \<open>Adding and cancelling leave the other timers and, up to the id that is cancelled, the cancelled ones alone.\<close>

lemma TimerQueue_insert_frame:
  assumes "TimerQueue_insert a q = Inr (c, q')"
  shows "tq_heap q' = tq_heap q \<and> tq_cancelingTimers q' = tq_cancelingTimers q"
  using assms unfolding TimerQueue_insert_def rbind_eq_Inr Let_def by clarsimp

lemma addTimerInLoop_frame:
  assumes "addTimerInLoop a q = Inr q'"
  shows "tq_heap q' = tq_heap q \<and> tq_cancelingTimers q' = tq_cancelingTimers q"
proof -
  obtain c q1 where q1: "TimerQueue_insert a q = Inr (c, q1)"
    and "(if c then rbind (deref a q1) (\<lambda>timer. Inr (resetTimerfd (tm_expiration timer) q1)) else Inr q1) = Inr q'"
    using assms by (auto simp: addTimerInLoop_def rbind_eq_Inr)
  then have "q' = q1 \<or> (\<exists>e. q' = resetTimerfd e q1)"
    by (auto simp: rbind_eq_Inr split: if_splits)
  then show ?thesis
    using TimerQueue_insert_frame [OF q1] by (auto simp: resetTimerfd_eq)
qed

lemma cancelInLoop_frame:
  "cancelInLoop i q = Inr q' \<Longrightarrow> tq_cancelingTimers q' =
     (if i \<notin> tq_activeTimers q \<and> tq_callingExpiredTimers q then insert i (tq_cancelingTimers q) else tq_cancelingTimers q)"
  by (auto simp: cancelInLoop_def rbind_eq_Inr delete_timer_def split: if_splits)

lemma new_inv:
  assumes inv: "tq_inv X q" and a: "tq_heap q a = None"
  shows "tq_inv (insert a X) (new_Timer a cb when interval q)"
proof -
  let ?q = "new_Timer a cb when interval q"
  have same: "tq_timers ?q = tq_timers q" "tq_activeTimers ?q = tq_activeTimers q" "pending_adds ?q = pending_adds q" "addrs ?q = addrs q"
    by (simp_all add: new_Timer_def pending_adds_def addrs_def)
  have dom: "a \<notin> dom (tq_heap q)" "dom (tq_heap ?q) = insert a (dom (tq_heap q))"
    using a by (auto simp: new_Timer_def)
  have notin: "snd e \<noteq> a" if "e \<in> set (tq_timers q)" for e
    using inv_entry [OF inv that] a by auto
  then have heap: "tq_heap ?q (snd e) = tq_heap q (snd e)" if "e \<in> set (tq_timers q)" for e
    using that by (auto simp: new_Timer_def)
  then have "timer_id ?q ` set (tq_timers q) = timer_id q ` set (tq_timers q)"
    by (auto simp: timer_id_def)
  moreover have "a \<notin> addrs q" "a \<notin> set (pending_adds q)" "dom (tq_heap q) = addrs q \<union> X \<union> set (pending_adds q)"
    using inv dom(1) by (auto simp: tq_inv_def)
  moreover have "\<forall>b t. tq_heap ?q b = Some t \<longrightarrow> tm_repeat t \<longrightarrow> du_positive (tm_interval t)"
    using inv by (simp add: tq_inv_def new_Timer_def Timer_ctor_def)
  moreover have "\<forall>e \<in> set (tq_timers q). \<exists>t. tq_heap ?q (snd e) = Some t \<and> tm_expiration t = fst e"
    using inv_entry [OF inv] heap by simp
  ultimately show ?thesis
    using inv unfolding tq_inv_def same dom(2) by auto
qed

text \<open>The allocator gives an address that is not in use; memory does not run out.\<close>

definition allocator :: "('cb TimerQueue \<Rightarrow> nat) \<Rightarrow> bool" where
  "allocator alloc \<longleftrightarrow> (\<forall>q. finite (dom (tq_heap q)) \<longrightarrow> tq_heap q (alloc q) = None)"

lemma alloc_fresh: "allocator alloc \<Longrightarrow> tq_inv X q \<Longrightarrow> tq_heap q (alloc q) = None"
  using inv_finite [of X q] by (simp add: allocator_def)

lemma fresh_notin: "tq_inv X q \<Longrightarrow> tq_heap q a = None \<Longrightarrow> a \<notin> X"
  by (auto simp: tq_inv_def)

lemma new_kept:
  assumes "tq_inv X q" and "wakes b q" and "tq_heap q a = None"
  shows "tq_inv (insert a X) (new_Timer a cb when interval q)" "wakes b (new_Timer a cb when interval q)"
  using new_inv [OF assms(1,3)] assms(2) by (auto simp: wakes_def armed_def new_Timer_def)

lemma addTimer_kept:
  assumes alloc: "allocator alloc" and inv: "tq_inv X q" and wakes: "wakes b q"
  shows "\<exists>q'. addTimer alloc True cb when interval q = Inr ((alloc q, tq_numCreated q + 1), q') \<and> tq_kept X b q q'"
proof -
  let ?a = "alloc q"
  let ?q = "new_Timer ?a cb when interval q"
  have fresh: "tq_heap q ?a = None" "?a \<notin> X"
    using alloc_fresh [OF alloc inv] fresh_notin [OF inv] by simp_all
  obtain q' where q': "addTimerInLoop ?a ?q = Inr q'" "tq_kept (insert ?a X - {?a}) b ?q q'"
    using add_kept [OF new_kept(1) [OF inv wakes fresh(1)] _ new_kept(2) [OF inv wakes fresh(1)]] by blast
  have "\<forall>x \<in> X. tq_heap ?q x = tq_heap q x"
    using fresh(2) by (auto simp: new_Timer_def)
  then have "tq_kept X b q q'"
    using q'(2) fresh(2) by (auto simp: tq_kept_def new_Timer_def)
  moreover have "tq_heap q' ?a = Some (Timer_ctor cb when interval (tq_numCreated q + 1))"
    using addTimerInLoop_frame [OF q'(1)] by (simp add: new_Timer_def)
  ultimately show ?thesis
    using q'(1) by (simp add: addTimer_def addTimer_begin_def addTimer_return_def deref_def Timer_ctor_def timer_runInLoop_def Let_def)
qed

lemma tick_kept: "tq_inv X q \<Longrightarrow> wakes b q \<Longrightarrow> tq_kept X b q (tick n q)"
  using wakes_later [of b q "tick n q"] by (auto simp: tq_kept_def tick_def)

lemma do_action_kept:
  assumes "allocator alloc" "tq_inv X q" "wakes b q"
  shows "\<exists>q'. do_action alloc x q = Inr q' \<and> tq_kept X b q q'"
proof (cases x)
  case (AddAction cb w interval)
  then show ?thesis
    using addTimer_kept [OF assms, of cb w interval] by auto
next
  case (CancelAction timerId)
  then show ?thesis
    using cancel_kept [OF assms(2,3), of timerId] by (simp add: timer_cancel_def timer_runInLoop_def)
next
  case (TickAction n)
  then show ?thesis
    using tick_kept [OF assms(2,3)] by simp
qed

lemma do_actions_kept:
  assumes "allocator alloc"
  shows "tq_inv X q \<Longrightarrow> wakes b q \<Longrightarrow> \<exists>q'. do_actions alloc xs q = Inr q' \<and> tq_kept X b q q'"
proof (induction xs arbitrary: q)
  case (Cons x xs)
  obtain q1 where q1: "do_action alloc x q = Inr q1" "tq_kept X b q q1"
    using do_action_kept [OF assms Cons.prems] by blast
  then obtain q2 where "do_actions alloc xs q1 = Inr q2" "tq_kept X b q1 q2"
    using Cons.IH [of q1] by (auto simp: tq_kept_def)
  then show ?case
    using q1 tq_kept_trans by auto
qed (simp add: tq_kept_refl)

section \<open>Expiring timers\<close>

lemma before_sentry_eq: "before_sentry now = (\<lambda>e. fst e \<le> now)"
  by (auto simp: fun_eq_iff before_sentry_def UINTPTR_MAX_def less_prod_def)

lemma sorted_split_fst:
  "sorted xs \<Longrightarrow> takeWhile (\<lambda>e. fst e \<le> now) xs = filter (\<lambda>e. fst e \<le> now) xs \<and>
    dropWhile (\<lambda>e. fst e \<le> now) xs = filter (\<lambda>e. now < fst e) xs" for xs :: "(int \<times> nat) list"
proof (induction xs)
  case (Cons x xs)
  show ?case
  proof (cases "fst x \<le> now")
    case False
    then have "\<forall>e \<in> set xs. now < fst e"
      using fst_hd_le [OF Cons.prems] by force
    then have "filter (\<lambda>e. fst e \<le> now) xs = []" "filter (\<lambda>e. now < fst e) xs = xs"
      by (auto simp: filter_empty_conv filter_id_conv)
    with False show ?thesis
      by simp
  qed (use Cons in auto)
qed simp

lemma inv_distinct_addrs: "tq_inv X q \<Longrightarrow> distinct (map snd (tq_timers q))"
  using inv_entry_unique [of X q] by (auto simp: distinct_map inj_on_def tq_inv_def)

lemma timer_id_frame [simp]:
  "timer_id (q\<lparr>tq_timers := es\<rparr>) = timer_id q" "timer_id (q\<lparr>tq_activeTimers := A\<rparr>) = timer_id q"
  by (simp_all add: timer_id_def fun_eq_iff)

lemma erase_active_eq:
  "distinct (map snd es) \<Longrightarrow> \<forall>e \<in> set es. tq_heap q (snd e) \<noteq> None \<and> timer_id q e \<in> tq_activeTimers q \<Longrightarrow>
   erase_active es q = Inr (q\<lparr>tq_activeTimers := tq_activeTimers q - timer_id q ` set es\<rparr>)"
proof (induction es arbitrary: q)
  case (Cons e es)
  obtain w a where e: "e = (w, a)"
    by fastforce
  obtain t where t: "tq_heap q a = Some t"
    using Cons.prems e by auto
  let ?q = "q\<lparr>tq_activeTimers := tq_activeTimers q - {timer_id q e}\<rparr>"
  have "\<forall>x \<in> set es. timer_id q x \<noteq> timer_id q e"
    using Cons.prems(1) by (auto simp: timer_id_def image_iff)
  then have "erase_active es ?q = Inr (?q\<lparr>tq_activeTimers := tq_activeTimers ?q - timer_id ?q ` set es\<rparr>)"
    using Cons.prems by (intro Cons.IH) auto
  moreover have "tq_activeTimers q - {timer_id q e} - timer_id q ` set es = tq_activeTimers q - timer_id q ` set (e # es)"
    by auto
  moreover have "timer_id q e = (a, tm_sequence t)" "timer_id q e \<in> tq_activeTimers q"
    using Cons.prems t e by (simp_all add: timer_id_def)
  ultimately show ?case
    using t e by (simp add: deref_def)
qed simp

lemma getExpired_inv:
  assumes inv: "tq_inv X q"
  shows "let ex = filter (\<lambda>e. fst e \<le> now) (tq_timers q);
      q' = q\<lparr>tq_timers := filter (\<lambda>e. now < fst e) (tq_timers q), tq_activeTimers := tq_activeTimers q - timer_id q ` set ex\<rparr> in
    getExpired now q = Inr (ex, q') \<and> tq_inv (X \<union> snd ` set ex) q'"
proof -
  define ex where "ex = filter (\<lambda>e. fst e \<le> now) (tq_timers q)"
  define rest where "rest = filter (\<lambda>e. now < fst e) (tq_timers q)"
  define q' where "q' = q\<lparr>tq_timers := rest, tq_activeTimers := tq_activeTimers q - timer_id q ` set ex\<rparr>"
  have sets: "set (tq_timers q) = set ex \<union> set rest" "set ex \<inter> set rest = {}"
    by (auto simp: ex_def rest_def)
  have apart: "snd ` set ex \<inter> snd ` set rest = {}"
    using inv_entry_unique [OF inv] sets by blast
  have active: "tq_activeTimers q' = timer_id q' ` set rest"
  proof -
    have "timer_id q ` set ex \<inter> timer_id q ` set rest = {}"
      using apart by (auto simp: timer_id_def)
    then show ?thesis
      using inv sets(1) by (auto simp: q'_def tq_inv_def)
  qed
  have addrs: "addrs q = snd ` set ex \<union> addrs q'" "addrs q' = snd ` set rest"
    using sets(1) by (auto simp: addrs_def q'_def)
  have same: "pending_adds q' = pending_adds q" "tq_timers q' = rest" "tq_heap q' = tq_heap q"
    by (simp_all add: pending_adds_def q'_def)
  have "sorted rest" "distinct rest"
    using inv by (simp_all add: rest_def tq_inv_def sorted_filter [where f = id, simplified])
  moreover have "\<forall>e \<in> set rest. \<exists>t. tq_heap q (snd e) = Some t \<and> tm_expiration t = fst e"
    using inv_entry [OF inv] sets(1) by simp
  moreover have "distinct (pending_adds q)" "set (pending_adds q) \<inter> (X \<union> snd ` set ex) = {}"
    "addrs q' \<inter> (X \<union> snd ` set ex \<union> set (pending_adds q)) = {}"
    "dom (tq_heap q) = addrs q' \<union> (X \<union> snd ` set ex) \<union> set (pending_adds q)"
    "\<forall>b t. tq_heap q b = Some t \<longrightarrow> tm_repeat t \<longrightarrow> du_positive (tm_interval t)"
    using inv apart unfolding tq_inv_def addrs by blast+
  ultimately have inv': "tq_inv (X \<union> snd ` set ex) q'"
    using active inv_finite [OF inv] unfolding tq_inv_def same by blast
  have "distinct (map snd ex)"
    using inv_distinct_addrs [OF inv] by (simp add: ex_def distinct_map_filter)
  moreover have "tq_heap q (snd e) \<noteq> None \<and> timer_id q e \<in> tq_activeTimers q" if "e \<in> set ex" for e
    using inv_entry [OF inv, of e] inv_active [OF inv, of "timer_id q e"] that sets(1) by auto
  ultimately have "erase_active ex (q\<lparr>tq_timers := rest\<rparr>) = Inr q'"
    using erase_active_eq [of ex "q\<lparr>tq_timers := rest\<rparr>"] by (simp add: q'_def)
  moreover have "rest = [] \<or> now < fst (hd rest)"
    using hd_in_set [of rest] by (auto simp: rest_def)
  ultimately have "getExpired now q = Inr (ex, q')"
    using inv_same_size [OF inv] inv_same_size [OF inv'] sorted_split_fst [OF inv_sorted [OF inv], of now]
    by (simp add: getExpired_def before_sentry_eq ex_def [symmetric] rest_def [symmetric] Let_def)
  with inv' show ?thesis
    by (simp add: Let_def ex_def [symmetric] rest_def [symmetric] q'_def [symmetric])
qed

text \<open>The callbacks of expired timers leave these timers alone, so each can be dereferenced when its turn comes.\<close>

lemma run_expired_kept:
  assumes alloc: "allocator alloc"
  shows "tq_inv X q \<Longrightarrow> wakes b q \<Longrightarrow> snd ` set es \<subseteq> X \<Longrightarrow>
    \<exists>q'. run_expired alloc user es q = Inr q' \<and> tq_kept X b (q\<lparr>tq_log := tq_log q @ map (timer_id q) es\<rparr>) q'"
proof (induction es arbitrary: q)
  case Nil
  then show ?case
    by (simp add: tq_kept_refl)
next
  case (Cons e es)
  obtain w a where e: "e = (w, a)"
    by fastforce
  have "a \<in> dom (tq_heap q)"
    using Cons.prems(1,3) e unfolding tq_inv_def by auto
  then obtain t where t: "tq_heap q a = Some t"
    by blast
  let ?q = "q\<lparr>tq_log := tq_log q @ [(a, tm_sequence t)]\<rparr>"
  obtain q1 where q1: "do_actions alloc (user (tm_callback t) ?q) ?q = Inr q1" "tq_kept X b ?q q1"
    using do_actions_kept [OF alloc, of X ?q b] Cons.prems(1,2) by auto
  then obtain q2 where q2: "run_expired alloc user es q1 = Inr q2" "tq_kept X b (q1\<lparr>tq_log := tq_log q1 @ map (timer_id q1) es\<rparr>) q2"
    using Cons.IH [of q1] Cons.prems(3) by (auto simp: tq_kept_def)
  have "map (timer_id q1) es = map (timer_id q) es"
    using q1(2) Cons.prems(3) by (auto simp: tq_kept_def timer_id_def)
  moreover have "timer_id q e = (a, tm_sequence t)"
    using t e by (simp add: timer_id_def)
  ultimately have "tq_kept X b (q\<lparr>tq_log := tq_log q @ map (timer_id q) (e # es)\<rparr>) q2"
    using q1(2) q2(2) by (auto simp: tq_kept_def)
  then show ?case
    using q1(1) q2(1) t e by (simp add: deref_def Let_def)
qed

text \<open>
  The timers that the callbacks of one expiration cancel: the arguments of all their calls of \<^verbatim>\<open>cancel\<close>, while
  the callbacks run one after the other from the state \<open>q\<close>.
\<close>

fun round_cancels ::
    "('cb TimerQueue \<Rightarrow> nat) \<Rightarrow> ('cb \<Rightarrow> 'cb TimerQueue \<Rightarrow> 'cb timer_action list) \<Rightarrow> (int \<times> nat) list \<Rightarrow> 'cb TimerQueue \<Rightarrow> TimerId list" where
  "round_cancels alloc user [] q = []"
| "round_cancels alloc user ((_, a) # es) q =
     (case tq_heap q a of
        None \<Rightarrow> []
      | Some timer \<Rightarrow>
          let q = q\<lparr>tq_log := tq_log q @ [(a, tm_sequence timer)]\<rparr>; xs = user (tm_callback timer) q in
          concat (map (\<lambda>x. case x of CancelAction i \<Rightarrow> [i] | _ \<Rightarrow> []) xs) @
          (case do_actions alloc xs q of Inl _ \<Rightarrow> [] | Inr q' \<Rightarrow> round_cancels alloc user es q'))"

lemma inactive: "tq_inv X q \<Longrightarrow> fst i \<in> X \<Longrightarrow> i \<notin> tq_activeTimers q"
  using inv_disjoint [of X q] by (auto simp: inv_active timer_id_def)

lemma do_action_canceling:
  assumes "tq_inv X q" and "tq_callingExpiredTimers q" and "fst i \<in> X" and "do_action alloc x q = Inr q'"
  shows "i \<in> tq_cancelingTimers q' \<longleftrightarrow> i \<in> tq_cancelingTimers q \<or> x = CancelAction i"
proof (cases x)
  case (AddAction cb w interval)
  then obtain a where add: "addTimerInLoop a (new_Timer a cb w interval q) = Inr q'"
    using assms(4) by (auto simp: addTimer_def addTimer_begin_def timer_runInLoop_def rbind_eq_Inr Let_def)
  with AddAction show ?thesis
    using addTimerInLoop_frame [OF add] by (simp add: new_Timer_def)
next
  case (CancelAction j)
  then show ?thesis
    using assms inactive [OF assms(1,3)] by (auto simp: timer_cancel_def timer_runInLoop_def dest!: cancelInLoop_frame split: if_splits)
next
  case (TickAction n)
  then show ?thesis
    using assms(4) by (auto simp: tick_def)
qed

lemma do_actions_canceling:
  assumes alloc: "allocator alloc" and i: "fst i \<in> X"
  shows "tq_inv X q \<Longrightarrow> wakes b q \<Longrightarrow> tq_callingExpiredTimers q \<Longrightarrow> do_actions alloc xs q = Inr q' \<Longrightarrow>
    i \<in> tq_cancelingTimers q' \<longleftrightarrow> i \<in> tq_cancelingTimers q \<or> CancelAction i \<in> set xs"
proof (induction xs arbitrary: q)
  case (Cons x xs)
  obtain q1 where q1: "do_action alloc x q = Inr q1" "tq_kept X b q q1"
    using do_action_kept [OF alloc Cons.prems(1,2)] by blast
  then have "do_actions alloc xs q1 = Inr q'" "tq_inv X q1" "wakes b q1" "tq_callingExpiredTimers q1"
    using Cons.prems by (auto simp: tq_kept_def)
  then show ?case
    using Cons.IH [of q1] do_action_canceling [OF Cons.prems(1,3) i q1(1)] by auto
qed simp

lemma run_expired_canceling:
  assumes alloc: "allocator alloc" and i: "fst i \<in> X"
  shows "tq_inv X q \<Longrightarrow> wakes b q \<Longrightarrow> tq_callingExpiredTimers q \<Longrightarrow> snd ` set es \<subseteq> X \<Longrightarrow> run_expired alloc user es q = Inr q' \<Longrightarrow>
    i \<in> tq_cancelingTimers q' \<longleftrightarrow> i \<in> tq_cancelingTimers q \<or> i \<in> set (round_cancels alloc user es q)"
proof (induction es arbitrary: q)
  case (Cons e es)
  obtain w a where e: "e = (w, a)"
    by fastforce
  obtain t where t: "tq_heap q a = Some t"
    using Cons.prems(1,4) e unfolding tq_inv_def by fastforce
  define q0 where "q0 = q\<lparr>tq_log := tq_log q @ [(a, tm_sequence t)]\<rparr>"
  define xs where "xs = user (tm_callback t) q0"
  have q0: "tq_inv X q0" "wakes b q0" "tq_callingExpiredTimers q0" "tq_cancelingTimers q0 = tq_cancelingTimers q"
    using Cons.prems by (simp_all add: q0_def)
  obtain q1 where q1: "do_actions alloc xs q0 = Inr q1" "tq_kept X b q0 q1"
    using do_actions_kept [OF alloc q0(1,2)] by blast
  then have rest: "run_expired alloc user es q1 = Inr q'" "tq_inv X q1" "wakes b q1" "tq_callingExpiredTimers q1" "snd ` set es \<subseteq> X"
    using Cons.prems(4,5) q0(3) t e by (auto simp: tq_kept_def deref_def Let_def q0_def [symmetric] xs_def [symmetric])
  have "set (round_cancels alloc user (e # es) q) =
      {j. CancelAction j \<in> set xs} \<union> set (round_cancels alloc user es q1)"
    using t q1(1) by (auto simp: e Let_def q0_def [symmetric] xs_def [symmetric] split: timer_action.splits)
  then show ?case
    using Cons.IH [OF rest(2-5,1)] do_actions_canceling [OF alloc i q0(1-3) q1(1)] q0(4) by auto
qed simp

text \<open>What becomes of an expired timer: it is started again unless it was cancelled meanwhile, or deleted.\<close>

definition reset_outcome :: "int \<Rightarrow> TimerId set \<Rightarrow> 'cb TimerQueue \<Rightarrow> 'cb TimerQueue \<Rightarrow> int \<times> nat \<Rightarrow> bool" where
  "reset_outcome now C q q' e =
     (case tq_heap q (snd e) of
        None \<Rightarrow> False
      | Some t \<Rightarrow>
          if tm_repeat t \<and> timer_id q e \<notin> C
          then tq_heap q' (snd e) = Some (Timer_restart now t) \<and> (addTime now (tm_interval t), snd e) \<in> set (tq_timers q')
          else tq_heap q' (snd e) = None)"

lemma reset_outcome_cong: "tq_heap q1 (snd e) = tq_heap q (snd e) \<Longrightarrow> reset_outcome now C q1 q' e = reset_outcome now C q q' e"
  by (cases "tq_heap q (snd e)") (simp_all add: reset_outcome_def timer_id_def)

lemma reset_outcome_timerfd [simp]: "reset_outcome now C q (q'\<lparr>tq_timerfd := f\<rparr>) e = reset_outcome now C q q' e"
  by (cases "tq_heap q (snd e)") (simp_all add: reset_outcome_def)

definition reset_kept :: "nat set \<Rightarrow> 'cb TimerQueue \<Rightarrow> 'cb TimerQueue \<Rightarrow> bool" where
  "reset_kept A q q' \<longleftrightarrow> wakes True q' \<and> (\<forall>a. a \<notin> A \<longrightarrow> tq_heap q' a = tq_heap q a) \<and> set (tq_timers q) \<subseteq> set (tq_timers q') \<and>
     tq_clock q' = tq_clock q \<and> tq_log q' = tq_log q \<and> tq_functors q' = tq_functors q \<and>
     tq_callingExpiredTimers q' = tq_callingExpiredTimers q \<and> tq_cancelingTimers q' = tq_cancelingTimers q"

lemma expiring_inv:
  assumes inv: "tq_inv X q" and a: "a \<in> X"
  shows "tm_repeat t \<longrightarrow> du_positive (tm_interval t) \<Longrightarrow> tq_inv X (q\<lparr>tq_heap := (tq_heap q)(a \<mapsto> t)\<rparr>)"
    and "tq_inv (X - {a}) (q\<lparr>tq_heap := (tq_heap q)(a := None)\<rparr>)"
proof -
  have notin: "snd e \<noteq> a" if "e \<in> set (tq_timers q)" for e
    using inv_disjoint [OF inv that] a by auto
  have frame: "pending_adds (q\<lparr>tq_heap := h\<rparr>) = pending_adds q" "addrs (q\<lparr>tq_heap := h\<rparr>) = addrs q" for h
    by (simp_all add: pending_adds_def addrs_def)
  have ids: "timer_id (q\<lparr>tq_heap := (tq_heap q)(a := v)\<rparr>) ` set (tq_timers q) = timer_id q ` set (tq_timers q)" for v
    using notin by (auto simp: timer_id_def)
  have entries: "\<forall>e \<in> set (tq_timers q). \<exists>t. ((tq_heap q)(a := v)) (snd e) = Some t \<and> tm_expiration t = fst e" for v
    using inv_entry [OF inv] notin by auto
  have dom: "dom (tq_heap q) = addrs q \<union> X \<union> set (pending_adds q)" "addrs q \<inter> (X \<union> set (pending_adds q)) = {}" "set (pending_adds q) \<inter> X = {}"
    using inv unfolding tq_inv_def by blast+
  have rest: "sorted (tq_timers q)" "distinct (tq_timers q)" "distinct (pending_adds q)" "finite (dom (tq_heap q))"
    "tq_activeTimers q = timer_id q ` set (tq_timers q)" "\<forall>b t. tq_heap q b = Some t \<longrightarrow> tm_repeat t \<longrightarrow> du_positive (tm_interval t)"
    using inv unfolding tq_inv_def by blast+
  show "tq_inv X (q\<lparr>tq_heap := (tq_heap q)(a \<mapsto> t)\<rparr>)" if "tm_repeat t \<longrightarrow> du_positive (tm_interval t)"
    using dom rest entries ids a that unfolding tq_inv_def frame by (simp add: insert_absorb)
  have fin: "finite (addrs q)" "finite X"
    using rest(4) unfolding dom(1) by simp_all
  have "dom (tq_heap q) - {a} = addrs q \<union> (X - {a}) \<union> set (pending_adds q)"
    using dom a by blast
  then show "tq_inv (X - {a}) (q\<lparr>tq_heap := (tq_heap q)(a := None)\<rparr>)"
    using dom(2,3) rest fin entries [of None] ids [of None] unfolding tq_inv_def frame by auto
qed

lemma expiring_timer: "tq_inv X q \<Longrightarrow> a \<in> X \<Longrightarrow> \<exists>t. tq_heap q a = Some t \<and> (tm_repeat t \<longrightarrow> du_positive (tm_interval t))"
  unfolding tq_inv_def by blast

text \<open>One expired timer is started again or deleted.\<close>

lemma reset_one:
  assumes inv: "tq_inv X q" and a: "a \<in> X" and wakes: "wakes True q" and now: "0 < now" and C: "C = tq_cancelingTimers q"
  shows "\<exists>q1. (\<forall>es. reset_each now ((w, a) # es) q = reset_each now es q1) \<and> tq_inv (X - {a}) q1 \<and> reset_kept {a} q q1 \<and> reset_outcome now C q q1 (w, a)"
proof -
  obtain t where t: "tq_heap q a = Some t" and pos: "tm_repeat t \<longrightarrow> du_positive (tm_interval t)"
    using expiring_timer [OF inv a] by blast
  show ?thesis
  proof (cases "tm_repeat t \<and> (a, tm_sequence t) \<notin> tq_cancelingTimers q")
    case True
    define t' where "t' = Timer_restart now t"
    define q0 where "q0 = q\<lparr>tq_heap := (tq_heap q)(a \<mapsto> t')\<rparr>"
    have t': "tm_expiration t' = addTime now (tm_interval t)" "tm_repeat t' \<longrightarrow> du_positive (tm_interval t')" "tm_expiration t' > 0"
      using True pos now by (auto simp: t'_def Timer_restart_def addTime_def du_positive_def)
    have q0: "tq_inv X q0" "tq_heap q0 a = Some t'" "tq_timers q0 = tq_timers q"
      using expiring_inv(1) [OF inv a t'(2)] by (simp_all add: q0_def)
    define q1 where "q1 = q0\<lparr>tq_timers := insort (tm_expiration t', a) (tq_timers q0), tq_activeTimers := insert (a, tm_sequence t') (tq_activeTimers q0)\<rparr>"
    obtain b where ins: "TimerQueue_insert a q0 = Inr (b, q1)" "tq_inv (X - {a}) q1"
      using insert_inv [OF q0(1) a] q0(2) unfolding q1_def Let_def by auto
    have "fst (hd (tq_timers q1)) = (if tq_timers q = [] then tm_expiration t' else min (tm_expiration t') (fst (hd (tq_timers q))))"
      by (simp add: q1_def q0_def fst_hd_insort)
    then have "wakes True q1"
      using wakes t'(3) by (auto simp: wakes_def armed_def q1_def q0_def min_def)
    then have "reset_kept {a} q q1"
      by (auto simp: reset_kept_def q1_def q0_def set_insort_key)
    moreover have "reset_outcome now C q q1 (w, a)"
      using True t t'(1) C by (simp add: reset_outcome_def timer_id_def q1_def q0_def set_insort_key t'_def)
    moreover have "reset_each now ((w, a) # es) q = reset_each now es q1" for es
      using True t ins(1) by (simp add: deref_def q0_def t'_def)
    ultimately show ?thesis
      using ins(2) by blast
  next
    case False
    let ?q = "q\<lparr>tq_heap := (tq_heap q)(a := None)\<rparr>"
    have "reset_kept {a} q ?q"
      using wakes by (auto simp: reset_kept_def wakes_def armed_def)
    moreover have "reset_outcome now C q ?q (w, a)"
      using False t C by (auto simp: reset_outcome_def timer_id_def)
    moreover have "reset_each now ((w, a) # es) q = reset_each now es ?q" for es
      using False t by (auto simp: deref_def delete_timer_def)
    ultimately show ?thesis
      using expiring_inv(2) [OF inv a] by blast
  qed
qed

lemma reset_each_inv:
  assumes "0 < now"
  shows "tq_inv X q \<Longrightarrow> wakes True q \<Longrightarrow> snd ` set es \<subseteq> X \<Longrightarrow> distinct (map snd es) \<Longrightarrow> C = tq_cancelingTimers q \<Longrightarrow>
    \<exists>q'. reset_each now es q = Inr q' \<and> tq_inv (X - snd ` set es) q' \<and> reset_kept (snd ` set es) q q' \<and> (\<forall>e \<in> set es. reset_outcome now C q q' e)"
proof (induction es arbitrary: q X)
  case Nil
  then show ?case
    by (simp add: reset_kept_def)
next
  case (Cons e es)
  obtain w a where e: "e = (w, a)"
    by fastforce
  obtain q1 where q1: "\<And>es. reset_each now (e # es) q = reset_each now es q1" "tq_inv (X - {a}) q1" "reset_kept {a} q q1" "reset_outcome now C q q1 e"
    using reset_one [OF Cons.prems(1) _ Cons.prems(2) assms Cons.prems(5), of a w] Cons.prems(3) e by auto
  have "snd ` set es \<subseteq> X - {a}" "distinct (map snd es)" "wakes True q1" "C = tq_cancelingTimers q1"
    using Cons.prems(3-5) q1(3) e by (auto simp: reset_kept_def image_iff)
  from Cons.IH [OF q1(2) this(3,1,2,4)] obtain q2 where q2: "reset_each now es q1 = Inr q2" "tq_inv (X - {a} - snd ` set es) q2"
    "reset_kept (snd ` set es) q1 q2" "\<forall>e \<in> set es. reset_outcome now C q1 q2 e"
    by blast
  have other: "a \<notin> snd ` set es"
    using Cons.prems(4) e by simp
  have "reset_outcome now C q q2 e"
    using q1(4) q2(3) other e by (auto simp: reset_outcome_def reset_kept_def split: option.splits if_splits)
  moreover have "reset_outcome now C q q2 x" if "x \<in> set es" for x
  proof -
    have "snd x \<noteq> a"
      using that other by auto
    then have "tq_heap q1 (snd x) = tq_heap q (snd x)"
      using q1(3) by (auto simp: reset_kept_def)
    then show ?thesis
      using q2(4) that reset_outcome_cong by blast
  qed
  moreover have "reset_kept (snd ` set (e # es)) q q2"
    using q1(3) q2(3) e by (auto simp: reset_kept_def)
  moreover have "X - {a} - snd ` set es = X - snd ` set (e # es)"
    using e by auto
  ultimately show ?case
    using q1(1) q2(1,2) by auto
qed

lemma reset_inv:
  assumes inv: "tq_inv X q" and "wakes True q" "snd ` set es \<subseteq> X" "distinct (map snd es)" "0 < now"
  shows "\<exists>q'. TimerQueue_reset es now q = Inr q' \<and> tq_inv (X - snd ` set es) q' \<and> wakes False q' \<and> tq_clock q' = tq_clock q \<and>
    tq_log q' = tq_log q \<and> tq_functors q' = tq_functors q \<and> tq_callingExpiredTimers q' = tq_callingExpiredTimers q \<and>
    tq_cancelingTimers q' = tq_cancelingTimers q \<and> (\<forall>e \<in> set es. reset_outcome now (tq_cancelingTimers q) q q' e)"
proof -
  obtain q1 where q1: "reset_each now es q = Inr q1" "tq_inv (X - snd ` set es) q1" "reset_kept (snd ` set es) q q1"
    "\<forall>e \<in> set es. reset_outcome now (tq_cancelingTimers q) q q1 e"
    using reset_each_inv [OF assms(5) inv assms(2-4) refl] by blast
  have kept: "wakes True q1" "tq_clock q1 = tq_clock q" "tq_log q1 = tq_log q" "tq_functors q1 = tq_functors q"
    "tq_callingExpiredTimers q1 = tq_callingExpiredTimers q" "tq_cancelingTimers q1 = tq_cancelingTimers q"
    using q1(3) by (simp_all add: reset_kept_def)
  show ?thesis
  proof (cases "tq_timers q1")
    case Nil
    then have "TimerQueue_reset es now q = Inr q1"
      using q1(1) by (simp add: TimerQueue_reset_def Timestamp_valid_def)
    moreover have "wakes False q1"
      using Nil by (simp add: wakes_def)
    ultimately show ?thesis
      using q1(2,4) kept by blast
  next
    case (Cons e rest)
    obtain w a where e: "e = (w, a)"
      by fastforce
    obtain t where t: "tq_heap q1 a = Some t" "tm_expiration t = w"
      using inv_entry [OF q1(2), of e] Cons e by auto
    define q2 where "q2 = (if w > 0 then q1\<lparr>tq_timerfd := Some (max w (tq_clock q1 + 100))\<rparr> else q1)"
    have "TimerQueue_reset es now q = Inr q2"
      using q1(1) Cons e t by (simp add: TimerQueue_reset_def Timestamp_valid_def deref_def resetTimerfd_eq q2_def)
    moreover have "wakes False q2"
      using kept(1) Cons e by (auto simp: q2_def wakes_def armed_def)
    moreover have "tq_inv (X - snd ` set es) q2" "\<forall>e \<in> set es. reset_outcome now (tq_cancelingTimers q) q q2 e"
      using q1(2,4) by (simp_all add: q2_def)
    moreover have "tq_clock q2 = tq_clock q" "tq_log q2 = tq_log q" "tq_functors q2 = tq_functors q"
      "tq_callingExpiredTimers q2 = tq_callingExpiredTimers q" "tq_cancelingTimers q2 = tq_cancelingTimers q"
      using kept by (simp_all add: q2_def)
    ultimately show ?thesis
      by blast
  qed
qed

text \<open>The state between two events of the loop.\<close>

definition tq_idle :: "'cb TimerQueue \<Rightarrow> bool" where
  "tq_idle q \<longleftrightarrow> tq_inv {} q \<and> wakes False q \<and> tq_clock q > 0 \<and> \<not> tq_callingExpiredTimers q"

text \<open>The timers that are due, and the state in which their callbacks begin: nothing has been cancelled yet.\<close>

definition due :: "'cb TimerQueue \<Rightarrow> (int \<times> nat) list" where
  "due q = filter (\<lambda>e. fst e \<le> tq_clock q) (tq_timers q)"

definition round_start :: "'cb TimerQueue \<Rightarrow> 'cb TimerQueue" where
  "round_start q =
     q\<lparr>tq_timerfd := None, tq_timers := filter (\<lambda>e. tq_clock q < fst e) (tq_timers q),
       tq_activeTimers := tq_activeTimers q - timer_id q ` set (due q), tq_callingExpiredTimers := True, tq_cancelingTimers := {}\<rparr>"

lemma reset_outcome_cancels:
  "(timer_id q e \<in> C \<longleftrightarrow> timer_id q e \<in> D) \<Longrightarrow> reset_outcome now C q q' e = reset_outcome now D q q' e"
  by (cases "tq_heap q (snd e)") (simp_all add: reset_outcome_def)

lemma handleRead_idle:
  assumes alloc: "allocator alloc" and idle: "tq_idle q"
  shows "\<exists>q'. TimerQueue_handleRead alloc user q = Inr q' \<and> tq_idle q' \<and> tq_log q' = tq_log q @ map (timer_id q) (due q) \<and>
    (\<forall>e \<in> set (due q). reset_outcome (tq_clock q) (set (round_cancels alloc user (due q) (round_start q))) q q' e)"
proof -
  let ?now = "tq_clock q" and ?ex = "due q"
  define r where "r = readTimerfd q"
  have r: "tq_inv {} r" "tq_timers r = tq_timers q" "timer_id r = timer_id q" "tq_activeTimers r = tq_activeTimers q"
    using idle by (simp_all add: tq_idle_def r_def readTimerfd_def timer_id_def fun_eq_iff)
  define X where "X = snd ` set ?ex"
  define q1 where "q1 = r\<lparr>tq_timers := filter (\<lambda>e. ?now < fst e) (tq_timers q), tq_activeTimers := tq_activeTimers q - timer_id q ` set ?ex\<rparr>"
  have q1: "getExpired ?now r = Inr (?ex, q1)" "tq_inv X q1"
    using getExpired_inv [OF r(1), of ?now] r(2-4) by (simp_all add: Let_def due_def X_def q1_def)
  have q1_same: "tq_heap q1 = tq_heap q" "tq_log q1 = tq_log q" "tq_clock q1 = ?now"
    by (simp_all add: q1_def r_def readTimerfd_def)
  have "tq_timers q1 = filter (\<lambda>e. ?now < fst e) (tq_timers q)"
    by (simp add: q1_def)
  then have "wakes True q1"
    using hd_in_set [of "tq_timers q1"] idle by (auto simp: wakes_def tq_idle_def)
  moreover have start: "q1\<lparr>tq_callingExpiredTimers := True, tq_cancelingTimers := {}\<rparr> = round_start q"
    by (simp add: q1_def round_start_def r_def readTimerfd_def)
  ultimately have q2: "tq_inv X (round_start q)" "wakes True (round_start q)" "timer_id (round_start q) = timer_id q"
    "tq_log (round_start q) = tq_log q" "tq_callingExpiredTimers (round_start q)" "tq_cancelingTimers (round_start q) = {}"
    using q1(2) by (simp_all add: start [symmetric] q1_same timer_id_def fun_eq_iff)
  obtain q3 where q3: "run_expired alloc user ?ex (round_start q) = Inr q3"
    "tq_kept X True ((round_start q)\<lparr>tq_log := tq_log (round_start q) @ map (timer_id (round_start q)) ?ex\<rparr>) q3"
    using run_expired_kept [OF alloc q2(1,2), of ?ex user] by (auto simp: X_def)
  have canceled: "i \<in> tq_cancelingTimers q3 \<longleftrightarrow> i \<in> set (round_cancels alloc user ?ex (round_start q))" if "fst i \<in> X" for i
    using run_expired_canceling [OF alloc that q2(1,2,5) _ q3(1)] q2(6) by (simp add: X_def)
  define q4 where "q4 = q3\<lparr>tq_callingExpiredTimers := False\<rparr>"
  have q4: "tq_inv X q4" "wakes True q4" "\<forall>a \<in> X. tq_heap q4 a = tq_heap q a" "?now \<le> tq_clock q4"
    "tq_log q4 = tq_log q @ map (timer_id q) ?ex" "\<not> tq_callingExpiredTimers q4" "tq_cancelingTimers q4 = tq_cancelingTimers q3"
    using q3(2) q2(3,4) by (auto simp: tq_kept_def q4_def round_start_def)
  have "distinct (map snd ?ex)" "0 < ?now"
    using inv_distinct_addrs [OF r(1)] idle by (simp_all add: due_def r(2) distinct_map_filter tq_idle_def)
  then obtain q5 where q5: "TimerQueue_reset ?ex ?now q4 = Inr q5" "tq_inv {} q5" "wakes False q5" "tq_clock q5 = tq_clock q4"
    "tq_log q5 = tq_log q4" "tq_callingExpiredTimers q5 = tq_callingExpiredTimers q4"
    "\<forall>e \<in> set ?ex. reset_outcome ?now (tq_cancelingTimers q4) q4 q5 e"
    using reset_inv [OF q4(1,2), of ?ex ?now] by (auto simp: X_def)
  have "reset_outcome ?now (set (round_cancels alloc user ?ex (round_start q))) q q5 e" if "e \<in> set ?ex" for e
  proof -
    have "tq_heap q4 (snd e) = tq_heap q (snd e)" "fst (timer_id q e) \<in> X"
      using q4(3) that by (simp_all add: X_def timer_id_def)
    then show ?thesis
      using q5(7) that reset_outcome_cong [of q4 e q] reset_outcome_cancels [OF canceled] q4(7) by metis
  qed
  moreover have "TimerQueue_handleRead alloc user q = Inr q5"
    using q1(1) q3(1) q5(1) by (simp add: TimerQueue_handleRead_def Let_def r_def [symmetric] start q4_def [symmetric])
  moreover have "tq_idle q5"
    using q4 q5 \<open>0 < ?now\<close> by (simp add: tq_idle_def)
  ultimately show ?thesis
    using q4(5) q5(5) by auto
qed

section \<open>Histories\<close>

text \<open>
  Adding and cancelling from any thread, running queued functors, the passing of time and the timer descriptor.
  Another thread may be stopped in the middle of \<^verbatim>\<open>addTimer\<close>; the rest of it changes nothing in the queue.
\<close>

inductive tq_reach ::
    "('cb TimerQueue \<Rightarrow> nat) \<Rightarrow> ('cb \<Rightarrow> 'cb TimerQueue \<Rightarrow> 'cb timer_action list) \<Rightarrow> 'cb TimerQueue \<Rightarrow> bool"
  for alloc user where
  start: "0 < clock \<Longrightarrow> tq_reach alloc user (TimerQueue_ctor clock)"
| add: "tq_reach alloc user q \<Longrightarrow> addTimer alloc in_loop cb w interval q = Inr (timerId, q') \<Longrightarrow> tq_reach alloc user q'"
| add_begin: "tq_reach alloc user q \<Longrightarrow> addTimer_begin alloc False cb w interval q = Inr (a, q') \<Longrightarrow> tq_reach alloc user q'"
| cancel: "tq_reach alloc user q \<Longrightarrow> timer_cancel in_loop timerId q = Inr q' \<Longrightarrow> tq_reach alloc user q'"
| time: "tq_reach alloc user q \<Longrightarrow> tq_reach alloc user (tick n q)"
| queued: "tq_reach alloc user q \<Longrightarrow> tq_functors q = f # fs \<Longrightarrow> call_timer_functor f (q\<lparr>tq_functors := fs\<rparr>) = Inr q' \<Longrightarrow>
    tq_reach alloc user q'"
| fire: "tq_reach alloc user q \<Longrightarrow> TimerQueue_handleRead alloc user q = Inr q' \<Longrightarrow> tq_reach alloc user q'"

lemma inv_functors:
  assumes "tq_inv X q" and "set (pending_adds (q\<lparr>tq_functors := fs\<rparr>)) \<union> Y = set (pending_adds q) \<union> X"
    and "distinct (pending_adds (q\<lparr>tq_functors := fs\<rparr>))" "set (pending_adds (q\<lparr>tq_functors := fs\<rparr>)) \<inter> Y = {}"
  shows "tq_inv Y (q\<lparr>tq_functors := fs\<rparr>)"
proof -
  let ?q = "q\<lparr>tq_functors := fs\<rparr>"
  have same: "addrs ?q = addrs q" "timer_id ?q = timer_id q" "tq_timers ?q = tq_timers q" "tq_heap ?q = tq_heap q"
    "tq_activeTimers ?q = tq_activeTimers q"
    by (simp_all add: addrs_def timer_id_def fun_eq_iff)
  have "addrs q \<inter> (Y \<union> set (pending_adds ?q)) = {}" "dom (tq_heap q) = addrs q \<union> Y \<union> set (pending_adds ?q)"
    using assms(1,2) unfolding tq_inv_def by blast+
  then show ?thesis
    using assms(1,3,4) inv_finite [OF assms(1)] unfolding tq_inv_def same by blast
qed

lemma tq_kept_idle: "tq_idle q \<Longrightarrow> tq_kept {} False q q' \<Longrightarrow> tq_idle q'"
  by (auto simp: tq_idle_def tq_kept_def)

lemma tq_idle_kept: "tq_idle q \<Longrightarrow> tq_inv {} q \<and> wakes False q"
  by (simp add: tq_idle_def)

lemma queued_functor_idle:
  assumes "tq_idle q" and "case f of AddTimerInLoop a \<Rightarrow> tq_inv {a} q' \<and> tq_functors q' = tq_functors q | CancelInLoop _ \<Rightarrow> q' = q"
    and "wakes False q'" "tq_clock q' = tq_clock q" "tq_callingExpiredTimers q' = tq_callingExpiredTimers q"
  shows "tq_idle (q'\<lparr>tq_functors := tq_functors q' @ [f]\<rparr>)"
proof -
  have adds: "pending_adds (q'\<lparr>tq_functors := tq_functors q' @ [f]\<rparr>) = pending_adds q' @ (case f of AddTimerInLoop a \<Rightarrow> [a] | CancelInLoop _ \<Rightarrow> [])"
    by (simp add: pending_adds_def)
  have "tq_inv {} (q'\<lparr>tq_functors := tq_functors q' @ [f]\<rparr>)"
  proof (cases f)
    case (AddTimerInLoop a)
    then have inv: "tq_inv {a} q'"
      using assms(2) by simp
    then have "distinct (pending_adds q')" "a \<notin> set (pending_adds q')"
      unfolding tq_inv_def by blast+
    then show ?thesis
      using adds AddTimerInLoop by (intro inv_functors [OF inv]) auto
  next
    case (CancelInLoop timerId)
    then have inv: "tq_inv {} q'"
      using assms(1,2) by (simp add: tq_idle_def)
    then have "distinct (pending_adds q')"
      unfolding tq_inv_def by blast
    then show ?thesis
      using adds CancelInLoop by (intro inv_functors [OF inv]) auto
  qed
  then show ?thesis
    using assms(1,3-5) by (simp add: tq_idle_def)
qed

lemma addTimer_begin_idle:
  assumes alloc: "allocator alloc" and idle: "tq_idle q"
  shows "\<exists>q'. addTimer_begin alloc False cb w interval q = Inr (alloc q, q') \<and> tq_idle q' \<and>
    tq_heap q' = (tq_heap q)(alloc q \<mapsto> Timer_ctor cb w interval (tq_numCreated q + 1)) \<and>
    tq_functors q' = tq_functors q @ [AddTimerInLoop (alloc q)] \<and> tq_clock q' = tq_clock q"
proof -
  let ?q = "new_Timer (alloc q) cb w interval q"
  have "tq_inv {alloc q} ?q" "wakes False ?q"
    using new_kept [of "{}" q False "alloc q" cb w interval] alloc_fresh [OF alloc, of "{}" q] tq_idle_kept [OF idle] by simp_all
  then have "tq_idle (?q\<lparr>tq_functors := tq_functors ?q @ [AddTimerInLoop (alloc q)]\<rparr>)"
    by (intro queued_functor_idle [OF idle]) (simp_all add: new_Timer_def)
  then show ?thesis
    by (simp add: addTimer_begin_def timer_runInLoop_def Let_def new_Timer_def)
qed

lemma addTimer_idle:
  assumes alloc: "allocator alloc" and idle: "tq_idle q"
  shows "\<exists>timerId q'. addTimer alloc in_loop cb w interval q = Inr (timerId, q') \<and> tq_idle q'"
proof (cases in_loop)
  case True
  then show ?thesis
    using addTimer_kept [OF alloc, of "{}" q False cb w interval] tq_idle_kept [OF idle] tq_kept_idle [OF idle] by auto
next
  case False
  then show ?thesis
    using addTimer_begin_idle [OF alloc idle, of cb w interval] by (auto simp: addTimer_def addTimer_return_def deref_def)
qed

lemma timer_cancel_idle:
  assumes idle: "tq_idle q"
  shows "\<exists>q'. timer_cancel in_loop timerId q = Inr q' \<and> tq_idle q'"
proof (cases in_loop)
  case True
  then show ?thesis
    using cancel_kept [of "{}" q False timerId] tq_idle_kept [OF idle] tq_kept_idle [OF idle] by (auto simp: timer_cancel_def timer_runInLoop_def)
next
  case False
  then show ?thesis
    using queued_functor_idle [OF idle, where f = "CancelInLoop timerId" and q' = q] tq_idle_kept [OF idle] by (simp add: timer_cancel_def timer_runInLoop_def)
qed

lemma call_functor_idle:
  assumes idle: "tq_idle q" and f: "tq_functors q = f # fs"
  shows "\<exists>q'. call_timer_functor f (q\<lparr>tq_functors := fs\<rparr>) = Inr q' \<and> tq_idle q'"
proof -
  let ?q = "q\<lparr>tq_functors := fs\<rparr>"
  have inv: "tq_inv {} q" "wakes False ?q"
    using tq_idle_kept [OF idle] by simp_all
  have adds: "pending_adds q = (case f of AddTimerInLoop a \<Rightarrow> [a] | CancelInLoop _ \<Rightarrow> []) @ pending_adds ?q" "distinct (pending_adds q)"
    using f inv(1) by (simp_all add: pending_adds_def tq_inv_def)
  have idle': "tq_idle q'" if "tq_kept {} False ?q q'" for q'
    using that idle by (auto simp: tq_kept_def tq_idle_def)
  show ?thesis
  proof (cases f)
    case (AddTimerInLoop a)
    then have "tq_inv {a} ?q"
      using adds by (intro inv_functors [OF inv(1)]) auto
    then show ?thesis
      using add_kept [OF _ _ inv(2), of "{a}" a] idle' AddTimerInLoop by auto
  next
    case (CancelInLoop timerId)
    then have "tq_inv {} ?q"
      using adds by (intro inv_functors [OF inv(1)]) auto
    then show ?thesis
      using cancel_kept [OF _ inv(2), of "{}" timerId] idle' CancelInLoop by auto
  qed
qed

lemma tq_reach_idle: "tq_reach alloc user q \<Longrightarrow> allocator alloc \<Longrightarrow> tq_idle q"
proof (induction rule: tq_reach.induct)
  case (start clock)
  then show ?case
    by (simp add: tq_idle_def TimerQueue_ctor_def tq_inv_def wakes_def pending_adds_def addrs_def)
next
  case (add q in_loop cb w interval timerId q')
  then show ?case
    using addTimer_idle [of alloc q in_loop cb w interval] by auto
next
  case (add_begin q cb w interval a q')
  then show ?case
    using addTimer_begin_idle [of alloc q cb w interval] by auto
next
  case (cancel q in_loop timerId q')
  then show ?case
    using timer_cancel_idle [of q in_loop timerId] by auto
next
  case (time q n)
  then show ?case
    using tick_kept [of "{}" q False n] tq_kept_idle [of q "tick n q"] tq_idle_kept by blast
next
  case (queued q f fs q')
  then show ?case
    using call_functor_idle [of q f fs] by auto
next
  case (fire q q')
  then show ?case
    using handleRead_idle [of alloc q user] by auto
qed

text \<open>The destructor leaks exactly the timers that other threads have created and the loop has not yet added.\<close>

lemma TimerQueue_dtor_leaks:
  assumes "tq_idle q"
  shows "dom (tq_heap (TimerQueue_dtor q)) = set (pending_adds q)"
proof -
  have fold: "dom (tq_heap (foldl (\<lambda>q e. delete_timer (snd e) q) q es)) = dom (tq_heap q) - snd ` set es" for es
    by (induction es arbitrary: q) (auto simp: delete_timer_def)
  have "dom (tq_heap q) = snd ` set (tq_timers q) \<union> set (pending_adds q)" "snd ` set (tq_timers q) \<inter> set (pending_adds q) = {}"
    using assms unfolding tq_idle_def tq_inv_def addrs_def by blast+
  then show ?thesis
    unfolding TimerQueue_dtor_def fold by blast
qed


text \<open>An allocator that takes the first address above all that are in use.\<close>

definition bump_alloc :: "'cb TimerQueue \<Rightarrow> nat" where
  "bump_alloc q = Suc (Max (insert 0 (dom (tq_heap q))))"

lemma bump_allocator: "allocator bump_alloc"
proof -
  have "bump_alloc q \<notin> dom (tq_heap q)" if "finite (dom (tq_heap q))" for q :: "'cb TimerQueue"
  proof
    assume "bump_alloc q \<in> dom (tq_heap q)"
    then have "bump_alloc q \<le> Max (insert 0 (dom (tq_heap q)))"
      using that by (intro Max_ge) auto
    then show False
      by (simp add: bump_alloc_def)
  qed
  then show ?thesis
    by (auto simp: allocator_def)
qed


text \<open>
  C39. When the timer descriptor fires, exactly the timers whose expiration is not later than now run,
  once each, in the order of their expiration; afterwards a repeating timer is in the queue again
  for now plus its interval, unless one of the callbacks that just ran called \<^verbatim>\<open>cancel\<close> with its id, and any
  other one is deleted. Cancellations of earlier expirations do not count.
\<close>

theorem timers_expire:
  assumes "allocator alloc" and "tq_reach alloc user q"
  shows "\<exists>q'. TimerQueue_handleRead alloc user q = Inr q' \<and>
    tq_log q' = tq_log q @ map (timer_id q) (filter (\<lambda>e. fst e \<le> tq_clock q) (tq_timers q)) \<and>
    (\<forall>e \<in> set (tq_timers q). fst e \<le> tq_clock q \<longrightarrow>
       (case tq_heap q (snd e) of
          None \<Rightarrow> False
        | Some t \<Rightarrow>
            if tm_repeat t \<and> timer_id q e \<notin> set (round_cancels alloc user (due q) (round_start q))
            then tq_heap q' (snd e) = Some (Timer_restart (tq_clock q) t) \<and> (addTime (tq_clock q) (tm_interval t), snd e) \<in> set (tq_timers q')
            else tq_heap q' (snd e) = None))"
proof -
  let ?C = "set (round_cancels alloc user (due q) (round_start q))"
  obtain q' where q': "TimerQueue_handleRead alloc user q = Inr q'" "tq_log q' = tq_log q @ map (timer_id q) (due q)"
    and out: "\<forall>e \<in> set (due q). reset_outcome (tq_clock q) ?C q q' e"
    using handleRead_idle [OF assms(1) tq_reach_idle [OF assms(2,1)], of user] by blast
  have "\<forall>e \<in> set (tq_timers q). fst e \<le> tq_clock q \<longrightarrow> reset_outcome (tq_clock q) ?C q q' e"
    using out by (auto simp: due_def)
  with q' show ?thesis
    unfolding reset_outcome_def due_def [symmetric] by blast
qed

text \<open>A queue with one timer, which is due and repeats every 20 microseconds if \<open>d\<close> says so.\<close>

definition one_timer :: "duration \<Rightarrow> string TimerQueue" where
  "one_timer d = (TimerQueue_ctor 7)\<lparr>tq_heap := [1 \<mapsto> Timer_ctor ''cb'' 5 d 1], tq_numCreated := 1, tq_timerfd := Some 107,
     tq_timers := [(5, 1)], tq_activeTimers := {(1, 1)}\<rparr>"

lemma one_timer_added: "addTimer bump_alloc True ''cb'' 5 d (TimerQueue_ctor 7) = Inr ((1, 1), one_timer d)"
proof -
  have "bump_alloc (TimerQueue_ctor 7 :: string TimerQueue) = 1"
    by (simp add: bump_alloc_def TimerQueue_ctor_def)
  then show ?thesis
    by (simp add: addTimer_def addTimer_begin_def addTimer_return_def timer_runInLoop_def addTimerInLoop_def TimerQueue_insert_def
        deref_def new_Timer_def one_timer_def TimerQueue_ctor_def Timer_ctor_def same_size_def resetTimerfd_eq Let_def)
qed

theorem timers_expire_witness:
  "\<exists>q'. TimerQueue_handleRead bump_alloc (\<lambda>cb q. [CancelAction (1, 1)]) (one_timer \<lparr>du_micros = 20, du_rest = False\<rparr>) = Inr q' \<and>
     tq_log q' = [(1, 1)] \<and> tq_heap q' 1 = None"
proof -
  let ?d = "\<lparr>du_micros = 20, du_rest = False\<rparr>" and ?user = "\<lambda>(cb :: string) (q :: string TimerQueue). [CancelAction (1, 1)] :: string timer_action list"
  let ?q = "one_timer ?d"
  have reach: "tq_reach bump_alloc ?user ?q"
    by (rule tq_reach.add [OF tq_reach.start one_timer_added]) simp
  have heap: "tq_heap ?q 1 = Some (Timer_ctor ''cb'' 5 ?d 1)" "tq_timers ?q = [(5, 1)]" "tq_clock ?q = 7" "tq_log ?q = []"
    by (simp_all add: one_timer_def TimerQueue_ctor_def)
  have "(1, 1) \<in> set (round_cancels bump_alloc ?user (due ?q) (round_start ?q))" "timer_id ?q (5, 1) = (1, 1)"
    using heap by (simp_all add: due_def round_start_def Let_def timer_id_def Timer_ctor_def)
  then show ?thesis
    using timers_expire [OF bump_allocator reach] heap by auto
qed

text \<open>
  C0. The race in \<^verbatim>\<open>addTimer\<close>. If another thread than the loop thread adds a timer that is due at once and does not
  repeat, the loop may add the timer, run and delete it before that thread reads the sequence number for the
  result: then the thread reads a deleted timer.
\<close>

theorem addTimer_use_after_free:
  assumes "allocator alloc" and "tq_reach alloc user q" and "tq_functors q = []" and "w \<le> tq_clock q" and "\<not> du_positive interval"
  shows "\<exists>a q1 q2 q3. addTimer_begin alloc False cb w interval q = Inr (a, q1) \<and> tq_functors q1 = [AddTimerInLoop a] \<and>
    call_timer_functor (AddTimerInLoop a) (q1\<lparr>tq_functors := []\<rparr>) = Inr q2 \<and> TimerQueue_handleRead alloc user q2 = Inr q3 \<and>
    addTimer_return a q3 = Inl UndefinedBehaviour"
proof -
  let ?a = "alloc q" and ?t = "Timer_ctor cb w interval (tq_numCreated q + 1)"
  obtain q1 where q1: "addTimer_begin alloc False cb w interval q = Inr (?a, q1)" "tq_idle q1" "tq_heap q1 ?a = Some ?t"
    "tq_functors q1 = [AddTimerInLoop ?a]" "tq_clock q1 = tq_clock q"
    using addTimer_begin_idle [OF assms(1) tq_reach_idle [OF assms(2,1)], of cb w interval] assms(3) by auto
  obtain q2 where q2: "addTimerInLoop ?a (q1\<lparr>tq_functors := []\<rparr>) = Inr q2" "tq_idle q2"
    using call_functor_idle [OF q1(2,4)] by auto
  have q2': "tq_heap q2 ?a = Some ?t" "(w, ?a) \<in> set (tq_timers q2)" "tq_clock q2 = tq_clock q"
    using q2(1) q1(3,5) by (auto simp: addTimerInLoop_def TimerQueue_insert_def deref_def rbind_eq_Inr resetTimerfd_eq Let_def
        Timer_ctor_def set_insort_key split: if_splits)
  obtain q3 where q3: "TimerQueue_handleRead alloc user q2 = Inr q3"
    and out: "\<forall>e \<in> set (due q2). reset_outcome (tq_clock q2) (set (round_cancels alloc user (due q2) (round_start q2))) q2 q3 e"
    using handleRead_idle [OF assms(1) q2(2), of user] by blast
  have "(w, ?a) \<in> set (due q2)"
    using q2'(2,3) assms(4) by (simp add: due_def)
  then have "tq_heap q3 ?a = None"
    using out q2'(1) assms(5) by (force simp: reset_outcome_def Timer_ctor_def)
  then have "addTimer_return ?a q3 = Inl UndefinedBehaviour"
    by (simp add: addTimer_return_def deref_def)
  with q1(1,4) q2(1) q3 show ?thesis
    by auto
qed

theorem addTimer_use_after_free_witness:
  "\<exists>a q1 q2 q3. addTimer_begin bump_alloc False ''cb'' 5 \<lparr>du_micros = 0, du_rest = False\<rparr> (TimerQueue_ctor 7) = Inr (a, q1) \<and>
    call_timer_functor (AddTimerInLoop a) (q1\<lparr>tq_functors := []\<rparr>) = Inr q2 \<and>
    TimerQueue_handleRead bump_alloc (\<lambda>cb q. []) q2 = Inr q3 \<and> addTimer_return a q3 = Inl UndefinedBehaviour"
proof -
  let ?q = "TimerQueue_ctor 7 :: string TimerQueue"
  have reach: "tq_reach bump_alloc (\<lambda>cb q. []) ?q"
    by (rule tq_reach.start) simp
  have "tq_functors ?q = []" "5 \<le> tq_clock ?q" "\<not> du_positive \<lparr>du_micros = 0, du_rest = False\<rparr>"
    by (simp_all add: TimerQueue_ctor_def du_positive_def)
  from addTimer_use_after_free [OF bump_allocator reach this, of "''cb''"] show ?thesis
    by blast
qed

end
