(* ===== verification/Wire_Format.thy ===== *)
theory Wire_Format
  imports Coded_Roundtrip
begin

text \<open>
  \<^verbatim>\<open>WireFormatLite\<close> of \<^verbatim>\<open>google/protobuf/wire_format_lite.h\<close>, \<^verbatim>\<open>wire_format_lite_inl.h\<close> and
  \<^verbatim>\<open>wire_format_lite.cc\<close>: tags, the zigzag code, and the readers, writers and sizes of fields of every
  declared type. A reader returns the value read, or none. The writers that go through a pointer give the bytes
  they leave behind it. Where the name of a method is also that of a method of the coded streams, it carries the class in front.
\<close>

unbundle bit_operations_syntax

type_synonym int64 = "64 word"

section \<open>Types and tags\<close>

text \<open>The type of a field on the wire, with the two values of its three bits that the enumeration leaves out.\<close>

datatype WireType =
    WIRETYPE_VARINT | WIRETYPE_FIXED64 | WIRETYPE_LENGTH_DELIMITED | WIRETYPE_START_GROUP
  | WIRETYPE_END_GROUP | WIRETYPE_FIXED32 | WIRETYPE_unnamed6 | WIRETYPE_unnamed7

primrec wire_type_value :: "WireType \<Rightarrow> uint32" where
  "wire_type_value WIRETYPE_VARINT = 0"
| "wire_type_value WIRETYPE_FIXED64 = 1"
| "wire_type_value WIRETYPE_LENGTH_DELIMITED = 2"
| "wire_type_value WIRETYPE_START_GROUP = 3"
| "wire_type_value WIRETYPE_END_GROUP = 4"
| "wire_type_value WIRETYPE_FIXED32 = 5"
| "wire_type_value WIRETYPE_unnamed6 = 6"
| "wire_type_value WIRETYPE_unnamed7 = 7"

datatype FieldType =
    TYPE_DOUBLE | TYPE_FLOAT | TYPE_INT64 | TYPE_UINT64 | TYPE_INT32 | TYPE_FIXED64 | TYPE_FIXED32 | TYPE_BOOL
  | TYPE_STRING | TYPE_GROUP | TYPE_MESSAGE | TYPE_BYTES | TYPE_UINT32 | TYPE_ENUM | TYPE_SFIXED32
  | TYPE_SFIXED64 | TYPE_SINT32 | TYPE_SINT64

datatype CppType =
    CPPTYPE_INT32 | CPPTYPE_INT64 | CPPTYPE_UINT32 | CPPTYPE_UINT64 | CPPTYPE_DOUBLE | CPPTYPE_FLOAT
  | CPPTYPE_BOOL | CPPTYPE_ENUM | CPPTYPE_STRING | CPPTYPE_MESSAGE

primrec FieldTypeToCppType :: "FieldType \<Rightarrow> CppType" where
  "FieldTypeToCppType TYPE_DOUBLE = CPPTYPE_DOUBLE"
| "FieldTypeToCppType TYPE_FLOAT = CPPTYPE_FLOAT"
| "FieldTypeToCppType TYPE_INT64 = CPPTYPE_INT64"
| "FieldTypeToCppType TYPE_UINT64 = CPPTYPE_UINT64"
| "FieldTypeToCppType TYPE_INT32 = CPPTYPE_INT32"
| "FieldTypeToCppType TYPE_FIXED64 = CPPTYPE_UINT64"
| "FieldTypeToCppType TYPE_FIXED32 = CPPTYPE_UINT32"
| "FieldTypeToCppType TYPE_BOOL = CPPTYPE_BOOL"
| "FieldTypeToCppType TYPE_STRING = CPPTYPE_STRING"
| "FieldTypeToCppType TYPE_GROUP = CPPTYPE_MESSAGE"
| "FieldTypeToCppType TYPE_MESSAGE = CPPTYPE_MESSAGE"
| "FieldTypeToCppType TYPE_BYTES = CPPTYPE_STRING"
| "FieldTypeToCppType TYPE_UINT32 = CPPTYPE_UINT32"
| "FieldTypeToCppType TYPE_ENUM = CPPTYPE_ENUM"
| "FieldTypeToCppType TYPE_SFIXED32 = CPPTYPE_INT32"
| "FieldTypeToCppType TYPE_SFIXED64 = CPPTYPE_INT64"
| "FieldTypeToCppType TYPE_SINT32 = CPPTYPE_INT32"
| "FieldTypeToCppType TYPE_SINT64 = CPPTYPE_INT64"

primrec WireTypeForFieldType :: "FieldType \<Rightarrow> WireType" where
  "WireTypeForFieldType TYPE_DOUBLE = WIRETYPE_FIXED64"
| "WireTypeForFieldType TYPE_FLOAT = WIRETYPE_FIXED32"
| "WireTypeForFieldType TYPE_INT64 = WIRETYPE_VARINT"
| "WireTypeForFieldType TYPE_UINT64 = WIRETYPE_VARINT"
| "WireTypeForFieldType TYPE_INT32 = WIRETYPE_VARINT"
| "WireTypeForFieldType TYPE_FIXED64 = WIRETYPE_FIXED64"
| "WireTypeForFieldType TYPE_FIXED32 = WIRETYPE_FIXED32"
| "WireTypeForFieldType TYPE_BOOL = WIRETYPE_VARINT"
| "WireTypeForFieldType TYPE_STRING = WIRETYPE_LENGTH_DELIMITED"
| "WireTypeForFieldType TYPE_GROUP = WIRETYPE_START_GROUP"
| "WireTypeForFieldType TYPE_MESSAGE = WIRETYPE_LENGTH_DELIMITED"
| "WireTypeForFieldType TYPE_BYTES = WIRETYPE_LENGTH_DELIMITED"
| "WireTypeForFieldType TYPE_UINT32 = WIRETYPE_VARINT"
| "WireTypeForFieldType TYPE_ENUM = WIRETYPE_VARINT"
| "WireTypeForFieldType TYPE_SFIXED32 = WIRETYPE_FIXED32"
| "WireTypeForFieldType TYPE_SFIXED64 = WIRETYPE_FIXED64"
| "WireTypeForFieldType TYPE_SINT32 = WIRETYPE_VARINT"
| "WireTypeForFieldType TYPE_SINT64 = WIRETYPE_VARINT"

definition kTagTypeBits :: nat where
  "kTagTypeBits = 3"

definition kTagTypeMask :: uint32 where
  "kTagTypeMask = push_bit kTagTypeBits 1 - 1"

text \<open>The shift moves the bit pattern of the field number, so that its upper three bits are lost.\<close>

definition MakeTag :: "int32 \<Rightarrow> WireType \<Rightarrow> uint32" where
  "MakeTag field_number t = push_bit kTagTypeBits field_number OR wire_type_value t"

definition GetTagWireType :: "uint32 \<Rightarrow> WireType" where
  "GetTagWireType tag =
     (let t = tag AND kTagTypeMask in
      if t = 0 then WIRETYPE_VARINT
      else if t = 1 then WIRETYPE_FIXED64
      else if t = 2 then WIRETYPE_LENGTH_DELIMITED
      else if t = 3 then WIRETYPE_START_GROUP
      else if t = 4 then WIRETYPE_END_GROUP
      else if t = 5 then WIRETYPE_FIXED32
      else if t = 6 then WIRETYPE_unnamed6
      else WIRETYPE_unnamed7)"

definition GetTagFieldNumber :: "uint32 \<Rightarrow> int32" where
  "GetTagFieldNumber tag = drop_bit kTagTypeBits tag"

definition TagSize :: "int32 \<Rightarrow> FieldType \<Rightarrow> nat" where
  "TagSize field_number t =
     (let result = VarintSize32 (push_bit kTagTypeBits field_number) in
      if t = TYPE_GROUP then result * 2 else result)"

section \<open>Codes for values\<close>

text \<open>A floating point number is given by its object representation, which the unions reinterpret.\<close>

datatype float32 = Float32 uint32
datatype float64 = Float64 uint64

primrec EncodeFloat :: "float32 \<Rightarrow> uint32" where
  "EncodeFloat (Float32 i) = i"

definition DecodeFloat :: "uint32 \<Rightarrow> float32" where
  "DecodeFloat v = Float32 v"

primrec EncodeDouble :: "float64 \<Rightarrow> uint64" where
  "EncodeDouble (Float64 i) = i"

definition DecodeDouble :: "uint64 \<Rightarrow> float64" where
  "DecodeDouble v = Float64 v"

definition ZigZagEncode32 :: "int32 \<Rightarrow> uint32" where
  "ZigZagEncode32 n = push_bit 1 n XOR signed_drop_bit 31 n"

definition ZigZagDecode32 :: "uint32 \<Rightarrow> int32" where
  "ZigZagDecode32 n = drop_bit 1 n XOR - (n AND 1)"

definition ZigZagEncode64 :: "int64 \<Rightarrow> uint64" where
  "ZigZagEncode64 n = push_bit 1 n XOR signed_drop_bit 63 n"

definition ZigZagDecode64 :: "uint64 \<Rightarrow> int64" where
  "ZigZagDecode64 n = drop_bit 1 n XOR - (n AND 1)"

section \<open>Reading values\<close>

text \<open>A reader's result, converted.\<close>

definition map_read :: "('a \<Rightarrow> 'b) \<Rightarrow> ('a option \<times> 's CodedInputStream) result \<Rightarrow> ('b option \<times> 's CodedInputStream) result" where
  "map_read f r = rbind r (\<lambda>(temp, c). Inr (map_option f temp, c))"

definition ReadPrimitive_INT32 ::
    "'s zero_copy_input \<Rightarrow> 's CodedInputStream \<Rightarrow> (int32 option \<times> 's CodedInputStream) result" where
  "ReadPrimitive_INT32 ops c = map_read (\<lambda>temp. temp) (ReadVarint32 ops c)"

definition ReadPrimitive_INT64 ::
    "'s zero_copy_input \<Rightarrow> 's CodedInputStream \<Rightarrow> (int64 option \<times> 's CodedInputStream) result" where
  "ReadPrimitive_INT64 ops c = map_read (\<lambda>temp. temp) (ReadVarint64 ops c)"

definition ReadPrimitive_UINT32 ::
    "'s zero_copy_input \<Rightarrow> 's CodedInputStream \<Rightarrow> (uint32 option \<times> 's CodedInputStream) result" where
  "ReadPrimitive_UINT32 ops c = ReadVarint32 ops c"

definition ReadPrimitive_UINT64 ::
    "'s zero_copy_input \<Rightarrow> 's CodedInputStream \<Rightarrow> (uint64 option \<times> 's CodedInputStream) result" where
  "ReadPrimitive_UINT64 ops c = ReadVarint64 ops c"

definition ReadPrimitive_SINT32 ::
    "'s zero_copy_input \<Rightarrow> 's CodedInputStream \<Rightarrow> (int32 option \<times> 's CodedInputStream) result" where
  "ReadPrimitive_SINT32 ops c = map_read ZigZagDecode32 (ReadVarint32 ops c)"

definition ReadPrimitive_SINT64 ::
    "'s zero_copy_input \<Rightarrow> 's CodedInputStream \<Rightarrow> (int64 option \<times> 's CodedInputStream) result" where
  "ReadPrimitive_SINT64 ops c = map_read ZigZagDecode64 (ReadVarint64 ops c)"

definition ReadPrimitive_FIXED32 ::
    "'s zero_copy_input \<Rightarrow> endian \<Rightarrow> 's CodedInputStream \<Rightarrow> (uint32 option \<times> 's CodedInputStream) result" where
  "ReadPrimitive_FIXED32 ops host c = ReadLittleEndian32 ops host c"

definition ReadPrimitive_FIXED64 ::
    "'s zero_copy_input \<Rightarrow> endian \<Rightarrow> 's CodedInputStream \<Rightarrow> (uint64 option \<times> 's CodedInputStream) result" where
  "ReadPrimitive_FIXED64 ops host c = ReadLittleEndian64 ops host c"

definition ReadPrimitive_SFIXED32 ::
    "'s zero_copy_input \<Rightarrow> endian \<Rightarrow> 's CodedInputStream \<Rightarrow> (int32 option \<times> 's CodedInputStream) result" where
  "ReadPrimitive_SFIXED32 ops host c = map_read (\<lambda>temp. temp) (ReadLittleEndian32 ops host c)"

definition ReadPrimitive_SFIXED64 ::
    "'s zero_copy_input \<Rightarrow> endian \<Rightarrow> 's CodedInputStream \<Rightarrow> (int64 option \<times> 's CodedInputStream) result" where
  "ReadPrimitive_SFIXED64 ops host c = map_read (\<lambda>temp. temp) (ReadLittleEndian64 ops host c)"

definition ReadPrimitive_FLOAT ::
    "'s zero_copy_input \<Rightarrow> endian \<Rightarrow> 's CodedInputStream \<Rightarrow> (float32 option \<times> 's CodedInputStream) result" where
  "ReadPrimitive_FLOAT ops host c = map_read DecodeFloat (ReadLittleEndian32 ops host c)"

definition ReadPrimitive_DOUBLE ::
    "'s zero_copy_input \<Rightarrow> endian \<Rightarrow> 's CodedInputStream \<Rightarrow> (float64 option \<times> 's CodedInputStream) result" where
  "ReadPrimitive_DOUBLE ops host c = map_read DecodeDouble (ReadLittleEndian64 ops host c)"

definition ReadPrimitive_BOOL ::
    "'s zero_copy_input \<Rightarrow> 's CodedInputStream \<Rightarrow> (bool option \<times> 's CodedInputStream) result" where
  "ReadPrimitive_BOOL ops c = map_read (\<lambda>temp. temp \<noteq> 0) (ReadVarint64 ops c)"

definition ReadPrimitive_ENUM ::
    "'s zero_copy_input \<Rightarrow> 's CodedInputStream \<Rightarrow> (int32 option \<times> 's CodedInputStream) result" where
  "ReadPrimitive_ENUM ops c = map_read (\<lambda>temp. temp) (ReadVarint32 ops c)"

text \<open>The string handed in is what a failing read may leave unchanged.\<close>

definition WireFormatLite_ReadString ::
    "'s zero_copy_input \<Rightarrow> byte list \<Rightarrow> 's CodedInputStream \<Rightarrow> (bool \<times> byte list \<times> 's CodedInputStream) result" where
  "WireFormatLite_ReadString ops v c =
     rbind (ReadVarint32 ops c) (\<lambda>(len, c).
       case len of
         None \<Rightarrow> Inr (False, v, c)
       | Some len \<Rightarrow> rbind (InternalReadStringInline ops v (sint len) c) (\<lambda>(b, v, c).
           if \<not> b then Inr (False, v, c) else Inr (True, v, c)))"

definition WireFormatLite_ReadBytes ::
    "'s zero_copy_input \<Rightarrow> byte list \<Rightarrow> 's CodedInputStream \<Rightarrow> (bool \<times> byte list \<times> 's CodedInputStream) result" where
  "WireFormatLite_ReadBytes ops v c =
     rbind (ReadVarint32 ops c) (\<lambda>(len, c).
       case len of
         None \<Rightarrow> Inr (False, v, c)
       | Some len \<Rightarrow> InternalReadStringInline ops v (sint len) c)"

section \<open>Writing values\<close>

definition WireFormatLite_WriteTag ::
    "'s zero_copy_output \<Rightarrow> int32 \<Rightarrow> WireType \<Rightarrow> 's CodedOutputStream \<Rightarrow> 's CodedOutputStream result" where
  "WireFormatLite_WriteTag ops field_number t c = WriteTag ops (MakeTag field_number t) c"

definition WriteInt32NoTag :: "'s zero_copy_output \<Rightarrow> int32 \<Rightarrow> 's CodedOutputStream \<Rightarrow> 's CodedOutputStream result" where
  "WriteInt32NoTag ops v c = WriteVarint32SignExtended ops v c"

definition WriteInt64NoTag :: "'s zero_copy_output \<Rightarrow> int64 \<Rightarrow> 's CodedOutputStream \<Rightarrow> 's CodedOutputStream result" where
  "WriteInt64NoTag ops v c = WriteVarint64 ops v c"

definition WriteUInt32NoTag :: "'s zero_copy_output \<Rightarrow> uint32 \<Rightarrow> 's CodedOutputStream \<Rightarrow> 's CodedOutputStream result" where
  "WriteUInt32NoTag ops v c = WriteVarint32 ops v c"

definition WriteUInt64NoTag :: "'s zero_copy_output \<Rightarrow> uint64 \<Rightarrow> 's CodedOutputStream \<Rightarrow> 's CodedOutputStream result" where
  "WriteUInt64NoTag ops v c = WriteVarint64 ops v c"

definition WriteSInt32NoTag :: "'s zero_copy_output \<Rightarrow> int32 \<Rightarrow> 's CodedOutputStream \<Rightarrow> 's CodedOutputStream result" where
  "WriteSInt32NoTag ops v c = WriteVarint32 ops (ZigZagEncode32 v) c"

definition WriteSInt64NoTag :: "'s zero_copy_output \<Rightarrow> int64 \<Rightarrow> 's CodedOutputStream \<Rightarrow> 's CodedOutputStream result" where
  "WriteSInt64NoTag ops v c = WriteVarint64 ops (ZigZagEncode64 v) c"

definition WriteFixed32NoTag :: "'s zero_copy_output \<Rightarrow> uint32 \<Rightarrow> 's CodedOutputStream \<Rightarrow> 's CodedOutputStream result" where
  "WriteFixed32NoTag ops v c = WriteLittleEndian32 ops v c"

definition WriteFixed64NoTag :: "'s zero_copy_output \<Rightarrow> uint64 \<Rightarrow> 's CodedOutputStream \<Rightarrow> 's CodedOutputStream result" where
  "WriteFixed64NoTag ops v c = WriteLittleEndian64 ops v c"

definition WriteSFixed32NoTag :: "'s zero_copy_output \<Rightarrow> int32 \<Rightarrow> 's CodedOutputStream \<Rightarrow> 's CodedOutputStream result" where
  "WriteSFixed32NoTag ops v c = WriteLittleEndian32 ops v c"

definition WriteSFixed64NoTag :: "'s zero_copy_output \<Rightarrow> int64 \<Rightarrow> 's CodedOutputStream \<Rightarrow> 's CodedOutputStream result" where
  "WriteSFixed64NoTag ops v c = WriteLittleEndian64 ops v c"

definition WriteFloatNoTag :: "'s zero_copy_output \<Rightarrow> float32 \<Rightarrow> 's CodedOutputStream \<Rightarrow> 's CodedOutputStream result" where
  "WriteFloatNoTag ops v c = WriteLittleEndian32 ops (EncodeFloat v) c"

definition WriteDoubleNoTag :: "'s zero_copy_output \<Rightarrow> float64 \<Rightarrow> 's CodedOutputStream \<Rightarrow> 's CodedOutputStream result" where
  "WriteDoubleNoTag ops v c = WriteLittleEndian64 ops (EncodeDouble v) c"

definition WriteBoolNoTag :: "'s zero_copy_output \<Rightarrow> bool \<Rightarrow> 's CodedOutputStream \<Rightarrow> 's CodedOutputStream result" where
  "WriteBoolNoTag ops v c = WriteVarint32 ops (if v then 1 else 0) c"

definition WriteEnumNoTag :: "'s zero_copy_output \<Rightarrow> int32 \<Rightarrow> 's CodedOutputStream \<Rightarrow> 's CodedOutputStream result" where
  "WriteEnumNoTag ops v c = WriteVarint32SignExtended ops v c"

definition WriteInt32 ::
    "'s zero_copy_output \<Rightarrow> int32 \<Rightarrow> int32 \<Rightarrow> 's CodedOutputStream \<Rightarrow> 's CodedOutputStream result" where
  "WriteInt32 ops field_number v c =
     rbind (WireFormatLite_WriteTag ops field_number WIRETYPE_VARINT c) (WriteInt32NoTag ops v)"

definition WriteInt64 ::
    "'s zero_copy_output \<Rightarrow> int32 \<Rightarrow> int64 \<Rightarrow> 's CodedOutputStream \<Rightarrow> 's CodedOutputStream result" where
  "WriteInt64 ops field_number v c =
     rbind (WireFormatLite_WriteTag ops field_number WIRETYPE_VARINT c) (WriteInt64NoTag ops v)"

definition WriteUInt32 ::
    "'s zero_copy_output \<Rightarrow> int32 \<Rightarrow> uint32 \<Rightarrow> 's CodedOutputStream \<Rightarrow> 's CodedOutputStream result" where
  "WriteUInt32 ops field_number v c =
     rbind (WireFormatLite_WriteTag ops field_number WIRETYPE_VARINT c) (WriteUInt32NoTag ops v)"

definition WriteUInt64 ::
    "'s zero_copy_output \<Rightarrow> int32 \<Rightarrow> uint64 \<Rightarrow> 's CodedOutputStream \<Rightarrow> 's CodedOutputStream result" where
  "WriteUInt64 ops field_number v c =
     rbind (WireFormatLite_WriteTag ops field_number WIRETYPE_VARINT c) (WriteUInt64NoTag ops v)"

definition WriteSInt32 ::
    "'s zero_copy_output \<Rightarrow> int32 \<Rightarrow> int32 \<Rightarrow> 's CodedOutputStream \<Rightarrow> 's CodedOutputStream result" where
  "WriteSInt32 ops field_number v c =
     rbind (WireFormatLite_WriteTag ops field_number WIRETYPE_VARINT c) (WriteSInt32NoTag ops v)"

definition WriteSInt64 ::
    "'s zero_copy_output \<Rightarrow> int32 \<Rightarrow> int64 \<Rightarrow> 's CodedOutputStream \<Rightarrow> 's CodedOutputStream result" where
  "WriteSInt64 ops field_number v c =
     rbind (WireFormatLite_WriteTag ops field_number WIRETYPE_VARINT c) (WriteSInt64NoTag ops v)"

definition WriteFixed32 ::
    "'s zero_copy_output \<Rightarrow> int32 \<Rightarrow> uint32 \<Rightarrow> 's CodedOutputStream \<Rightarrow> 's CodedOutputStream result" where
  "WriteFixed32 ops field_number v c =
     rbind (WireFormatLite_WriteTag ops field_number WIRETYPE_FIXED32 c) (WriteFixed32NoTag ops v)"

definition WriteFixed64 ::
    "'s zero_copy_output \<Rightarrow> int32 \<Rightarrow> uint64 \<Rightarrow> 's CodedOutputStream \<Rightarrow> 's CodedOutputStream result" where
  "WriteFixed64 ops field_number v c =
     rbind (WireFormatLite_WriteTag ops field_number WIRETYPE_FIXED64 c) (WriteFixed64NoTag ops v)"

definition WriteSFixed32 ::
    "'s zero_copy_output \<Rightarrow> int32 \<Rightarrow> int32 \<Rightarrow> 's CodedOutputStream \<Rightarrow> 's CodedOutputStream result" where
  "WriteSFixed32 ops field_number v c =
     rbind (WireFormatLite_WriteTag ops field_number WIRETYPE_FIXED32 c) (WriteSFixed32NoTag ops v)"

definition WriteSFixed64 ::
    "'s zero_copy_output \<Rightarrow> int32 \<Rightarrow> int64 \<Rightarrow> 's CodedOutputStream \<Rightarrow> 's CodedOutputStream result" where
  "WriteSFixed64 ops field_number v c =
     rbind (WireFormatLite_WriteTag ops field_number WIRETYPE_FIXED64 c) (WriteSFixed64NoTag ops v)"

definition WriteFloat ::
    "'s zero_copy_output \<Rightarrow> int32 \<Rightarrow> float32 \<Rightarrow> 's CodedOutputStream \<Rightarrow> 's CodedOutputStream result" where
  "WriteFloat ops field_number v c =
     rbind (WireFormatLite_WriteTag ops field_number WIRETYPE_FIXED32 c) (WriteFloatNoTag ops v)"

definition WriteDouble ::
    "'s zero_copy_output \<Rightarrow> int32 \<Rightarrow> float64 \<Rightarrow> 's CodedOutputStream \<Rightarrow> 's CodedOutputStream result" where
  "WriteDouble ops field_number v c =
     rbind (WireFormatLite_WriteTag ops field_number WIRETYPE_FIXED64 c) (WriteDoubleNoTag ops v)"

definition WriteBool ::
    "'s zero_copy_output \<Rightarrow> int32 \<Rightarrow> bool \<Rightarrow> 's CodedOutputStream \<Rightarrow> 's CodedOutputStream result" where
  "WriteBool ops field_number v c =
     rbind (WireFormatLite_WriteTag ops field_number WIRETYPE_VARINT c) (WriteBoolNoTag ops v)"

definition WriteEnum ::
    "'s zero_copy_output \<Rightarrow> int32 \<Rightarrow> int32 \<Rightarrow> 's CodedOutputStream \<Rightarrow> 's CodedOutputStream result" where
  "WriteEnum ops field_number v c =
     rbind (WireFormatLite_WriteTag ops field_number WIRETYPE_VARINT c) (WriteEnumNoTag ops v)"

text \<open>The size is checked after the tag has been written; the length is then converted to 32 bits.\<close>

definition WireFormatLite_WriteString ::
    "'s zero_copy_output \<Rightarrow> int32 \<Rightarrow> byte list \<Rightarrow> 's CodedOutputStream \<Rightarrow> 's CodedOutputStream result" where
  "WireFormatLite_WriteString ops field_number v c =
     rbind (WireFormatLite_WriteTag ops field_number WIRETYPE_LENGTH_DELIMITED c) (\<lambda>c.
     rbind (ensure (int (length v) \<le> INT_MAX) FatalCheck) (\<lambda>_.
     rbind (WriteVarint32 ops (of_nat (length v)) c) (\<lambda>c. WriteString ops v c)))"

definition WriteStringMaybeAliased ::
    "'s zero_copy_output \<Rightarrow> int32 \<Rightarrow> byte list \<Rightarrow> 's CodedOutputStream \<Rightarrow> 's CodedOutputStream result" where
  "WriteStringMaybeAliased ops field_number v c =
     rbind (WireFormatLite_WriteTag ops field_number WIRETYPE_LENGTH_DELIMITED c) (\<lambda>c.
     rbind (ensure (int (length v) \<le> INT_MAX) FatalCheck) (\<lambda>_.
     rbind (WriteVarint32 ops (of_nat (length v)) c) (\<lambda>c. WriteRawMaybeAliased ops v c)))"

definition WriteBytes ::
    "'s zero_copy_output \<Rightarrow> int32 \<Rightarrow> byte list \<Rightarrow> 's CodedOutputStream \<Rightarrow> 's CodedOutputStream result" where
  "WriteBytes ops field_number v c =
     rbind (WireFormatLite_WriteTag ops field_number WIRETYPE_LENGTH_DELIMITED c) (\<lambda>c.
     rbind (ensure (int (length v) \<le> INT_MAX) FatalCheck) (\<lambda>_.
     rbind (WriteVarint32 ops (of_nat (length v)) c) (\<lambda>c. WriteString ops v c)))"

definition WriteBytesMaybeAliased ::
    "'s zero_copy_output \<Rightarrow> int32 \<Rightarrow> byte list \<Rightarrow> 's CodedOutputStream \<Rightarrow> 's CodedOutputStream result" where
  "WriteBytesMaybeAliased ops field_number v c =
     rbind (WireFormatLite_WriteTag ops field_number WIRETYPE_LENGTH_DELIMITED c) (\<lambda>c.
     rbind (ensure (int (length v) \<le> INT_MAX) FatalCheck) (\<lambda>_.
     rbind (WriteVarint32 ops (of_nat (length v)) c) (\<lambda>c. WriteRawMaybeAliased ops v c)))"

section \<open>Writing through a pointer\<close>

definition WireFormatLite_WriteTagToArray :: "int32 \<Rightarrow> WireType \<Rightarrow> byte list" where
  "WireFormatLite_WriteTagToArray field_number t = WriteTagToArray (MakeTag field_number t)"

definition WriteInt32NoTagToArray :: "int32 \<Rightarrow> byte list" where
  "WriteInt32NoTagToArray v = WriteVarint32SignExtendedToArray v"

definition WriteInt64NoTagToArray :: "int64 \<Rightarrow> byte list" where
  "WriteInt64NoTagToArray v = WriteVarint64ToArray v"

definition WriteUInt32NoTagToArray :: "uint32 \<Rightarrow> byte list" where
  "WriteUInt32NoTagToArray v = WriteVarint32ToArray v"

definition WriteUInt64NoTagToArray :: "uint64 \<Rightarrow> byte list" where
  "WriteUInt64NoTagToArray v = WriteVarint64ToArray v"

definition WriteSInt32NoTagToArray :: "int32 \<Rightarrow> byte list" where
  "WriteSInt32NoTagToArray v = WriteVarint32ToArray (ZigZagEncode32 v)"

definition WriteSInt64NoTagToArray :: "int64 \<Rightarrow> byte list" where
  "WriteSInt64NoTagToArray v = WriteVarint64ToArray (ZigZagEncode64 v)"

definition WriteFixed32NoTagToArray :: "uint32 \<Rightarrow> byte list" where
  "WriteFixed32NoTagToArray v = WriteLittleEndian32ToArray v"

definition WriteFixed64NoTagToArray :: "uint64 \<Rightarrow> byte list" where
  "WriteFixed64NoTagToArray v = WriteLittleEndian64ToArray v"

definition WriteSFixed32NoTagToArray :: "int32 \<Rightarrow> byte list" where
  "WriteSFixed32NoTagToArray v = WriteLittleEndian32ToArray v"

definition WriteSFixed64NoTagToArray :: "int64 \<Rightarrow> byte list" where
  "WriteSFixed64NoTagToArray v = WriteLittleEndian64ToArray v"

definition WriteFloatNoTagToArray :: "float32 \<Rightarrow> byte list" where
  "WriteFloatNoTagToArray v = WriteLittleEndian32ToArray (EncodeFloat v)"

definition WriteDoubleNoTagToArray :: "float64 \<Rightarrow> byte list" where
  "WriteDoubleNoTagToArray v = WriteLittleEndian64ToArray (EncodeDouble v)"

definition WriteBoolNoTagToArray :: "bool \<Rightarrow> byte list" where
  "WriteBoolNoTagToArray v = WriteVarint32ToArray (if v then 1 else 0)"

definition WriteEnumNoTagToArray :: "int32 \<Rightarrow> byte list" where
  "WriteEnumNoTagToArray v = WriteVarint32SignExtendedToArray v"

definition WriteInt32ToArray :: "int32 \<Rightarrow> int32 \<Rightarrow> byte list" where
  "WriteInt32ToArray field_number v =
     WireFormatLite_WriteTagToArray field_number WIRETYPE_VARINT @ WriteInt32NoTagToArray v"

definition WriteInt64ToArray :: "int32 \<Rightarrow> int64 \<Rightarrow> byte list" where
  "WriteInt64ToArray field_number v =
     WireFormatLite_WriteTagToArray field_number WIRETYPE_VARINT @ WriteInt64NoTagToArray v"

definition WriteUInt32ToArray :: "int32 \<Rightarrow> uint32 \<Rightarrow> byte list" where
  "WriteUInt32ToArray field_number v =
     WireFormatLite_WriteTagToArray field_number WIRETYPE_VARINT @ WriteUInt32NoTagToArray v"

definition WriteUInt64ToArray :: "int32 \<Rightarrow> uint64 \<Rightarrow> byte list" where
  "WriteUInt64ToArray field_number v =
     WireFormatLite_WriteTagToArray field_number WIRETYPE_VARINT @ WriteUInt64NoTagToArray v"

definition WriteSInt32ToArray :: "int32 \<Rightarrow> int32 \<Rightarrow> byte list" where
  "WriteSInt32ToArray field_number v =
     WireFormatLite_WriteTagToArray field_number WIRETYPE_VARINT @ WriteSInt32NoTagToArray v"

definition WriteSInt64ToArray :: "int32 \<Rightarrow> int64 \<Rightarrow> byte list" where
  "WriteSInt64ToArray field_number v =
     WireFormatLite_WriteTagToArray field_number WIRETYPE_VARINT @ WriteSInt64NoTagToArray v"

definition WriteFixed32ToArray :: "int32 \<Rightarrow> uint32 \<Rightarrow> byte list" where
  "WriteFixed32ToArray field_number v =
     WireFormatLite_WriteTagToArray field_number WIRETYPE_FIXED32 @ WriteFixed32NoTagToArray v"

definition WriteFixed64ToArray :: "int32 \<Rightarrow> uint64 \<Rightarrow> byte list" where
  "WriteFixed64ToArray field_number v =
     WireFormatLite_WriteTagToArray field_number WIRETYPE_FIXED64 @ WriteFixed64NoTagToArray v"

definition WriteSFixed32ToArray :: "int32 \<Rightarrow> int32 \<Rightarrow> byte list" where
  "WriteSFixed32ToArray field_number v =
     WireFormatLite_WriteTagToArray field_number WIRETYPE_FIXED32 @ WriteSFixed32NoTagToArray v"

definition WriteSFixed64ToArray :: "int32 \<Rightarrow> int64 \<Rightarrow> byte list" where
  "WriteSFixed64ToArray field_number v =
     WireFormatLite_WriteTagToArray field_number WIRETYPE_FIXED64 @ WriteSFixed64NoTagToArray v"

definition WriteFloatToArray :: "int32 \<Rightarrow> float32 \<Rightarrow> byte list" where
  "WriteFloatToArray field_number v =
     WireFormatLite_WriteTagToArray field_number WIRETYPE_FIXED32 @ WriteFloatNoTagToArray v"

definition WriteDoubleToArray :: "int32 \<Rightarrow> float64 \<Rightarrow> byte list" where
  "WriteDoubleToArray field_number v =
     WireFormatLite_WriteTagToArray field_number WIRETYPE_FIXED64 @ WriteDoubleNoTagToArray v"

definition WriteBoolToArray :: "int32 \<Rightarrow> bool \<Rightarrow> byte list" where
  "WriteBoolToArray field_number v =
     WireFormatLite_WriteTagToArray field_number WIRETYPE_VARINT @ WriteBoolNoTagToArray v"

definition WriteEnumToArray :: "int32 \<Rightarrow> int32 \<Rightarrow> byte list" where
  "WriteEnumToArray field_number v =
     WireFormatLite_WriteTagToArray field_number WIRETYPE_VARINT @ WriteEnumNoTagToArray v"

definition WireFormatLite_WriteStringToArray :: "int32 \<Rightarrow> byte list \<Rightarrow> byte list result" where
  "WireFormatLite_WriteStringToArray field_number v =
     rbind (WriteStringWithSizeToArray v) (\<lambda>d.
       Inr (WireFormatLite_WriteTagToArray field_number WIRETYPE_LENGTH_DELIMITED @ d))"

definition WriteBytesToArray :: "int32 \<Rightarrow> byte list \<Rightarrow> byte list result" where
  "WriteBytesToArray field_number v =
     rbind (WriteStringWithSizeToArray v) (\<lambda>d.
       Inr (WireFormatLite_WriteTagToArray field_number WIRETYPE_LENGTH_DELIMITED @ d))"

section \<open>Sizes\<close>

definition Int32Size :: "int32 \<Rightarrow> nat" where
  "Int32Size v = VarintSize32SignExtended v"

definition Int64Size :: "int64 \<Rightarrow> nat" where
  "Int64Size v = VarintSize64 v"

definition UInt32Size :: "uint32 \<Rightarrow> nat" where
  "UInt32Size v = VarintSize32 v"

definition UInt64Size :: "uint64 \<Rightarrow> nat" where
  "UInt64Size v = VarintSize64 v"

definition SInt32Size :: "int32 \<Rightarrow> nat" where
  "SInt32Size v = VarintSize32 (ZigZagEncode32 v)"

definition SInt64Size :: "int64 \<Rightarrow> nat" where
  "SInt64Size v = VarintSize64 (ZigZagEncode64 v)"

definition EnumSize :: "int32 \<Rightarrow> nat" where
  "EnumSize v = VarintSize32SignExtended v"

definition kFixed32Size :: nat where
  "kFixed32Size = 4"

definition kFixed64Size :: nat where
  "kFixed64Size = 8"

definition kSFixed32Size :: nat where
  "kSFixed32Size = 4"

definition kSFixed64Size :: nat where
  "kSFixed64Size = 8"

definition kFloatSize :: nat where
  "kFloatSize = 4"

definition kDoubleSize :: nat where
  "kDoubleSize = 8"

definition kBoolSize :: nat where
  "kBoolSize = 1"

text \<open>
  The sizes of strings are computed as \<^verbatim>\<open>size_t\<close> and returned as \<^verbatim>\<open>int\<close>, of which 32 bits are kept. The size of a
  delimited field is a sum of \<^verbatim>\<open>int\<close>s, which must not overflow.
\<close>

definition StringSize :: "byte list \<Rightarrow> int32" where
  "StringSize v = of_nat (VarintSize32 (of_nat (length v)) + length v)"

definition BytesSize :: "byte list \<Rightarrow> int32" where
  "BytesSize v = of_nat (VarintSize32 (of_nat (length v)) + length v)"

definition LengthDelimitedSize :: "int32 \<Rightarrow> int result" where
  "LengthDelimitedSize len =
     (let n = int (VarintSize32 len) + sint len in
      rbind (ensure (n \<le> INT_MAX) UndefinedBehaviour) (\<lambda>_. Inr n))"

section \<open>Tags round trip\<close>

lemma mask8: "kTagTypeMask = mask 3"
  by (simp add: kTagTypeMask_def kTagTypeBits_def mask_eq_exp_minus_1 push_bit_eq_mult)

lemma wire_type_value_less: "wire_type_value t < 8"
  by (cases t) simp_all

lemma bit_mask8: "bit kTagTypeMask n \<longleftrightarrow> n < 3"
  unfolding mask8 by (auto simp: bit_mask_iff)

lemma bit_wire_type: "bit (wire_type_value t) n \<Longrightarrow> n < 3"
proof -
  assume "bit (wire_type_value t) n"
  then have "bit (wire_type_value t AND mask 3) n"
    by (cases t) (simp_all add: mask_eq_exp_minus_1)
  then show ?thesis by (simp add: bit_simps)
qed

lemma GetTagWireType_MakeTag [simp]: "GetTagWireType (MakeTag n t) = t"
proof -
  have "MakeTag n t AND kTagTypeMask = wire_type_value t"
    by (rule bit_word_eqI) (auto simp: MakeTag_def kTagTypeBits_def bit_simps bit_mask8 dest: bit_wire_type)
  then show ?thesis
    by (cases t) (simp_all add: GetTagWireType_def)
qed

lemma GetTagFieldNumber_MakeTag: "GetTagFieldNumber (MakeTag n t) = take_bit 29 n"
  by (rule bit_word_eqI) (auto simp: GetTagFieldNumber_def MakeTag_def kTagTypeBits_def bit_simps dest: bit_wire_type)

lemma wire_type_value_GetTag: "wire_type_value (GetTagWireType tag) = tag AND kTagTypeMask"
proof -
  have "unat (tag AND kTagTypeMask) < 8"
    unfolding mask8 take_bit_eq_mask [symmetric] unsigned_take_bit_eq by (simp add: take_bit_eq_mod)
  then have "unat (tag AND kTagTypeMask) \<in> {0, 1, 2, 3, 4, 5, 6, 7}"
    by auto
  then have "tag AND kTagTypeMask \<in> of_nat ` {0, 1, 2, 3, 4, 5, 6, 7}"
    by (intro image_eqI [of _ _ "unat (tag AND kTagTypeMask)"]) simp_all
  then show ?thesis
    by (auto simp: GetTagWireType_def Let_def)
qed

lemma MakeTag_GetTag: "MakeTag (GetTagFieldNumber tag) (GetTagWireType tag) = tag"
  by (rule bit_word_eqI)
    (auto simp: MakeTag_def GetTagFieldNumber_def kTagTypeBits_def wire_type_value_GetTag bit_simps bit_mask8)

section \<open>Zigzag\<close>

text \<open>The code is a bijection, and sends the integers \<open>0, -1, 1, -2, ...\<close> to \<open>0, 1, 2, 3, ...\<close>\<close>

lemma zigzag_bits:
  fixes n :: "'a::len word"
  assumes "m = LENGTH('a) - 1"
  shows "bit (push_bit 1 n XOR signed_drop_bit m n) i \<longleftrightarrow>
    i < LENGTH('a) \<and> ((0 < i \<and> bit n (i - 1)) \<noteq> bit n (LENGTH('a) - 1))"
proof -
  have p: "bit (push_bit 1 n) i \<longleftrightarrow> i < LENGTH('a) \<and> 0 < i \<and> bit n (i - 1)"
    unfolding bit_push_bit_iff by (auto dest: bit_imp_le_length)
  have s: "bit (signed_drop_bit m n) i \<longleftrightarrow> i < LENGTH('a) \<and> bit n (LENGTH('a) - 1)"
    using assms by (cases i) (auto simp: bit_signed_drop_bit_iff dest: bit_imp_le_length)
  show ?thesis
    unfolding bit_xor_iff p s by blast
qed

lemma unzigzag_bits:
  fixes n :: "'a::len word"
  shows "bit (drop_bit 1 n XOR - (n AND 1)) i \<longleftrightarrow> i < LENGTH('a) \<and> ((Suc i < LENGTH('a) \<and> bit n (Suc i)) \<noteq> bit n 0)"
proof -
  have "n AND 1 = of_bool (bit n 0)"
    by (rule bit_word_eqI) (auto simp: bit_simps)
  then have m: "bit (- (n AND 1)) i \<longleftrightarrow> i < LENGTH('a) \<and> bit n 0"
    by (simp add: bit_simps)
  have d: "bit (drop_bit 1 n) i \<longleftrightarrow> Suc i < LENGTH('a) \<and> bit n (Suc i)"
    unfolding bit_drop_bit_eq by (auto dest: bit_imp_le_length)
  show ?thesis
    unfolding bit_xor_iff m d by (auto)
qed

lemma ZigZag_bits:
  "bit (ZigZagEncode32 n) i \<longleftrightarrow> i < 32 \<and> ((0 < i \<and> bit n (i - 1)) \<noteq> bit n 31)"
  "bit (ZigZagDecode32 n) i \<longleftrightarrow> i < 32 \<and> ((Suc i < 32 \<and> bit n (Suc i)) \<noteq> bit n 0)"
  "bit (ZigZagEncode64 v) i \<longleftrightarrow> i < 64 \<and> ((0 < i \<and> bit v (i - 1)) \<noteq> bit v 63)"
  "bit (ZigZagDecode64 v) i \<longleftrightarrow> i < 64 \<and> ((Suc i < 64 \<and> bit v (Suc i)) \<noteq> bit v 0)"
proof -
  show "bit (ZigZagEncode32 n) i \<longleftrightarrow> i < 32 \<and> ((0 < i \<and> bit n (i - 1)) \<noteq> bit n 31)"
    unfolding ZigZagEncode32_def using zigzag_bits [of 31 n i] by simp
  show "bit (ZigZagEncode64 v) i \<longleftrightarrow> i < 64 \<and> ((0 < i \<and> bit v (i - 1)) \<noteq> bit v 63)"
    unfolding ZigZagEncode64_def using zigzag_bits [of 63 v i] by simp
  show "bit (ZigZagDecode32 n) i \<longleftrightarrow> i < 32 \<and> ((Suc i < 32 \<and> bit n (Suc i)) \<noteq> bit n 0)"
    unfolding ZigZagDecode32_def using unzigzag_bits [of n i] by simp
  show "bit (ZigZagDecode64 v) i \<longleftrightarrow> i < 64 \<and> ((Suc i < 64 \<and> bit v (Suc i)) \<noteq> bit v 0)"
    unfolding ZigZagDecode64_def using unzigzag_bits [of v i] by simp
qed

lemma ZigZag_inverse:
  "ZigZagDecode32 (ZigZagEncode32 n) = n" "ZigZagEncode32 (ZigZagDecode32 e) = e"
  "ZigZagDecode64 (ZigZagEncode64 v) = v" "ZigZagEncode64 (ZigZagDecode64 w) = w"
proof -
  have "bit (ZigZagDecode32 (ZigZagEncode32 n)) i = bit n i" if "i < 32" for i
    using that by (cases "i = 31") (auto simp: ZigZag_bits)
  then show "ZigZagDecode32 (ZigZagEncode32 n) = n"
    by (intro bit_word_eqI) simp
  have "bit (ZigZagEncode32 (ZigZagDecode32 e)) i = bit e i" if "i < 32" for i
    using that by (cases i) (auto simp: ZigZag_bits)
  then show "ZigZagEncode32 (ZigZagDecode32 e) = e"
    by (intro bit_word_eqI) simp
  have "bit (ZigZagDecode64 (ZigZagEncode64 v)) i = bit v i" if "i < 64" for i
    using that by (cases "i = 63") (auto simp: ZigZag_bits)
  then show "ZigZagDecode64 (ZigZagEncode64 v) = v"
    by (intro bit_word_eqI) simp
  have "bit (ZigZagEncode64 (ZigZagDecode64 w)) i = bit w i" if "i < 64" for i
    using that by (cases i) (auto simp: ZigZag_bits)
  then show "ZigZagEncode64 (ZigZagDecode64 w) = w"
    by (intro bit_word_eqI) simp
qed

lemma zigzag_value:
  fixes n e :: "'a::len word"
  assumes e: "\<And>i. bit e i \<longleftrightarrow> i < LENGTH('a) \<and> ((0 < i \<and> bit n (i - 1)) \<noteq> bit n (LENGTH('a) - 1))"
  shows "uint e = (if 0 \<le> sint n then 2 * sint n else - 2 * sint n - 1)"
proof -
  have p: "bit (push_bit 1 n) i \<longleftrightarrow> i < LENGTH('a) \<and> 0 < i \<and> bit n (i - 1)" for i
    unfolding bit_push_bit_iff by (auto dest: bit_imp_le_length)
  have sgn: "bit n (LENGTH('a) - 1) \<longleftrightarrow> sint n < 0"
    by (simp add: bit_last_iff)
  have e': "e = (if sint n < 0 then NOT (push_bit 1 n) else push_bit 1 n)"
    by (rule bit_word_eqI) (auto simp only: e p sgn bit_not_iff possible_bit_word split: if_splits)
  have n2: "push_bit 1 n = of_int (2 * sint n)"
    by (simp add: push_bit_eq_mult)
  let ?v = "if 0 \<le> sint n then 2 * sint n else - 2 * sint n - 1"
  have ev: "e = of_int ?v"
    unfolding e' n2 not_eq_complement by simp
  have r: "- (2 ^ (LENGTH('a) - 1)) \<le> sint n" "sint n < 2 ^ (LENGTH('a) - 1)"
    by (rule sint_ge, rule sint_lt)
  have "(2 :: int) ^ LENGTH('a) = 2 * 2 ^ (LENGTH('a) - 1)"
    by (metis len_gt_0 power_minus_mult mult.commute)
  then have "0 \<le> ?v" "?v < 2 ^ LENGTH('a)"
    using r by auto
  then show ?thesis
    unfolding ev by (simp add: uint_word_of_int_eq take_bit_int_eq_self)
qed

lemma ZigZag_value:
  "uint (ZigZagEncode32 n) = (if 0 \<le> sint n then 2 * sint n else - 2 * sint n - 1)"
  "uint (ZigZagEncode64 v) = (if 0 \<le> sint v then 2 * sint v else - 2 * sint v - 1)"
  by (rule zigzag_value; simp add: ZigZag_bits)+

end
