(* ===== verification/Wire_Fields.thy ===== *)
theory Wire_Fields
  imports Wire_Format
begin

text \<open>
  Fields of every scalar declared type on the wire: the writers to a stream and the writers through a
  pointer produce the same bytes, the size functions give their number, and the readers of the same declared
  type read the same value back.
\<close>

unbundle bit_operations_syntax

section \<open>Fields\<close>

datatype field_value =
    VDouble float64
  | VFloat float32
  | VInt64 int64
  | VUInt64 uint64
  | VInt32 int32
  | VFixed64 uint64
  | VFixed32 uint32
  | VBool bool
  | VUInt32 uint32
  | VEnum int32
  | VSFixed32 int32
  | VSFixed64 int64
  | VSInt32 int32
  | VSInt64 int64
  | VString "byte list"
  | VBytes "byte list"

primrec field_type :: "field_value \<Rightarrow> FieldType" where
  "field_type (VDouble v) = TYPE_DOUBLE"
| "field_type (VFloat v) = TYPE_FLOAT"
| "field_type (VInt64 v) = TYPE_INT64"
| "field_type (VUInt64 v) = TYPE_UINT64"
| "field_type (VInt32 v) = TYPE_INT32"
| "field_type (VFixed64 v) = TYPE_FIXED64"
| "field_type (VFixed32 v) = TYPE_FIXED32"
| "field_type (VBool v) = TYPE_BOOL"
| "field_type (VUInt32 v) = TYPE_UINT32"
| "field_type (VEnum v) = TYPE_ENUM"
| "field_type (VSFixed32 v) = TYPE_SFIXED32"
| "field_type (VSFixed64 v) = TYPE_SFIXED64"
| "field_type (VSInt32 v) = TYPE_SINT32"
| "field_type (VSInt64 v) = TYPE_SINT64"
| "field_type (VString v) = TYPE_STRING"
| "field_type (VBytes v) = TYPE_BYTES"

text \<open>The calls that write a field, as the code generated for its declared type makes them.\<close>

primrec write_field ::
    "'s zero_copy_output \<Rightarrow> int32 \<Rightarrow> field_value \<Rightarrow> 's CodedOutputStream \<Rightarrow> 's CodedOutputStream result" where
  "write_field ops n (VDouble v) c = WriteDouble ops n v c"
| "write_field ops n (VFloat v) c = WriteFloat ops n v c"
| "write_field ops n (VInt64 v) c = WriteInt64 ops n v c"
| "write_field ops n (VUInt64 v) c = WriteUInt64 ops n v c"
| "write_field ops n (VInt32 v) c = WriteInt32 ops n v c"
| "write_field ops n (VFixed64 v) c = WriteFixed64 ops n v c"
| "write_field ops n (VFixed32 v) c = WriteFixed32 ops n v c"
| "write_field ops n (VBool v) c = WriteBool ops n v c"
| "write_field ops n (VUInt32 v) c = WriteUInt32 ops n v c"
| "write_field ops n (VEnum v) c = WriteEnum ops n v c"
| "write_field ops n (VSFixed32 v) c = WriteSFixed32 ops n v c"
| "write_field ops n (VSFixed64 v) c = WriteSFixed64 ops n v c"
| "write_field ops n (VSInt32 v) c = WriteSInt32 ops n v c"
| "write_field ops n (VSInt64 v) c = WriteSInt64 ops n v c"
| "write_field ops n (VString v) c = WireFormatLite_WriteString ops n v c"
| "write_field ops n (VBytes v) c = WriteBytes ops n v c"

primrec write_field_array :: "int32 \<Rightarrow> field_value \<Rightarrow> byte list result" where
  "write_field_array n (VDouble v) = Inr (WriteDoubleToArray n v)"
| "write_field_array n (VFloat v) = Inr (WriteFloatToArray n v)"
| "write_field_array n (VInt64 v) = Inr (WriteInt64ToArray n v)"
| "write_field_array n (VUInt64 v) = Inr (WriteUInt64ToArray n v)"
| "write_field_array n (VInt32 v) = Inr (WriteInt32ToArray n v)"
| "write_field_array n (VFixed64 v) = Inr (WriteFixed64ToArray n v)"
| "write_field_array n (VFixed32 v) = Inr (WriteFixed32ToArray n v)"
| "write_field_array n (VBool v) = Inr (WriteBoolToArray n v)"
| "write_field_array n (VUInt32 v) = Inr (WriteUInt32ToArray n v)"
| "write_field_array n (VEnum v) = Inr (WriteEnumToArray n v)"
| "write_field_array n (VSFixed32 v) = Inr (WriteSFixed32ToArray n v)"
| "write_field_array n (VSFixed64 v) = Inr (WriteSFixed64ToArray n v)"
| "write_field_array n (VSInt32 v) = Inr (WriteSInt32ToArray n v)"
| "write_field_array n (VSInt64 v) = Inr (WriteSInt64ToArray n v)"
| "write_field_array n (VString v) = WireFormatLite_WriteStringToArray n v"
| "write_field_array n (VBytes v) = WriteBytesToArray n v"

primrec value_size :: "field_value \<Rightarrow> int" where
  "value_size (VDouble v) = int (kDoubleSize)"
| "value_size (VFloat v) = int (kFloatSize)"
| "value_size (VInt64 v) = int (Int64Size v)"
| "value_size (VUInt64 v) = int (UInt64Size v)"
| "value_size (VInt32 v) = int (Int32Size v)"
| "value_size (VFixed64 v) = int (kFixed64Size)"
| "value_size (VFixed32 v) = int (kFixed32Size)"
| "value_size (VBool v) = int (kBoolSize)"
| "value_size (VUInt32 v) = int (UInt32Size v)"
| "value_size (VEnum v) = int (EnumSize v)"
| "value_size (VSFixed32 v) = int (kSFixed32Size)"
| "value_size (VSFixed64 v) = int (kSFixed64Size)"
| "value_size (VSInt32 v) = int (SInt32Size v)"
| "value_size (VSInt64 v) = int (SInt64Size v)"
| "value_size (VString v) = sint (StringSize v)"
| "value_size (VBytes v) = sint (BytesSize v)"

definition field_size :: "int32 \<Rightarrow> field_value \<Rightarrow> int" where
  "field_size n v = int (TagSize n (field_type v)) + value_size v"

text \<open>The reader for a declared type; groups and messages have none here.\<close>

primrec read_value ::
    "'s zero_copy_input \<Rightarrow> endian \<Rightarrow> FieldType \<Rightarrow> 's CodedInputStream \<Rightarrow> (field_value option \<times> 's CodedInputStream) result" where
  "read_value ops host TYPE_DOUBLE c = map_read VDouble (ReadPrimitive_DOUBLE ops host c)"
| "read_value ops host TYPE_FLOAT c = map_read VFloat (ReadPrimitive_FLOAT ops host c)"
| "read_value ops host TYPE_INT64 c = map_read VInt64 (ReadPrimitive_INT64 ops c)"
| "read_value ops host TYPE_UINT64 c = map_read VUInt64 (ReadPrimitive_UINT64 ops c)"
| "read_value ops host TYPE_INT32 c = map_read VInt32 (ReadPrimitive_INT32 ops c)"
| "read_value ops host TYPE_FIXED64 c = map_read VFixed64 (ReadPrimitive_FIXED64 ops host c)"
| "read_value ops host TYPE_FIXED32 c = map_read VFixed32 (ReadPrimitive_FIXED32 ops host c)"
| "read_value ops host TYPE_BOOL c = map_read VBool (ReadPrimitive_BOOL ops c)"
| "read_value ops host TYPE_UINT32 c = map_read VUInt32 (ReadPrimitive_UINT32 ops c)"
| "read_value ops host TYPE_ENUM c = map_read VEnum (ReadPrimitive_ENUM ops c)"
| "read_value ops host TYPE_SFIXED32 c = map_read VSFixed32 (ReadPrimitive_SFIXED32 ops host c)"
| "read_value ops host TYPE_SFIXED64 c = map_read VSFixed64 (ReadPrimitive_SFIXED64 ops host c)"
| "read_value ops host TYPE_SINT32 c = map_read VSInt32 (ReadPrimitive_SINT32 ops c)"
| "read_value ops host TYPE_SINT64 c = map_read VSInt64 (ReadPrimitive_SINT64 ops c)"
| "read_value ops host TYPE_STRING c =
     rbind (WireFormatLite_ReadString ops [] c) (\<lambda>(b, v, c). Inr (if b then Some (VString v) else None, c))"
| "read_value ops host TYPE_BYTES c =
     rbind (WireFormatLite_ReadBytes ops [] c) (\<lambda>(b, v, c). Inr (if b then Some (VBytes v) else None, c))"
| "read_value ops host TYPE_GROUP c = Inr (None, c)"
| "read_value ops host TYPE_MESSAGE c = Inr (None, c)"

primrec write_fields ::
    "'s zero_copy_output \<Rightarrow> (int32 \<times> field_value) list \<Rightarrow> 's CodedOutputStream \<Rightarrow> 's CodedOutputStream result" where
  "write_fields ops [] c = Inr c"
| "write_fields ops (f # fs) c = rbind (write_field ops (fst f) (snd f) c) (write_fields ops fs)"

text \<open>Tags are read first; the declared types are those of the fields expected.\<close>

primrec read_fields ::
    "'s zero_copy_input \<Rightarrow> endian \<Rightarrow> FieldType list \<Rightarrow> 's CodedInputStream \<Rightarrow>
      ((uint32 \<times> field_value option) list \<times> 's CodedInputStream) result" where
  "read_fields ops host [] c = Inr ([], c)"
| "read_fields ops host (t # ts) c =
     rbind (ReadTag ops c) (\<lambda>(tag, c).
     rbind (read_value ops host t c) (\<lambda>(v, c).
     rbind (read_fields ops host ts c) (\<lambda>(rs, c). Inr ((tag, v) # rs, c))))"

section \<open>Fields as items\<close>

primrec value_items :: "field_value \<Rightarrow> wire_item list" where
  "value_items (VDouble v) = [Fixed64 (EncodeDouble v)]"
| "value_items (VFloat v) = [Fixed32 (EncodeFloat v)]"
| "value_items (VInt64 v) = [Varint64 v]"
| "value_items (VUInt64 v) = [Varint64 v]"
| "value_items (VInt32 v) = [Int32 v]"
| "value_items (VFixed64 v) = [Fixed64 v]"
| "value_items (VFixed32 v) = [Fixed32 v]"
| "value_items (VBool v) = [Varint32 (if v then 1 else 0)]"
| "value_items (VUInt32 v) = [Varint32 v]"
| "value_items (VEnum v) = [Int32 v]"
| "value_items (VSFixed32 v) = [Fixed32 v]"
| "value_items (VSFixed64 v) = [Fixed64 v]"
| "value_items (VSInt32 v) = [Varint32 (ZigZagEncode32 v)]"
| "value_items (VSInt64 v) = [Varint64 (ZigZagEncode64 v)]"
| "value_items (VString v) = [Varint32 (of_nat (length v)), Raw v]"
| "value_items (VBytes v) = [Varint32 (of_nat (length v)), Raw v]"

definition field_tag :: "int32 \<Rightarrow> field_value \<Rightarrow> uint32" where
  "field_tag n v = MakeTag n (WireTypeForFieldType (field_type v))"

definition field_items :: "int32 \<Rightarrow> field_value \<Rightarrow> wire_item list" where
  "field_items n v = Tag (field_tag n v) # value_items v"

definition field_bytes :: "int32 \<Rightarrow> field_value \<Rightarrow> byte list" where
  "field_bytes n v = concat (map encode (field_items n v))"

text \<open>Strings whose length with its prefix is an \<^verbatim>\<open>int\<close>.\<close>

primrec value_ok :: "field_value \<Rightarrow> bool" where
  "value_ok (VDouble v) = True"
| "value_ok (VFloat v) = True"
| "value_ok (VInt64 v) = True"
| "value_ok (VUInt64 v) = True"
| "value_ok (VInt32 v) = True"
| "value_ok (VFixed64 v) = True"
| "value_ok (VFixed32 v) = True"
| "value_ok (VBool v) = True"
| "value_ok (VUInt32 v) = True"
| "value_ok (VEnum v) = True"
| "value_ok (VSFixed32 v) = True"
| "value_ok (VSFixed64 v) = True"
| "value_ok (VSInt32 v) = True"
| "value_ok (VSInt64 v) = True"
| "value_ok (VString v) = (int (length v) + 5 \<le> INT_MAX)"
| "value_ok (VBytes v) = (int (length v) + 5 \<le> INT_MAX)"

lemmas write_value_defs =
  WriteDouble_def WriteFloat_def WriteInt64_def WriteUInt64_def WriteInt32_def WriteFixed64_def
  WriteFixed32_def WriteBool_def WriteUInt32_def WriteEnum_def WriteSFixed32_def WriteSFixed64_def
  WriteSInt32_def WriteSInt64_def WriteDoubleNoTag_def WriteFloatNoTag_def WriteInt64NoTag_def
  WriteUInt64NoTag_def WriteInt32NoTag_def WriteFixed64NoTag_def WriteFixed32NoTag_def
  WriteBoolNoTag_def WriteUInt32NoTag_def WriteEnumNoTag_def WriteSFixed32NoTag_def
  WriteSFixed64NoTag_def WriteSInt32NoTag_def WriteSInt64NoTag_def WireFormatLite_WriteTag_def
  WireFormatLite_WriteString_def WriteBytes_def WriteString_def

lemmas write_array_defs =
  WriteDoubleToArray_def WriteFloatToArray_def WriteInt64ToArray_def WriteUInt64ToArray_def
  WriteInt32ToArray_def WriteFixed64ToArray_def WriteFixed32ToArray_def WriteBoolToArray_def
  WriteUInt32ToArray_def WriteEnumToArray_def WriteSFixed32ToArray_def WriteSFixed64ToArray_def
  WriteSInt32ToArray_def WriteSInt64ToArray_def WriteDoubleNoTagToArray_def
  WriteFloatNoTagToArray_def WriteInt64NoTagToArray_def WriteUInt64NoTagToArray_def
  WriteInt32NoTagToArray_def WriteFixed64NoTagToArray_def WriteFixed32NoTagToArray_def
  WriteBoolNoTagToArray_def WriteUInt32NoTagToArray_def WriteEnumNoTagToArray_def
  WriteSFixed32NoTagToArray_def WriteSFixed64NoTagToArray_def WriteSInt32NoTagToArray_def
  WriteSInt64NoTagToArray_def WireFormatLite_WriteTagToArray_def
  WireFormatLite_WriteStringToArray_def WriteBytesToArray_def WriteStringWithSizeToArray_def
  WriteStringToArray_def WriteRawToArray_def

lemmas value_size_defs =
  Int32Size_def Int64Size_def UInt32Size_def UInt64Size_def SInt32Size_def SInt64Size_def
  EnumSize_def kFixed32Size_def kFixed64Size_def kSFixed32Size_def kSFixed64Size_def kFloatSize_def
  kDoubleSize_def kBoolSize_def StringSize_def BytesSize_def

lemmas read_primitive_defs =
  ReadPrimitive_DOUBLE_def ReadPrimitive_FLOAT_def ReadPrimitive_INT64_def ReadPrimitive_UINT64_def
  ReadPrimitive_INT32_def ReadPrimitive_FIXED64_def ReadPrimitive_FIXED32_def ReadPrimitive_BOOL_def
  ReadPrimitive_UINT32_def ReadPrimitive_ENUM_def ReadPrimitive_SFIXED32_def
  ReadPrimitive_SFIXED64_def ReadPrimitive_SINT32_def ReadPrimitive_SINT64_def
 

lemma map_read_Inr [simp]: "map_read f (Inr (r, c)) = Inr (map_option f r, c)"
  by (simp add: map_read_def)

lemmas loop_encoders =
  WriteTag_loop WriteVarint32ToArray_loop WriteVarint64ToArray_loop WriteVarint32SignExtended_loop
  WriteLittleEndian32ToArray_bytes WriteLittleEndian64ToArray_bytes

lemma write_field_items:
  assumes "value_ok v"
  shows "write_field ops n v c = put_items ops (field_items n v) c"
  using assms by (cases v) (simp_all add: write_value_defs field_items_def field_tag_def INT_MAX_def cong: rbind_cong)

lemma write_field_array_bytes:
  assumes "value_ok v"
  shows "write_field_array n v = Inr (field_bytes n v)"
  using assms
  by (cases v) (simp_all add: write_array_defs field_bytes_def field_items_def field_tag_def INT_MAX_def loop_encoders)

text \<open>The wire type does not change the size of a tag.\<close>

lemma unat_MakeTag: "unat (MakeTag n t) = unat (push_bit 3 n :: uint32) + unat (wire_type_value t)"
proof -
  have "push_bit 3 n AND wire_type_value t = 0"
    by (rule bit_word_eqI) (auto simp: bit_simps dest: bit_wire_type)
  then have "unat (push_bit 3 n) AND unat (wire_type_value t) = 0"
    by (metis unsigned_and_eq unsigned_0)
  then have "unat (push_bit 3 n) OR unat (wire_type_value t) = unat (push_bit 3 n) + unat (wire_type_value t)"
    by (simp add: disjunctive_add_eq_or)
  then show ?thesis
    by (simp add: MakeTag_def kTagTypeBits_def unsigned_or_eq)
qed

lemma TagSize_tag: "VarintSize32 (push_bit kTagTypeBits n) = length (varint_loop (MakeTag n t))"
proof -
  have w: "unat (wire_type_value t) < 8"
    using wire_type_value_less [of t] by (simp add: word_less_nat_alt)
  have "8 dvd unat (push_bit 3 n :: uint32)"
    unfolding unsigned_push_bit_eq by (simp add: push_bit_eq_mult take_bit_eq_mod dvd_mod)
  then obtain q where q: "unat (push_bit 3 n :: uint32) = 8 * q"
    by (elim dvdE)
  have "8 * q < m * 8 \<longleftrightarrow> 8 * q + unat (wire_type_value t) < m * 8" for m
    using w by auto
  from this [of "2 ^ 4"] this [of "2 ^ 11"] this [of "2 ^ 18"] this [of "2 ^ 25"] show ?thesis
    unfolding VarintSize32_length [symmetric] 
    by (simp add: VarintSize32_def VarintSize32Fallback_def word_less_nat_alt unat_MakeTag q kTagTypeBits_def)
qed

lemma TagSize_field: "TagSize n (field_type v) = length (varint_loop (field_tag n v))"
  using TagSize_tag [of n] by (cases v) (simp_all add: TagSize_def field_tag_def)

lemma sint_small: "int k \<le> INT_MAX \<Longrightarrow> sint (of_nat k :: int32) = int k"
  by (simp add: INT_MAX_def signed_of_nat signed_take_bit_int_eq_self)

lemma string_size:
  assumes "int (length v) + 5 \<le> INT_MAX"
  shows "sint (StringSize v) = int (length (varint_loop (of_nat (length v) :: uint32)) + length v)"
    and "sint (BytesSize v) = int (length (varint_loop (of_nat (length v) :: uint32)) + length v)"
  using assms length_varint_loop_max(2) [of "of_nat (length v)"] unfolding StringSize_def BytesSize_def VarintSize32_length
  by (subst sint_small; simp)+

lemma value_size_bytes: "value_ok v \<Longrightarrow> value_size v = int (length (concat (map encode (value_items v))))"
proof (cases v)
  case (VBool b)
  have "length (varint_loop (0 :: uint32)) = 1" "length (varint_loop (1 :: uint32)) = 1"
    by (simp_all add: varint_loop.simps)
  with VBool show ?thesis
    by (simp add: kBoolSize_def)
next
  case (VString s)
  then show "value_ok v \<Longrightarrow> ?thesis"
    by (simp add: string_size)
next
  case (VBytes s)
  then show "value_ok v \<Longrightarrow> ?thesis"
    by (simp add: string_size)
qed (simp_all add: value_size_defs VarintSize32_length VarintSize64_length VarintSize32SignExtended_length)

lemma field_size_bytes: "value_ok v \<Longrightarrow> field_size n v = int (length (field_bytes n v))"
  by (simp add: field_size_def field_bytes_def field_items_def TagSize_field value_size_bytes)

section \<open>Reading back\<close>

lemma Decode_Encode: "DecodeFloat (EncodeFloat f) = f" "DecodeDouble (EncodeDouble d) = d"
  by (cases f; simp add: DecodeFloat_def) (cases d; simp add: DecodeDouble_def)

context zero_copy_source
begin

lemma read_varint_loop:
  fixes w :: "'w::len word"
  assumes c: "coded_ok ok lastb c" and a: "avail bytes lastb c = varint_loop w @ ys"
    and w: "7 < LENGTH('w)" "length (varint_loop w) \<le> 10"
  shows "\<exists>c'. ReadVarint32 ops c = Inr (Some (ucast w), c') \<and> advanced ok bytes lastb (length (varint_loop w)) c c'"
    and "\<exists>c'. ReadVarint64 ops c = Inr (Some (ucast w), c') \<and> advanced ok bytes lastb (length (varint_loop w)) c c'"
proof -
  obtain r c' where r: "ReadVarint32 ops c = Inr (r, c')" "reads_varint ok bytes lastb c r c'"
    using ReadVarint32_law [OF c] by blast
  then show "\<exists>c'. ReadVarint32 ops c = Inr (Some (ucast w), c') \<and> advanced ok bytes lastb (length (varint_loop w)) c c'"
    unfolding reads_varint_def Let_def a varint_result_loop [OF w] by simp
  obtain r c' where r: "ReadVarint64 ops c = Inr (r, c')" "reads_varint ok bytes lastb c r c'"
    using ReadVarint64_law [OF c] by blast
  then show "\<exists>c'. ReadVarint64 ops c = Inr (Some (ucast w), c') \<and> advanced ok bytes lastb (length (varint_loop w)) c c'"
    unfolding reads_varint_def Let_def a varint_result_loop [OF w] by simp
qed

lemmas read_varint_loops =
  read_varint_loop [where 'w = 32, simplified, OF _ _ le_trans [OF length_varint_loop_max(2)]]
  read_varint_loop [where 'w = 64, simplified, OF _ _ length_varint_loop_max(1)]

lemma read_fixed:
  assumes c: "coded_ok ok lastb c"
  shows "avail bytes lastb c = le_bytes 4 v @ ys \<Longrightarrow>
      \<exists>c'. ReadLittleEndian32 ops host c = Inr (Some v, c') \<and> advanced ok bytes lastb 4 c c'"
    and "avail bytes lastb c = le_bytes 8 w @ ys \<Longrightarrow>
      \<exists>c'. ReadLittleEndian64 ops host c = Inr (Some w, c') \<and> advanced ok bytes lastb 8 c c'"
  using ReadLittleEndian32_law [OF c, of host] ReadLittleEndian64_law [OF c, of host] by (auto simp: le_word_le_bytes)

lemma read_sized_string:
  assumes c: "coded_ok ok lastb c" and n: "int (length s) \<le> INT_MAX"
    and a: "avail bytes lastb c = varint_loop (of_nat (length s) :: uint32) @ s @ ys"
  defines "k \<equiv> length (varint_loop (of_nat (length s) :: uint32)) + length s"
  shows "\<exists>c'. WireFormatLite_ReadString ops buf c = Inr (True, s, c') \<and> advanced ok bytes lastb k c c'"
    and "\<exists>c'. WireFormatLite_ReadBytes ops buf c = Inr (True, s, c') \<and> advanced ok bytes lastb k c c'"
proof -
  obtain c1 where c1: "ReadVarint32 ops c = Inr (Some (of_nat (length s)), c1)"
    "advanced ok bytes lastb (length (varint_loop (of_nat (length s) :: uint32))) c c1"
    using read_varint_loops(1) [OF c a] by auto
  have a1: "avail bytes lastb c1 = s @ ys"
    using advanced_avail [OF c1(2)] a by simp
  obtain c2 where "ReadString ops buf (int (length s)) c1 = Inr (True, s, c2)" "advanced ok bytes lastb (length s) c1 c2"
    using ReadString_law [OF advanced_ok [OF c1(2)], of "int (length s)" buf] a1 by auto
  then have c2: "InternalReadStringInline ops buf (int (length s)) c1 = Inr (True, s, c2)" "advanced ok bytes lastb k c c2"
    using advanced_trans [OF c1(2)] by (simp_all add: ReadString_def k_def)
  show "\<exists>c'. WireFormatLite_ReadString ops buf c = Inr (True, s, c') \<and> advanced ok bytes lastb k c c'"
    and "\<exists>c'. WireFormatLite_ReadBytes ops buf c = Inr (True, s, c') \<and> advanced ok bytes lastb k c c'"
    using c1(1) c2 sint_small [OF n] by (simp_all add: WireFormatLite_ReadString_def WireFormatLite_ReadBytes_def)
qed

lemma read_value_law:
  assumes c: "coded_ok ok lastb c" and v: "value_ok v"
    and a: "avail bytes lastb c = concat (map encode (value_items v)) @ ys"
  shows "\<exists>c'. read_value ops host (field_type v) c = Inr (Some v, c') \<and>
      advanced ok bytes lastb (length (concat (map encode (value_items v)))) c c'"
proof (cases "field_type v \<in> {TYPE_STRING, TYPE_BYTES}")
  case True
  then obtain s where s: "v = VString s \<or> v = VBytes s"
    by (cases v) simp_all
  show ?thesis
    using s v a read_sized_string [OF c, of s ys "[]"] by (auto simp: INT_MAX_def)
next
  case False
  then show ?thesis
    using a by (cases v) (auto simp: read_primitive_defs ucast_scast ZigZag_inverse Decode_Encode
        dest: read_fixed [OF c, where host = host] read_varint_loops(1,2) [OF c] read_varint_loops(3,4) [OF c])
qed

lemma read_tag_loop:
  assumes c: "coded_ok ok lastb c" and a: "avail bytes lastb c = varint_loop (t :: uint32) @ ys"
  shows "\<exists>c'. ReadTag ops c = Inr (t, c') \<and> ci_last_tag c' = t \<and> advanced ok bytes lastb (length (varint_loop t)) c c'"
proof -
  obtain tag c' where r: "ReadTag ops c = Inr (tag, c')" "reads_tag ok bytes lastb c tag c'" "ci_last_tag c' = tag"
    using ReadTag_law [OF c] by blast
  have ne: "avail bytes lastb c \<noteq> []"
    unfolding a by (subst varint_loop.simps) simp
  have v: "varint_result (avail bytes lastb c) = Some (t, length (varint_loop t))"
    unfolding a by (simp add: varint_result_loops)
  from r(2) ne have "tag = t" "reads_varint ok bytes lastb c (Some t) c'"
    unfolding reads_tag_def Let_def tag_of_def v by simp_all
  then show ?thesis
    using r unfolding reads_varint_def Let_def v by simp
qed

lemma read_fields_law:
  assumes "coded_ok ok lastb c" and "\<forall>f \<in> set fs. value_ok (snd f)"
    and "avail bytes lastb c = concat (map (\<lambda>f. field_bytes (fst f) (snd f)) fs) @ ys"
  shows "\<exists>c'. read_fields ops host (map (\<lambda>f. field_type (snd f)) fs) c =
      Inr (map (\<lambda>f. (field_tag (fst f) (snd f), Some (snd f))) fs, c') \<and> coded_ok ok lastb c' \<and> avail bytes lastb c' = ys"
  using assms
proof (induction fs arbitrary: c)
  case Nil
  then show ?case by simp
next
  case (Cons f fs)
  let ?V = "concat (map encode (value_items (snd f)))"
  let ?Y = "concat (map (\<lambda>f. field_bytes (fst f) (snd f)) fs) @ ys"
  have a: "avail bytes lastb c = varint_loop (field_tag (fst f) (snd f)) @ ?V @ ?Y"
    using Cons.prems(3) by (simp add: field_bytes_def field_items_def)
  obtain c1 where c1: "ReadTag ops c = Inr (field_tag (fst f) (snd f), c1)" "coded_ok ok lastb c1"
    "avail bytes lastb c1 = ?V @ ?Y"
    using read_tag_loop [OF Cons.prems(1) a] advanced_ok advanced_avail a by fastforce
  have "value_ok (snd f)"
    using Cons.prems(2) by simp
  from read_value_law [OF c1(2) this c1(3), of host]
  obtain c2 where c2: "read_value ops host (field_type (snd f)) c1 = Inr (Some (snd f), c2)"
    "coded_ok ok lastb c2" "avail bytes lastb c2 = ?Y"
    using advanced_ok advanced_avail c1(3) by fastforce
  show ?case
    using Cons.IH [OF c2(2) _ c2(3)] Cons.prems(2) c1(1) c2(1) by auto
qed

end

section \<open>The contract\<close>

lemma put_items_append: "put_items ops (xs @ ys) c = rbind (put_items ops xs c) (put_items ops ys)"
  by (induction xs arbitrary: c) (simp_all cong: rbind_cong)

lemma write_fields_items:
  "\<forall>f \<in> set fs. value_ok (snd f) \<Longrightarrow>
     write_fields ops fs c = put_items ops (concat (map (\<lambda>f. field_items (fst f) (snd f)) fs)) c"
  by (induction fs arbitrary: c) (simp_all add: write_field_items put_items_append cong: rbind_cong)

lemma fields_bytes:
  "concat (map encode (concat (map (\<lambda>f. field_items (fst f) (snd f)) fs))) =
     concat (map (\<lambda>f. field_bytes (fst f) (snd f)) fs)"
  by (induction fs) (simp_all add: field_bytes_def)

lemma fields_size:
  "\<forall>f \<in> set fs. value_ok (snd f) \<Longrightarrow>
     (\<Sum>f\<leftarrow>fs. field_size (fst f) (snd f)) = int (length (concat (map (\<lambda>f. field_bytes (fst f) (snd f)) fs)))"
  by (induction fs) (simp_all add: field_size_bytes)

lemma field_tag_parts:
  assumes "n < 2 ^ 29"
  shows "GetTagFieldNumber (field_tag n v) = n" and "GetTagWireType (field_tag n v) = WireTypeForFieldType (field_type v)"
proof -
  have "unat (take_bit 29 n) = unat n"
    using assms by (simp add: unsigned_take_bit_eq take_bit_nat_eq_self word_less_nat_alt)
  then have "take_bit 29 n = n"
    by (simp only: unsigned_word_eqI)
  then show "GetTagFieldNumber (field_tag n v) = n"
    by (simp add: field_tag_def GetTagFieldNumber_MakeTag)
qed (simp add: field_tag_def)

text \<open>
  C10. Fields of every scalar declared type, with field numbers below \<open>2 ^ 29\<close>, written to any output stream with room for the sum of
  their computed sizes, leave there exactly the bytes that the writers through a pointer produce, as many for each field as
  its size function says; and on any input stream that delivers these bytes, on a host of either byte order, reading a
  tag and a value of the declared type for each field gives the field number, the wire type and the value back, and
  nothing is left over.
\<close>

theorem wire_fields_round_trip:
  assumes "zero_copy_sink oops ook out held ogap cap" and "ook s"
    and "zero_copy_source iops iok bytes lastb igap"
    and "\<forall>f \<in> set fs. fst f < 2 ^ 29 \<and> value_ok (snd f)"
    and "int (length (out s)) + (\<Sum>f\<leftarrow>fs. field_size (fst f) (snd f)) \<le> int (cap s)"
    and "(\<Sum>f\<leftarrow>fs. field_size (fst f) (snd f)) \<le> 67108864"
  shows "\<exists>bs c0 c s'. list_all2 (\<lambda>f b. write_field_array (fst f) (snd f) = Inr b \<and>
        field_size (fst f) (snd f) = int (length b)) fs bs \<and>
    CodedOutputStream_ctor oops s = Inr c0 \<and> write_fields oops fs c0 = Inr c \<and> CodedOutputStream_dtor oops c = Inr s' \<and>
    out s' = out s @ concat bs \<and>
    (\<forall>t. iok t \<and> bytes t = concat bs \<longrightarrow>
      (\<exists>r rs r'. CodedInputStream_stream iops t = Inr r \<and>
         read_fields iops host (map (\<lambda>f. field_type (snd f)) fs) r = Inr (rs, r') \<and> avail bytes lastb r' = [] \<and>
         list_all2 (\<lambda>f (tag, v). GetTagFieldNumber tag = fst f \<and>
           GetTagWireType tag = WireTypeForFieldType (field_type (snd f)) \<and> v = Some (snd f)) fs rs))"
proof -
  let ?bs = "map (\<lambda>f. field_bytes (fst f) (snd f)) fs"
  let ?items = "concat (map (\<lambda>f. field_items (fst f) (snd f)) fs)"
  have ok: "\<forall>f \<in> set fs. value_ok (snd f)"
    using assms(4) by blast
  have len: "length (out s) + length (concat ?bs) \<le> cap s" "length (concat ?bs) \<le> 67108864"
    using assms(5,6) unfolding fields_size [OF ok] by linarith+
  obtain c0 where c0: "CodedOutputStream_ctor oops s = Inr c0" "writer_ok ook out held (length (out s)) c0"
    "written out c0 = out s" "\<not> co_had_error c0" "cap (co_output c0) = cap s"
    using zero_copy_sink.ctor_law [OF assms(1,2)] by blast
  obtain c where c: "write_fields oops fs c0 = Inr c" "writer_ok ook out held (length (out s)) c"
    "written out c = out s @ concat ?bs"
    using zero_copy_sink.put_items_law [OF assms(1) c0(2), of ?items] c0(3-5) len(1)
    unfolding fields_bytes write_fields_items [OF ok] by auto
  obtain s' where s': "CodedOutputStream_dtor oops c = Inr s'" "out s' = out s @ concat ?bs"
    using zero_copy_sink.dtor_law [OF assms(1) c(2)] c(3) by auto
  have arr: "list_all2 (\<lambda>f b. write_field_array (fst f) (snd f) = Inr b \<and> field_size (fst f) (snd f) = int (length b)) fs ?bs"
    using ok by (auto simp: list_all2_conv_all_nth write_field_array_bytes field_size_bytes)
  let ?rs = "map (\<lambda>f. (field_tag (fst f) (snd f), Some (snd f))) fs"
  have rs: "list_all2 (\<lambda>f (tag, v). GetTagFieldNumber tag = fst f \<and>
      GetTagWireType tag = WireTypeForFieldType (field_type (snd f)) \<and> v = Some (snd f)) fs ?rs"
    using assms(4) by (auto simp: list_all2_conv_all_nth field_tag_parts)
  have "\<exists>r r'. CodedInputStream_stream iops t = Inr r \<and>
      read_fields iops host (map (\<lambda>f. field_type (snd f)) fs) r = Inr (?rs, r') \<and> avail bytes lastb r' = []"
    if t: "iok t" "bytes t = concat ?bs" for t
  proof -
    obtain r where r: "CodedInputStream_stream iops t = Inr r" "coded_ok iok lastb r" "avail bytes lastb r = concat ?bs @ []"
      using zero_copy_source.stream_reader_ok [OF assms(3) t(1)] t(2) len(2) by auto
    then show ?thesis
      using zero_copy_source.read_fields_law [OF assms(3) r(2) ok r(3), of host] by blast
  qed
  then show ?thesis
    using c0(1) c(1) s' arr rs by blast
qed

theorem wire_fields_round_trip_witness:
  "let fs = [(1, VSInt32 (- 3)), (2, VString [104, 105]), (3, VBool True)];
       s = StringOutputStream_ctor \<lparr>str_data = [], str_capacity = 0\<rparr> in
   \<exists>c0 c s'. CodedOutputStream_ctor (string_output (\<lambda>_ n. n)) s = Inr c0 \<and>
     write_fields (string_output (\<lambda>_ n. n)) fs c0 = Inr c \<and>
     CodedOutputStream_dtor (string_output (\<lambda>_ n. n)) c = Inr s' \<and>
     string_out s' = [8, 5, 18, 2, 104, 105, 24, 1] \<and>
     (\<exists>r rs r'. CodedInputStream_stream array_input (ArrayInputStream_ctor (string_out s') 8 3) = Inr r \<and>
        read_fields array_input BigEndian [TYPE_SINT32, TYPE_STRING, TYPE_BOOL] r = Inr (rs, r') \<and>
        map snd rs = [Some (VSInt32 (- 3)), Some (VString [104, 105]), Some (VBool True)])"
proof -
  let ?fs = "[(1, VSInt32 (- 3)), (2, VString [104, 105]), (3, VBool True)] :: (int32 \<times> field_value) list"
  let ?s = "StringOutputStream_ctor \<lparr>str_data = [], str_capacity = 0\<rparr>"
  let ?bs = "[[8, 5], [18, 2, 104, 105], [24, 1]] :: byte list list"
  have ok: "string_out_ok (\<lambda>_ n. n) ?s" and out: "string_out ?s = []"
    by (simp_all add: string_out_ok_def StringOutputStream_ctor_def string_size_def string_out_def INT_MAX_def)
  have arr: "write_field_array 1 (VSInt32 (- 3)) = Inr [8, 5]" "write_field_array 2 (VString [104, 105]) = Inr [18, 2, 104, 105]"
    "write_field_array 3 (VBool True) = Inr [24, 1]"
    by (simp_all add: write_array_defs MakeTag_def kTagTypeBits_def WriteTagToArray_def WriteVarint32ToArray_def
        ZigZagEncode32_def)
  have fs: "\<forall>f \<in> set ?fs. fst f < 2 ^ 29 \<and> value_ok (snd f)"
    by (simp add: INT_MAX_def)
  have sz: "(\<Sum>f\<leftarrow>?fs. field_size (fst f) (snd f)) = 8"
    by code_simp
  have src: "array_ok (ArrayInputStream_ctor xs (int (length xs)) 3)" for xs
    by (rule array_ok_ctor) simp
  have room: "int (length (string_out ?s)) + (\<Sum>f\<leftarrow>?fs. field_size (fst f) (snd f)) \<le> int (nat (INT_MAX div 2 + 1))"
    "(\<Sum>f\<leftarrow>?fs. field_size (fst f) (snd f)) \<le> 67108864"
    unfolding out sz by (simp_all add: INT_MAX_def)
  obtain bs c0 c s' where w: "list_all2 (\<lambda>f b. write_field_array (fst f) (snd f) = Inr b \<and>
        field_size (fst f) (snd f) = int (length b)) ?fs bs"
    "CodedOutputStream_ctor (string_output (\<lambda>_ n. n)) ?s = Inr c0"
    "write_fields (string_output (\<lambda>_ n. n)) ?fs c0 = Inr c" "CodedOutputStream_dtor (string_output (\<lambda>_ n. n)) c = Inr s'"
    "string_out s' = string_out ?s @ concat bs"
    "\<And>t. array_ok t \<Longrightarrow> array_bytes t = concat bs \<Longrightarrow>
      \<exists>r rs r'. CodedInputStream_stream array_input t = Inr r \<and>
         read_fields array_input BigEndian (map (\<lambda>f. field_type (snd f)) ?fs) r = Inr (rs, r') \<and>
         avail array_bytes array_last r' = [] \<and>
         list_all2 (\<lambda>f (tag, v). GetTagFieldNumber tag = fst f \<and>
           GetTagWireType tag = WireTypeForFieldType (field_type (snd f)) \<and> v = Some (snd f)) ?fs rs"
    using wire_fields_round_trip [OF sout.zero_copy_sink_axioms ok arr.zero_copy_source_axioms fs room, of BigEndian]
    by blast
  have bs: "bs = ?bs"
    using w(1) arr by (simp add: list_all2_Cons1)
  have t: "CodedInputStream_stream array_input (ArrayInputStream_ctor (string_out s') 8 3) =
      CodedInputStream_stream array_input (ArrayInputStream_ctor (concat bs) (int (length (concat bs))) 3)"
    using w(5) bs out by simp
  obtain r rs r' where r: "CodedInputStream_stream array_input (ArrayInputStream_ctor (string_out s') 8 3) = Inr r"
    "read_fields array_input BigEndian (map (\<lambda>f. field_type (snd f)) ?fs) r = Inr (rs, r')"
    "list_all2 (\<lambda>f (tag, v). GetTagFieldNumber tag = fst f \<and>
       GetTagWireType tag = WireTypeForFieldType (field_type (snd f)) \<and> v = Some (snd f)) ?fs rs"
    unfolding t using w(6) [OF src array_bytes_ctor] by blast
  have "map snd rs = map (\<lambda>f. Some (snd f)) ?fs"
    using r(3) by (auto simp: list_all2_Cons1)
  moreover have "read_fields array_input BigEndian [TYPE_SINT32, TYPE_STRING, TYPE_BOOL] r = Inr (rs, r')"
    using r(2) by simp
  moreover have "string_out s' = [8, 5, 18, 2, 104, 105, 24, 1]"
    using w(5) out bs by simp
  ultimately show ?thesis
    using w(2-4) r(1) unfolding Let_def by (intro exI conjI) (assumption | simp)+
qed

end
