(* ===== verification/Wire_Skip.thy ===== *)
theory Wire_Skip
  imports Wire_Fields
begin

text \<open>
  Skipping unknown fields (\<^verbatim>\<open>SkipField\<close> and \<^verbatim>\<open>SkipMessage\<close> of \<^verbatim>\<open>google/protobuf/wire_format_lite.cc\<close>), in the
  version that drops them and in the version that saves them to an output stream, and the classes \<^verbatim>\<open>FieldSkipper\<close>
  and \<^verbatim>\<open>CodedOutputStreamFieldSkipper\<close>. The first argument of the recursive functions bounds the number of tags they
  may read; a bound above the number of available bytes is never reached.
\<close>

unbundle bit_operations_syntax

section \<open>Skipping\<close>

definition group_end_tag :: "uint32 \<Rightarrow> uint32" where
  "group_end_tag tag = MakeTag (GetTagFieldNumber tag) WIRETYPE_END_GROUP"

function (sequential) SkipField ::
    "nat \<Rightarrow> 's zero_copy_input \<Rightarrow> endian \<Rightarrow> uint32 \<Rightarrow> 's CodedInputStream \<Rightarrow> (bool \<times> 's CodedInputStream) result"
  and SkipMessage ::
    "nat \<Rightarrow> 's zero_copy_input \<Rightarrow> endian \<Rightarrow> 's CodedInputStream \<Rightarrow> (bool \<times> 's CodedInputStream) result"
where
  "SkipField n ops host tag c =
     (case GetTagWireType tag of
        WIRETYPE_VARINT \<Rightarrow> rbind (ReadVarint64 ops c) (\<lambda>(v, c). Inr (v \<noteq> None, c))
      | WIRETYPE_FIXED64 \<Rightarrow> rbind (ReadLittleEndian64 ops host c) (\<lambda>(v, c). Inr (v \<noteq> None, c))
      | WIRETYPE_LENGTH_DELIMITED \<Rightarrow>
          rbind (ReadVarint32 ops c) (\<lambda>(len, c).
            case len of
              None \<Rightarrow> Inr (False, c)
            | Some len \<Rightarrow> CodedInputStream_Skip ops (sint len) c)
      | WIRETYPE_START_GROUP \<Rightarrow>
          let (b, c) = IncrementRecursionDepth c in
          if \<not> b then Inr (False, c)
          else rbind (SkipMessage n ops host c) (\<lambda>(b, c).
            if \<not> b then Inr (False, c)
            else let c = DecrementRecursionDepth c in Inr (LastTagWas (group_end_tag tag) c, c))
      | WIRETYPE_END_GROUP \<Rightarrow> Inr (False, c)
      | WIRETYPE_FIXED32 \<Rightarrow> rbind (ReadLittleEndian32 ops host c) (\<lambda>(v, c). Inr (v \<noteq> None, c))
      | _ \<Rightarrow> Inr (False, c))"
| "SkipMessage 0 ops host c = Inl NonTermination"
| "SkipMessage (Suc n) ops host c =
     rbind (ReadTag ops c) (\<lambda>(tag, c).
       if tag = 0 then Inr (True, c)
       else if GetTagWireType tag = WIRETYPE_END_GROUP then Inr (True, c)
       else rbind (SkipField n ops host tag c) (\<lambda>(b, c).
         if \<not> b then Inr (False, c) else SkipMessage n ops host c))"
  by pat_completeness auto
termination
  by (relation "measure (\<lambda>x. case x of Inl (n, _) \<Rightarrow> 2 * n + 1 | Inr (n, _) \<Rightarrow> 2 * n)") auto

text \<open>The saving version writes what it reads, the tag first.\<close>

function (sequential) SkipField_out ::
    "nat \<Rightarrow> 's zero_copy_input \<Rightarrow> endian \<Rightarrow> 't zero_copy_output \<Rightarrow> uint32 \<Rightarrow> 's CodedInputStream \<Rightarrow> 't CodedOutputStream \<Rightarrow>
      (bool \<times> 's CodedInputStream \<times> 't CodedOutputStream) result"
  and SkipMessage_out ::
    "nat \<Rightarrow> 's zero_copy_input \<Rightarrow> endian \<Rightarrow> 't zero_copy_output \<Rightarrow> 's CodedInputStream \<Rightarrow> 't CodedOutputStream \<Rightarrow>
      (bool \<times> 's CodedInputStream \<times> 't CodedOutputStream) result"
where
  "SkipField_out n ops host oops tag c w =
     (case GetTagWireType tag of
        WIRETYPE_VARINT \<Rightarrow>
          rbind (ReadVarint64 ops c) (\<lambda>(v, c).
            case v of
              None \<Rightarrow> Inr (False, c, w)
            | Some v \<Rightarrow> rbind (WriteVarint32 oops tag w) (\<lambda>w. rbind (WriteVarint64 oops v w) (\<lambda>w. Inr (True, c, w))))
      | WIRETYPE_FIXED64 \<Rightarrow>
          rbind (ReadLittleEndian64 ops host c) (\<lambda>(v, c).
            case v of
              None \<Rightarrow> Inr (False, c, w)
            | Some v \<Rightarrow> rbind (WriteVarint32 oops tag w) (\<lambda>w. rbind (WriteLittleEndian64 oops v w) (\<lambda>w. Inr (True, c, w))))
      | WIRETYPE_LENGTH_DELIMITED \<Rightarrow>
          rbind (ReadVarint32 ops c) (\<lambda>(len, c).
            case len of
              None \<Rightarrow> Inr (False, c, w)
            | Some len \<Rightarrow>
                rbind (WriteVarint32 oops tag w) (\<lambda>w.
                rbind (WriteVarint32 oops len w) (\<lambda>w.
                rbind (ReadString ops [] (sint len) c) (\<lambda>(b, temp, c).
                  if \<not> b then Inr (False, c, w)
                  else rbind (WriteString oops temp w) (\<lambda>w. Inr (True, c, w))))))
      | WIRETYPE_START_GROUP \<Rightarrow>
          rbind (WriteVarint32 oops tag w) (\<lambda>w.
          let (b, c) = IncrementRecursionDepth c in
          if \<not> b then Inr (False, c, w)
          else rbind (SkipMessage_out n ops host oops c w) (\<lambda>(b, c, w).
            if \<not> b then Inr (False, c, w)
            else let c = DecrementRecursionDepth c in Inr (LastTagWas (group_end_tag tag) c, c, w)))
      | WIRETYPE_END_GROUP \<Rightarrow> Inr (False, c, w)
      | WIRETYPE_FIXED32 \<Rightarrow>
          rbind (ReadLittleEndian32 ops host c) (\<lambda>(v, c).
            case v of
              None \<Rightarrow> Inr (False, c, w)
            | Some v \<Rightarrow> rbind (WriteVarint32 oops tag w) (\<lambda>w. rbind (WriteLittleEndian32 oops v w) (\<lambda>w. Inr (True, c, w))))
      | _ \<Rightarrow> Inr (False, c, w))"
| "SkipMessage_out 0 ops host oops c w = Inl NonTermination"
| "SkipMessage_out (Suc n) ops host oops c w =
     rbind (ReadTag ops c) (\<lambda>(tag, c).
       if tag = 0 then Inr (True, c, w)
       else if GetTagWireType tag = WIRETYPE_END_GROUP then
         rbind (WriteVarint32 oops tag w) (\<lambda>w. Inr (True, c, w))
       else rbind (SkipField_out n ops host oops tag c w) (\<lambda>(b, c, w).
         if \<not> b then Inr (False, c, w) else SkipMessage_out n ops host oops c w))"
  by pat_completeness auto
termination
  by (relation "measure (\<lambda>x. case x of Inl (n, _) \<Rightarrow> 2 * n + 1 | Inr (n, _) \<Rightarrow> 2 * n)") auto

declare SkipField.simps [simp del] SkipMessage.simps [simp del] SkipField_out.simps [simp del] SkipMessage_out.simps [simp del]

text \<open>The skippers that an extension set is given.\<close>

definition FieldSkipper_SkipField ::
    "nat \<Rightarrow> 's zero_copy_input \<Rightarrow> endian \<Rightarrow> uint32 \<Rightarrow> 's CodedInputStream \<Rightarrow> (bool \<times> 's CodedInputStream) result" where
  "FieldSkipper_SkipField n ops host tag c = SkipField n ops host tag c"

definition FieldSkipper_SkipMessage ::
    "nat \<Rightarrow> 's zero_copy_input \<Rightarrow> endian \<Rightarrow> 's CodedInputStream \<Rightarrow> (bool \<times> 's CodedInputStream) result" where
  "FieldSkipper_SkipMessage n ops host c = SkipMessage n ops host c"

definition FieldSkipper_SkipUnknownEnum :: "int32 \<Rightarrow> int32 \<Rightarrow> unit" where
  "FieldSkipper_SkipUnknownEnum field_number v = ()"

record 't CodedOutputStreamFieldSkipper =
  unknown_fields :: "'t CodedOutputStream"

definition CodedOutputStreamFieldSkipper_SkipField ::
    "nat \<Rightarrow> 's zero_copy_input \<Rightarrow> endian \<Rightarrow> 't zero_copy_output \<Rightarrow> uint32 \<Rightarrow> 's CodedInputStream \<Rightarrow>
      't CodedOutputStreamFieldSkipper \<Rightarrow> (bool \<times> 's CodedInputStream \<times> 't CodedOutputStreamFieldSkipper) result" where
  "CodedOutputStreamFieldSkipper_SkipField n ops host oops tag c k =
     rbind (SkipField_out n ops host oops tag c (unknown_fields k)) (\<lambda>(b, c, w). Inr (b, c, k\<lparr>unknown_fields := w\<rparr>))"

definition CodedOutputStreamFieldSkipper_SkipMessage ::
    "nat \<Rightarrow> 's zero_copy_input \<Rightarrow> endian \<Rightarrow> 't zero_copy_output \<Rightarrow> 's CodedInputStream \<Rightarrow>
      't CodedOutputStreamFieldSkipper \<Rightarrow> (bool \<times> 's CodedInputStream \<times> 't CodedOutputStreamFieldSkipper) result" where
  "CodedOutputStreamFieldSkipper_SkipMessage n ops host oops c k =
     rbind (SkipMessage_out n ops host oops c (unknown_fields k)) (\<lambda>(b, c, w). Inr (b, c, k\<lparr>unknown_fields := w\<rparr>))"

text \<open>The value is converted to 64 bits with its sign; the field number is written as it is.\<close>

definition CodedOutputStreamFieldSkipper_SkipUnknownEnum ::
    "'t zero_copy_output \<Rightarrow> int32 \<Rightarrow> int32 \<Rightarrow> 't CodedOutputStreamFieldSkipper \<Rightarrow> 't CodedOutputStreamFieldSkipper result" where
  "CodedOutputStreamFieldSkipper_SkipUnknownEnum oops field_number v k =
     rbind (WriteVarint32 oops field_number (unknown_fields k)) (\<lambda>w.
     rbind (WriteVarint64 oops (scast v) w) (\<lambda>w. Inr (k\<lparr>unknown_fields := w\<rparr>)))"

section \<open>What a message is\<close>

text \<open>
  The fields that the skipping functions tell apart, and how a message ends: at the end of the available bytes, at
  the end tag of a group, or at bytes that are no tag.
\<close>

datatype unknown =
    UVarint uint32 uint64
  | UFixed64 uint32 uint64
  | UDelimited uint32 "byte list"
  | UGroup uint32 "unknown list"
  | UFixed32 uint32 uint32

datatype ending = At_end | At_tag uint32 | Bad_tag

primrec ending_tag :: "ending \<Rightarrow> uint32" where
  "ending_tag At_end = 0"
| "ending_tag (At_tag t) = t"
| "ending_tag Bad_tag = 0"

text \<open>
  \<open>parse_field d tag A u B\<close>: behind \<open>tag\<close>, the bytes \<open>A\<close> start with the field \<open>u\<close>, whose groups are nested at most \<open>d\<close> deep, and
  \<open>B\<close> is what follows.
\<close>

inductive parse_field :: "int \<Rightarrow> uint32 \<Rightarrow> byte list \<Rightarrow> unknown \<Rightarrow> byte list \<Rightarrow> bool"
  and parse_message :: "int \<Rightarrow> byte list \<Rightarrow> unknown list \<Rightarrow> ending \<Rightarrow> byte list \<Rightarrow> bool"
where
  parse_varint: "GetTagWireType tag = WIRETYPE_VARINT \<Longrightarrow> varint_result A = Some (v, k) \<Longrightarrow>
    parse_field d tag A (UVarint tag v) (drop k A)"
| parse_fixed64: "GetTagWireType tag = WIRETYPE_FIXED64 \<Longrightarrow> 8 \<le> length A \<Longrightarrow>
    parse_field d tag A (UFixed64 tag (le_word (take 8 A))) (drop 8 A)"
| parse_delimited: "GetTagWireType tag = WIRETYPE_LENGTH_DELIMITED \<Longrightarrow> varint_result A = Some (len :: uint32, k) \<Longrightarrow>
    0 \<le> sint len \<Longrightarrow> m = nat (sint len) \<Longrightarrow> k + m \<le> length A \<Longrightarrow>
    parse_field d tag A (UDelimited tag (take m (drop k A))) (drop (k + m) A)"
| parse_group: "GetTagWireType tag = WIRETYPE_START_GROUP \<Longrightarrow> 1 \<le> d \<Longrightarrow>
    parse_message (d - 1) A us (At_tag (group_end_tag tag)) B \<Longrightarrow> parse_field d tag A (UGroup tag us) B"
| parse_fixed32: "GetTagWireType tag = WIRETYPE_FIXED32 \<Longrightarrow> 4 \<le> length A \<Longrightarrow>
    parse_field d tag A (UFixed32 tag (le_word (take 4 A))) (drop 4 A)"
| parse_end: "parse_message d [] [] At_end []"
| parse_bad: "A \<noteq> [] \<Longrightarrow> tag_of A = 0 \<Longrightarrow> k \<le> length A \<Longrightarrow> parse_message d A [] Bad_tag (drop k A)"
| parse_end_tag: "varint_result A = Some (tag, k) \<Longrightarrow> GetTagWireType tag = WIRETYPE_END_GROUP \<Longrightarrow>
    parse_message d A [] (At_tag tag) (drop k A)"
| parse_next: "varint_result A = Some (tag, k) \<Longrightarrow> tag \<noteq> 0 \<Longrightarrow> parse_field d tag (drop k A) u B \<Longrightarrow>
    parse_message d B us e C \<Longrightarrow> parse_message d A (u # us) e C"

inductive_cases parse_field_cases: "parse_field d tag A u B"
inductive_cases parse_message_cases: "parse_message d A us e B"

text \<open>Fields as they are saved.\<close>

fun unknown_items :: "unknown \<Rightarrow> wire_item list" where
  "unknown_items (UVarint tag v) = [Varint32 tag, Varint64 v]"
| "unknown_items (UFixed64 tag v) = [Varint32 tag, Fixed64 v]"
| "unknown_items (UDelimited tag bs) = [Varint32 tag, Varint32 (of_nat (length bs)), Raw bs]"
| "unknown_items (UGroup tag us) = Varint32 tag # concat (map unknown_items us) @ [Varint32 (group_end_tag tag)]"
| "unknown_items (UFixed32 tag v) = [Varint32 tag, Fixed32 v]"

primrec ending_items :: "ending \<Rightarrow> wire_item list" where
  "ending_items At_end = []"
| "ending_items (At_tag tag) = [Varint32 tag]"
| "ending_items Bad_tag = []"

definition unknown_bytes :: "unknown list \<Rightarrow> byte list" where
  "unknown_bytes us = concat (map encode (concat (map unknown_items us)))"

section \<open>Messages parse in one way only\<close>

lemma GetTagWireType_0 [simp]: "GetTagWireType 0 = WIRETYPE_VARINT"
  by (simp add: GetTagWireType_def)

lemma varint_result_empty [simp]: "varint_result [] = None"
  by (simp add: varint_result_def kMaxVarintBytes_def numeral_eq_Suc)

lemma tag_of_Some: "varint_result A = Some (tag, k) \<Longrightarrow> tag_of A = tag"
  by (simp add: tag_of_def)

lemma parse_unique:
  "parse_field d tag A u B \<Longrightarrow> parse_field d tag A u' B' \<Longrightarrow> u' = u \<and> B' = B"
  "parse_message d A us e B \<Longrightarrow> parse_message d A us' e' B' \<Longrightarrow> us' = us \<and> e' = e \<and> (e \<noteq> Bad_tag \<longrightarrow> B' = B)"
proof (induction arbitrary: u' B' and us' e' B' rule: parse_field_parse_message.inducts)
  case (parse_group tag d A us B)
  from parse_group.prems parse_group.hyps(1) show ?case
    by (cases rule: parse_field_cases) (use parse_group.IH in auto)
next
  case (parse_end_tag A tag k d)
  from parse_end_tag.prems show ?case
    by (rule parse_message_cases) (use parse_end_tag.hyps in \<open>auto simp: tag_of_Some elim: parse_field_cases\<close>)
next
  case (parse_next A tag k d u B us e C)
  have "GetTagWireType tag \<noteq> WIRETYPE_END_GROUP"
    using parse_next.hyps(3) by (auto elim: parse_field_cases)
  with parse_next.prems parse_next.hyps(1,2) obtain u1 B1 us1 where
    "us' = u1 # us1" "parse_field d tag (drop k A) u1 B1" "parse_message d B1 us1 e' B'"
    by (auto simp: tag_of_Some elim: parse_message_cases)
  then show ?case
    using parse_next.IH(1) [of u1 B1] parse_next.IH(2) [of us1 e' B'] by auto
qed (auto simp: tag_of_Some elim: parse_field_cases parse_message_cases)

lemma parse_field_iff:
  "GetTagWireType tag = WIRETYPE_VARINT \<Longrightarrow>
     parse_field d tag A u B \<longleftrightarrow> (\<exists>v k. varint_result A = Some (v, k) \<and> u = UVarint tag v \<and> B = drop k A)"
  "GetTagWireType tag = WIRETYPE_FIXED64 \<Longrightarrow>
     parse_field d tag A u B \<longleftrightarrow> 8 \<le> length A \<and> u = UFixed64 tag (le_word (take 8 A)) \<and> B = drop 8 A"
  "GetTagWireType tag = WIRETYPE_LENGTH_DELIMITED \<Longrightarrow>
     parse_field d tag A u B \<longleftrightarrow> (\<exists>len k m. varint_result A = Some (len :: uint32, k) \<and> 0 \<le> sint len \<and> m = nat (sint len) \<and>
       k + m \<le> length A \<and> u = UDelimited tag (take m (drop k A)) \<and> B = drop (k + m) A)"
  "GetTagWireType tag = WIRETYPE_START_GROUP \<Longrightarrow>
     parse_field d tag A u B \<longleftrightarrow>
       1 \<le> d \<and> (\<exists>us. parse_message (d - 1) A us (At_tag (group_end_tag tag)) B \<and> u = UGroup tag us)"
  "GetTagWireType tag = WIRETYPE_FIXED32 \<Longrightarrow>
     parse_field d tag A u B \<longleftrightarrow> 4 \<le> length A \<and> u = UFixed32 tag (le_word (take 4 A)) \<and> B = drop 4 A"
  "GetTagWireType tag \<in> {WIRETYPE_END_GROUP, WIRETYPE_unnamed6, WIRETYPE_unnamed7} \<Longrightarrow> \<not> parse_field d tag A u B"
  by (auto elim: parse_field_cases intro: parse_field_parse_message.intros)

section \<open>Reading tags and values\<close>

text \<open>A reader that has consumed \<open>k\<close> bytes, up to the flag for the end of a message.\<close>

definition moved :: "('s \<Rightarrow> bool) \<Rightarrow> ('s \<Rightarrow> byte list) \<Rightarrow> ('s \<Rightarrow> byte list) \<Rightarrow> nat \<Rightarrow>
    's CodedInputStream \<Rightarrow> 's CodedInputStream \<Rightarrow> bool" where
  "moved ok bytes lastb k c c' \<longleftrightarrow>
     advanced ok bytes lastb k c (c'\<lparr>ci_legitimate_message_end := ci_legitimate_message_end c\<rparr>)"

definition depth_left :: "'s CodedInputStream \<Rightarrow> int" where
  "depth_left c = ci_recursion_limit c - ci_recursion_depth c"

lemma advanced_moved: "advanced ok bytes lastb k c c' \<Longrightarrow> moved ok bytes lastb k c c'"
  by (simp add: moved_def advanced_def)

lemma moved_trans:
  "moved ok bytes lastb j c c' \<Longrightarrow> moved ok bytes lastb k c' c'' \<Longrightarrow> moved ok bytes lastb (j + k) c c''"
  by (auto simp: moved_def advanced_def IsFlat_def add.commute)

lemma movedD:
  assumes "moved ok bytes lastb k c c'"
  shows "coded_ok ok lastb c'" and "avail bytes lastb c' = drop k (avail bytes lastb c)"
    and "ci_recursion_depth c' = ci_recursion_depth c" and "depth_left c' = depth_left c"
  using advanced_avail [OF assms [unfolded moved_def]] assms by (simp_all add: moved_def advanced_def depth_left_def)

lemma moved_group:
  assumes "0 \<le> ci_recursion_depth c" and "moved ok bytes lastb k (snd (IncrementRecursionDepth c)) c'"
  shows "moved ok bytes lastb k c (DecrementRecursionDepth c')"
  using assms by (auto simp: moved_def advanced_def IncrementRecursionDepth_def DecrementRecursionDepth_def IsFlat_def Let_def)

lemma varint_result_length: "varint_result A = Some (v, k) \<Longrightarrow> 0 < k \<and> k \<le> length A"
  by (auto simp: varint_result_def varint_split_Some varint_group_def)

context zero_copy_source
begin

lemma reads_varint_cases:
  assumes "reads_varint ok bytes lastb c r c'"
  obtains "r = None" "varint_result (avail bytes lastb c) = (None :: ('a::len word \<times> nat) option)" "coded_ok ok lastb c'"
  | v k where "r = Some (v :: 'a word)" "varint_result (avail bytes lastb c) = Some (v, k)"
      "moved ok bytes lastb k c c'" "ci_legitimate_message_end c' = ci_legitimate_message_end c" "0 < k" "k \<le> length (avail bytes lastb c)"
proof (cases "varint_result (avail bytes lastb c) :: ('a word \<times> nat) option")
  case None
  then show thesis
    using assms that(1) by (auto simp: reads_varint_def Let_def dest: advanced_ok)
next
  case (Some p)
  obtain v k where "p = (v, k)" by (cases p)
  with Some assms have r: "r = Some v" "varint_result (avail bytes lastb c) = Some (v, k)" "advanced ok bytes lastb k c c'"
    by (simp_all add: reads_varint_def)
  then have "ci_legitimate_message_end c' = ci_legitimate_message_end c"
    by (simp add: advanced_def)
  then show thesis
    using that(2) [OF r(1,2) advanced_moved [OF r(3)]] varint_result_length [OF r(2)] by blast
qed

lemma ReadTag_cases:
  assumes c: "coded_ok ok lastb c" and f: "\<not> ci_legitimate_message_end c"
  obtains (End) c' where "avail bytes lastb c = []" "ReadTag ops c = Inr (0, c')" "moved ok bytes lastb 0 c c'"
      "ci_last_tag c' = 0" "ci_legitimate_message_end c' = legitimate_end c'"
  | (Bad) c' k where "avail bytes lastb c \<noteq> []" "tag_of (avail bytes lastb c) = 0" "ReadTag ops c = Inr (0, c')"
      "moved ok bytes lastb k c c'" "k \<le> length (avail bytes lastb c)" "ci_last_tag c' = 0" "\<not> ci_legitimate_message_end c'"
  | (Tag) c' tag k where "varint_result (avail bytes lastb c) = Some (tag, k)" "tag \<noteq> 0" "ReadTag ops c = Inr (tag, c')"
      "moved ok bytes lastb k c c'" "0 < k" "k \<le> length (avail bytes lastb c)" "ci_last_tag c' = tag" "\<not> ci_legitimate_message_end c'"
proof -
  let ?A = "avail bytes lastb c"
  obtain tag c' where r: "ReadTag ops c = Inr (tag, c')" "reads_tag ok bytes lastb c tag c'" "ci_last_tag c' = tag"
    using ReadTag_law [OF c] by blast
  show thesis
  proof (cases "?A = []")
    case True
    then have "tag = 0" "moved ok bytes lastb 0 c c'" "ci_legitimate_message_end c' = legitimate_end c"
      using r(2) f by (simp_all add: reads_tag_def moved_def ConsumedEntireMessage_def)
    moreover from this have "legitimate_end c' = legitimate_end c"
      by (simp add: moved_def advanced_def legitimate_end_def)
    ultimately show thesis
      using End True r by auto
  next
    case False
    then have t: "tag = tag_of ?A"
      "reads_varint ok bytes lastb c (map_option fst (varint_result ?A :: (uint32 \<times> nat) option)) c'"
      using r(2) by (simp_all add: reads_tag_def Let_def)
    have leg: "advanced ok bytes lastb k c c' \<Longrightarrow> \<not> ci_legitimate_message_end c'" for k
      using f by (simp add: advanced_def)
    obtain k where k: "advanced ok bytes lastb k c c'" "k \<le> length ?A"
      "\<And>v n. varint_result ?A = Some (v :: uint32, n) \<Longrightarrow> k = n"
      using t(2) by (cases "varint_result ?A :: (uint32 \<times> nat) option") (auto simp: reads_varint_def dest: varint_result_length)
    show thesis
    proof (cases "tag = 0")
      case True
      with False t(1) r k(1,2) leg [OF k(1)] show thesis
        by (intro Bad [of c' k]) (simp_all add: advanced_moved)
    next
      case ne: False
      then obtain n where n: "varint_result ?A = Some (tag, n)"
        using t(1) by (auto simp: tag_of_def split: option.splits)
      with k have "k = n" by simp
      with n ne r k leg varint_result_length [OF n] show thesis
        by (intro Tag [of tag n c']) (auto simp: advanced_moved)
    qed
  qed
qed

end

section \<open>Skipping is parsing\<close>

text \<open>
  What skipping a field or a message gives: success exactly if the available bytes parse, and then a reader behind
  what was parsed. \<open>Q\<close> holds of what was parsed.
\<close>

definition field_post :: "(unknown \<Rightarrow> bool) \<Rightarrow> ('s \<Rightarrow> bool) \<Rightarrow> ('s \<Rightarrow> byte list) \<Rightarrow> ('s \<Rightarrow> byte list) \<Rightarrow>
    's CodedInputStream \<Rightarrow> uint32 \<Rightarrow> bool \<Rightarrow> 's CodedInputStream \<Rightarrow> bool" where
  "field_post Q ok bytes lastb c tag b c' \<longleftrightarrow> coded_ok ok lastb c' \<and>
     (if b then \<exists>u k. parse_field (depth_left c) tag (avail bytes lastb c) u (drop k (avail bytes lastb c)) \<and>
        k \<le> length (avail bytes lastb c) \<and> moved ok bytes lastb k c c' \<and> \<not> ci_legitimate_message_end c' \<and> Q u
      else \<forall>u B. \<not> parse_field (depth_left c) tag (avail bytes lastb c) u B)"

definition message_post :: "(unknown list \<Rightarrow> ending \<Rightarrow> bool) \<Rightarrow> ('s \<Rightarrow> bool) \<Rightarrow> ('s \<Rightarrow> byte list) \<Rightarrow> ('s \<Rightarrow> byte list) \<Rightarrow>
    's CodedInputStream \<Rightarrow> bool \<Rightarrow> 's CodedInputStream \<Rightarrow> bool" where
  "message_post Q ok bytes lastb c b c' \<longleftrightarrow> coded_ok ok lastb c' \<and>
     (if b then \<exists>us e k. parse_message (depth_left c) (avail bytes lastb c) us e (drop k (avail bytes lastb c)) \<and>
        k \<le> length (avail bytes lastb c) \<and> moved ok bytes lastb k c c' \<and> ci_last_tag c' = ending_tag e \<and>
        ci_legitimate_message_end c' = (e = At_end \<and> legitimate_end c') \<and> Q us e
      else \<forall>us e B. \<not> parse_message (depth_left c) (avail bytes lastb c) us e B)"

lemma field_postI:
  assumes "parse_field (depth_left c) tag (avail bytes lastb c) u (drop k (avail bytes lastb c))"
    and "k \<le> length (avail bytes lastb c)" and "moved ok bytes lastb k c c'" and "\<not> ci_legitimate_message_end c'" and "Q u"
  shows "field_post Q ok bytes lastb c tag True c'"
  using assms movedD(1) [OF assms(3)] by (auto simp: field_post_def)

lemma group_end_tag_type [simp]: "GetTagWireType (group_end_tag tag) = WIRETYPE_END_GROUP"
  by (simp add: group_end_tag_def)

lemma group_end_tag_nonzero [simp]: "group_end_tag tag \<noteq> 0" "0 \<noteq> group_end_tag tag"
proof -
  show "group_end_tag tag \<noteq> 0"
    using group_end_tag_type [of tag] by (intro notI) simp
  then show "0 \<noteq> group_end_tag tag"
    by simp
qed

lemma field_post_group:
  assumes g: "GetTagWireType tag = WIRETYPE_START_GROUP" and c: "0 \<le> ci_recursion_depth c"
    and i: "IncrementRecursionDepth c = (True, c1)"
    and m: "message_post Q ok bytes lastb c1 True c2"
    and Q: "\<And>us. Q us (At_tag (group_end_tag tag)) \<Longrightarrow> R (UGroup tag us)"
  shows "field_post R ok bytes lastb c tag (LastTagWas (group_end_tag tag) (DecrementRecursionDepth c2)) (DecrementRecursionDepth c2)"
proof -
  have c1: "c1 = snd (IncrementRecursionDepth c)" "depth_left c1 = depth_left c - 1" "1 \<le> depth_left c"
    "avail bytes lastb c1 = avail bytes lastb c"
    using i by (auto simp: IncrementRecursionDepth_def depth_left_def Let_def)
  obtain us e k where m': "parse_message (depth_left c - 1) (avail bytes lastb c) us e (drop k (avail bytes lastb c))"
    "k \<le> length (avail bytes lastb c)" "moved ok bytes lastb k c1 c2" "ci_last_tag c2 = ending_tag e"
    "ci_legitimate_message_end c2 = (e = At_end \<and> legitimate_end c2)" "Q us e"
    using m unfolding message_post_def c1(2,4) by auto
  have mv: "moved ok bytes lastb k c (DecrementRecursionDepth c2)"
    using moved_group [OF c, of ok bytes lastb k c2] m'(3) c1(1) by simp
  have d: "ci_last_tag (DecrementRecursionDepth c2) = ci_last_tag c2"
    "ci_legitimate_message_end (DecrementRecursionDepth c2) = ci_legitimate_message_end c2"
    by (simp_all add: DecrementRecursionDepth_def)
  show ?thesis
  proof (cases "e = At_tag (group_end_tag tag)")
    case True
    then show ?thesis
      using m' d mv g c1(3) Q
      by (auto simp: LastTagWas_def intro!: field_postI [where u = "UGroup tag us" and k = k] parse_group)
  next
    case False
    have "\<not> parse_field (depth_left c) tag (avail bytes lastb c) u B" for u B
    proof
      assume "parse_field (depth_left c) tag (avail bytes lastb c) u B"
      then obtain us' where "parse_message (depth_left c - 1) (avail bytes lastb c) us' (At_tag (group_end_tag tag)) B"
        unfolding parse_field_iff(4) [OF g] by blast
      from parse_unique(2) [OF m'(1) this] False show False
        by simp
    qed
    moreover have "ci_last_tag c2 \<noteq> group_end_tag tag"
      using False m'(4) by (cases e) auto
    ultimately show ?thesis
      using d movedD(1) [OF mv] by (auto simp: field_post_def LastTagWas_def)
  qed
qed

lemma field_post_no_group:
  assumes g: "GetTagWireType tag = WIRETYPE_START_GROUP"
    and c: "coded_ok ok lastb c" and i: "IncrementRecursionDepth c = (False, c1)"
  shows "field_post R ok bytes lastb c tag False c1"
  using c i by (auto simp: field_post_def parse_field_iff(4) [OF g] IncrementRecursionDepth_def depth_left_def Let_def)

lemma field_post_bad_group:
  assumes g: "GetTagWireType tag = WIRETYPE_START_GROUP"
    and i: "IncrementRecursionDepth c = (True, c1)" and m: "message_post Q ok bytes lastb c1 False c2"
  shows "field_post R ok bytes lastb c tag False c2"
proof -
  have "depth_left c1 = depth_left c - 1" "avail bytes lastb c1 = avail bytes lastb c"
    using i by (auto simp: IncrementRecursionDepth_def depth_left_def Let_def)
  then show ?thesis
    using m by (auto simp: field_post_def message_post_def parse_field_iff(4) [OF g])
qed

lemma field_post_any_group:
  assumes "GetTagWireType tag = WIRETYPE_START_GROUP" and "0 \<le> ci_recursion_depth c"
    and "IncrementRecursionDepth c = (True, c1)" and "message_post Q ok bytes lastb c1 m c2"
    and "\<And>us. Q us (At_tag (group_end_tag tag)) \<Longrightarrow> R (UGroup tag us)"
  shows "field_post R ok bytes lastb c tag (m \<and> LastTagWas (group_end_tag tag) (DecrementRecursionDepth c2))
    (if m then DecrementRecursionDepth c2 else c2)"
  using assms field_post_group [OF assms(1-3), of Q ok bytes lastb c2 R] field_post_bad_group [OF assms(1,3), of Q ok bytes lastb c2 R]
  by (cases m) simp_all

lemma field_post_delimited:
  assumes t: "GetTagWireType tag = WIRETYPE_LENGTH_DELIMITED"
    and len: "varint_result (avail bytes lastb c) = Some (len :: uint32, k)" "moved ok bytes lastb k c c1"
      "k \<le> length (avail bytes lastb c)"
    and c': "coded_ok ok lastb c'" "b = (0 \<le> sint len \<and> nat (sint len) \<le> length (avail bytes lastb c1))"
      "b \<Longrightarrow> moved ok bytes lastb (nat (sint len)) c1 c' \<and> \<not> ci_legitimate_message_end c'"
      "b \<Longrightarrow> Q (UDelimited tag (take (nat (sint len)) (avail bytes lastb c1)))"
  shows "field_post Q ok bytes lastb c tag b c'"
proof (cases b)
  case True
  let ?m = "nat (sint len)"
  have a: "avail bytes lastb c1 = drop k (avail bytes lastb c)"
    by (rule movedD(2) [OF len(2)])
  have le: "k + ?m \<le> length (avail bytes lastb c)"
    using True c'(2) len(3) a by auto
  have "parse_field (depth_left c) tag (avail bytes lastb c) (UDelimited tag (take ?m (avail bytes lastb c1)))
      (drop (k + ?m) (avail bytes lastb c))"
    unfolding a using True c'(2) le len(1) t by (intro parse_delimited) simp_all
  then have "field_post Q ok bytes lastb c tag True c'"
    by (rule field_postI) (use le moved_trans [OF len(2), of ?m c'] c'(3,4) True in simp_all)
  with True show ?thesis by simp
next
  case False
  then have "\<not> parse_field (depth_left c) tag (avail bytes lastb c) u B" for u B
    using c'(2) len movedD(2) [OF len(2)] by (auto simp: parse_field_iff(3) [OF t])
  then show ?thesis
    using False c'(1) by (simp add: field_post_def)
qed

context zero_copy_source
begin

lemma field_post_varint:
  assumes t: "GetTagWireType tag = WIRETYPE_VARINT" and c: "coded_ok ok lastb c" "\<not> ci_legitimate_message_end c"
  shows "\<exists>r c'. ReadVarint64 ops c = Inr (r, c') \<and>
    (\<forall>Q. (\<forall>v. r = Some v \<longrightarrow> Q (UVarint tag v)) \<longrightarrow> field_post Q ok bytes lastb c tag (r \<noteq> None) c')"
proof -
  obtain r c' where r: "ReadVarint64 ops c = Inr (r, c')" "reads_varint ok bytes lastb c r c'"
    using ReadVarint64_law [OF c(1)] by blast
  from r(2) have "field_post Q ok bytes lastb c tag (r \<noteq> None) c'" if "\<And>v. r = Some v \<Longrightarrow> Q (UVarint tag v)" for Q
  proof (cases rule: reads_varint_cases)
    case 1
    then show ?thesis
      using t by (simp add: field_post_def parse_field_iff)
  next
    case (2 v k)
    then show ?thesis
      using c(2) t that by (auto intro!: field_postI [where u = "UVarint tag v" and k = k] parse_varint)
  qed
  with r(1) show ?thesis by blast
qed

lemma field_post_fixed64:
  assumes t: "GetTagWireType tag = WIRETYPE_FIXED64" and c: "coded_ok ok lastb c" "\<not> ci_legitimate_message_end c"
  shows "\<exists>r c'. ReadLittleEndian64 ops host c = Inr (r, c') \<and>
    (\<forall>Q. (\<forall>v. r = Some v \<longrightarrow> Q (UFixed64 tag v)) \<longrightarrow> field_post Q ok bytes lastb c tag (r \<noteq> None) c')"
proof -
  let ?A = "avail bytes lastb c"
  obtain c' where r: "ReadLittleEndian64 ops host c = Inr (if 8 \<le> length ?A then Some (le_word (take 8 ?A)) else None, c')"
    "advanced ok bytes lastb (min 8 (length ?A)) c c'"
    using ReadLittleEndian64_law [OF c(1)] by blast
  show ?thesis
  proof (cases "8 \<le> length ?A")
    case True
    then show ?thesis
      using r c(2) t advanced_moved [OF r(2)] parse_fixed64 [OF t True]
      by (auto simp: min_def advanced_def intro!: field_postI [where u = "UFixed64 tag (le_word (take 8 ?A))" and k = 8])
  next
    case False
    then show ?thesis
      using r t advanced_ok [OF r(2)] by (auto simp: field_post_def parse_field_iff)
  qed
qed

lemma field_post_fixed32:
  assumes t: "GetTagWireType tag = WIRETYPE_FIXED32" and c: "coded_ok ok lastb c" "\<not> ci_legitimate_message_end c"
  shows "\<exists>r c'. ReadLittleEndian32 ops host c = Inr (r, c') \<and>
    (\<forall>Q. (\<forall>v. r = Some v \<longrightarrow> Q (UFixed32 tag v)) \<longrightarrow> field_post Q ok bytes lastb c tag (r \<noteq> None) c')"
proof -
  let ?A = "avail bytes lastb c"
  obtain c' where r: "ReadLittleEndian32 ops host c = Inr (if 4 \<le> length ?A then Some (le_word (take 4 ?A)) else None, c')"
    "advanced ok bytes lastb (min 4 (length ?A)) c c'"
    using ReadLittleEndian32_law [OF c(1)] by blast
  show ?thesis
  proof (cases "4 \<le> length ?A")
    case True
    then show ?thesis
      using r c(2) t advanced_moved [OF r(2)] parse_fixed32 [OF t True]
      by (auto simp: min_def advanced_def intro!: field_postI [where u = "UFixed32 tag (le_word (take 4 ?A))" and k = 4])
  next
    case False
    then show ?thesis
      using r t advanced_ok [OF r(2)] by (auto simp: field_post_def parse_field_iff)
  qed
qed

lemma delimited_length:
  assumes t: "GetTagWireType tag = WIRETYPE_LENGTH_DELIMITED" and c: "coded_ok ok lastb c" "\<not> ci_legitimate_message_end c"
  obtains c1 where "ReadVarint32 ops c = Inr (None, c1)" "\<And>Q. field_post Q ok bytes lastb c tag False c1"
  | len k c1 where "ReadVarint32 ops c = Inr (Some len, c1)" "varint_result (avail bytes lastb c) = Some (len, k)"
      "moved ok bytes lastb k c c1" "k \<le> length (avail bytes lastb c)" "\<not> ci_legitimate_message_end c1"
proof -
  obtain r c' where r: "ReadVarint32 ops c = Inr (r, c')" "reads_varint ok bytes lastb c r c'"
    using ReadVarint32_law [OF c(1)] by blast
  from r(2) show thesis
    by (cases rule: reads_varint_cases) (use r(1) c(2) t that in \<open>auto simp: field_post_def parse_field_iff\<close>)
qed

lemma SkipField_law:
  assumes M: "\<And>c. coded_ok ok lastb c \<Longrightarrow> 0 \<le> ci_recursion_depth c \<Longrightarrow> \<not> ci_legitimate_message_end c \<Longrightarrow>
      length (avail bytes lastb c) < n \<Longrightarrow>
      \<exists>b c'. SkipMessage n ops host c = Inr (b, c') \<and> message_post (\<lambda>us e. True) ok bytes lastb c b c'"
    and c: "coded_ok ok lastb c" "0 \<le> ci_recursion_depth c" "\<not> ci_legitimate_message_end c" "length (avail bytes lastb c) < n"
  shows "\<exists>b c'. SkipField n ops host tag c = Inr (b, c') \<and> field_post (\<lambda>u. True) ok bytes lastb c tag b c'"
proof (cases "GetTagWireType tag")
  case WIRETYPE_VARINT
  then show ?thesis
    using field_post_varint [OF WIRETYPE_VARINT c(1,3)] by (auto simp: SkipField.simps)
next
  case WIRETYPE_FIXED64
  then show ?thesis
    using field_post_fixed64 [OF WIRETYPE_FIXED64 c(1,3), of host] by (auto simp: SkipField.simps)
next
  case WIRETYPE_LENGTH_DELIMITED
  from WIRETYPE_LENGTH_DELIMITED c(1,3) show ?thesis
  proof (cases rule: delimited_length)
    case (1 c1)
    then show ?thesis
      using WIRETYPE_LENGTH_DELIMITED by (auto simp: SkipField.simps)
  next
    case (2 len k c1)
    obtain b c' where s: "CodedInputStream_Skip ops (sint len) c1 = Inr (b, c')" "coded_ok ok lastb c'"
      "b = (0 \<le> sint len \<and> nat (sint len) \<le> length (avail bytes lastb c1))"
      "b \<Longrightarrow> advanced ok bytes lastb (nat (sint len)) c1 c'"
      using Skip_law [OF movedD(1) [OF 2(3)], of "sint len"] movedD(1) [OF 2(3)]
      by (cases "0 \<le> sint len") (auto simp: CodedInputStream_Skip_def)
    then have "field_post (\<lambda>u. True) ok bytes lastb c tag b c'"
      using field_post_delimited [OF WIRETYPE_LENGTH_DELIMITED 2(2-4) s(2,3)] 2(5)
      by (auto simp: advanced_moved) (auto simp: advanced_def)
    then show ?thesis
      using WIRETYPE_LENGTH_DELIMITED 2(1) s(1) by (simp add: SkipField.simps)
  qed
next
  case WIRETYPE_START_GROUP
  obtain b c1 where i: "IncrementRecursionDepth c = (b, c1)"
    by (cases "IncrementRecursionDepth c")
  show ?thesis
  proof (cases b)
    case False
    with i show ?thesis
      using WIRETYPE_START_GROUP field_post_no_group [OF WIRETYPE_START_GROUP c(1), of c1] by (auto simp: SkipField.simps)
  next
    case True
    have c1: "coded_ok ok lastb c1" "0 \<le> ci_recursion_depth c1" "\<not> ci_legitimate_message_end c1" "length (avail bytes lastb c1) < n"
      using i c by (auto simp: IncrementRecursionDepth_def Let_def)
    obtain m c2 where m: "SkipMessage n ops host c1 = Inr (m, c2)" "message_post (\<lambda>us e. True) ok bytes lastb c1 m c2"
      using M [OF c1] by blast
    show ?thesis
      using i True m(1) WIRETYPE_START_GROUP field_post_any_group [OF WIRETYPE_START_GROUP c(2) _ m(2), of "\<lambda>u. True"]
      by (cases m) (auto simp: SkipField.simps Let_def)
  qed
next
  case WIRETYPE_FIXED32
  then show ?thesis
    using field_post_fixed32 [OF WIRETYPE_FIXED32 c(1,3), of host] by (auto simp: SkipField.simps)
qed (use c(1) in \<open>auto simp: SkipField.simps field_post_def parse_field_iff\<close>)

end

lemma message_post_tag:
  assumes "parse_message (depth_left c) (avail bytes lastb c) [] e (drop k (avail bytes lastb c))"
    and "k \<le> length (avail bytes lastb c)" and "moved ok bytes lastb k c c'" and "ci_last_tag c' = ending_tag e"
    and "ci_legitimate_message_end c' = (e = At_end \<and> legitimate_end c')" and "Q [] e"
  shows "message_post Q ok bytes lastb c True c'"
  using assms movedD(1) [OF assms(3)] unfolding message_post_def by auto

lemma message_post_next:
  assumes t: "varint_result (avail bytes lastb c) = Some (tag, k)" "tag \<noteq> 0" "moved ok bytes lastb k c c1"
      "k \<le> length (avail bytes lastb c)"
    and f: "field_post R ok bytes lastb c1 tag True c2"
    and m: "message_post P ok bytes lastb c2 b c'"
    and Q: "\<And>u us e. R u \<Longrightarrow> P us e \<Longrightarrow> Q (u # us) e"
  shows "message_post Q ok bytes lastb c b c'"
proof -
  let ?A = "avail bytes lastb c"
  have a1: "avail bytes lastb c1 = drop k ?A" "depth_left c1 = depth_left c"
    using movedD [OF t(3)] by simp_all
  obtain u j where u: "parse_field (depth_left c) tag (drop k ?A) u (drop (j + k) ?A)" "j \<le> length ?A - k"
    "moved ok bytes lastb j c1 c2" "R u"
    using f unfolding field_post_def a1 by (auto simp: drop_drop)
  have a2: "avail bytes lastb c2 = drop (j + k) ?A" "depth_left c2 = depth_left c"
    using movedD [OF u(3)] a1 by simp_all
  show ?thesis
  proof (cases b)
    case True
    then obtain us e i where us: "parse_message (depth_left c) (drop (j + k) ?A) us e (drop (i + (j + k)) ?A)"
      "i \<le> length ?A - (j + k)" "moved ok bytes lastb i c2 c'" "ci_last_tag c' = ending_tag e"
      "ci_legitimate_message_end c' = (e = At_end \<and> legitimate_end c')" "P us e"
      using m unfolding message_post_def a2 by (auto simp: drop_drop)
    have "moved ok bytes lastb (k + j + i) c c'"
      using moved_trans [OF moved_trans [OF t(3) u(3)] us(3)] .
    moreover have "parse_message (depth_left c) ?A (u # us) e (drop (k + j + i) ?A)"
      using parse_next [OF t(1,2) u(1) us(1)] by (simp add: ac_simps)
    moreover have "k + j + i \<le> length ?A"
      using t(4) u(2) us(2) by linarith
    ultimately show ?thesis
      using us(4,5) Q [OF u(4) us(6)] True movedD(1) unfolding message_post_def by auto
  next
    case False
    have "\<not> parse_message (depth_left c) ?A us e B" for us e B
    proof
      assume p: "parse_message (depth_left c) ?A us e B"
      have "GetTagWireType tag \<noteq> WIRETYPE_END_GROUP"
        using u(1) by (auto elim: parse_field_cases)
      with p t(1,2) obtain u' B' us' where "parse_field (depth_left c) tag (drop k ?A) u' B'"
        "parse_message (depth_left c) B' us' e B"
        by (auto simp: tag_of_Some elim: parse_message_cases)
      with parse_unique(1) [OF u(1), of u' B'] m False show False
        unfolding message_post_def a2 by auto
    qed
    then show ?thesis
      using False m by (auto simp: message_post_def)
  qed
qed

lemma message_post_bad_field:
  assumes t: "varint_result (avail bytes lastb c) = Some (tag, k)" "tag \<noteq> 0" "GetTagWireType tag \<noteq> WIRETYPE_END_GROUP"
      "moved ok bytes lastb k c c1"
    and f: "field_post R ok bytes lastb c1 tag False c2"
  shows "message_post Q ok bytes lastb c False c2"
proof -
  have "\<not> parse_field (depth_left c) tag (drop k (avail bytes lastb c)) u B" for u B
    using f movedD [OF t(4)] by (simp add: field_post_def)
  then have "\<not> parse_message (depth_left c) (avail bytes lastb c) us e B" for us e B
    using t(1-3) by (auto simp: tag_of_Some elim: parse_message_cases)
  then show ?thesis
    using f by (simp add: message_post_def field_post_def)
qed

context zero_copy_source
begin

lemma SkipMessage_law:
  assumes "coded_ok ok lastb c" "0 \<le> ci_recursion_depth c" "\<not> ci_legitimate_message_end c" "length (avail bytes lastb c) < n"
  shows "\<exists>b c'. SkipMessage n ops host c = Inr (b, c') \<and> message_post (\<lambda>us e. True) ok bytes lastb c b c'"
  using assms
proof (induction n arbitrary: c)
  case (Suc n)
  from Suc.prems(1,3) show ?case
  proof (cases rule: ReadTag_cases)
    case (End c')
    have "message_post (\<lambda>us e. True) ok bytes lastb c True c'"
      by (rule message_post_tag [where e = At_end and k = 0]) (use End parse_end in simp_all)
    with End(2) show ?thesis
      by (auto simp: SkipMessage.simps)
  next
    case (Bad c' k)
    have "message_post (\<lambda>us e. True) ok bytes lastb c True c'"
      by (rule message_post_tag [where e = Bad_tag and k = k]) (use Bad parse_bad in simp_all)
    with Bad(3) show ?thesis
      by (auto simp: SkipMessage.simps)
  next
    case (Tag c1 tag k)
    show ?thesis
    proof (cases "GetTagWireType tag = WIRETYPE_END_GROUP")
      case True
      have "message_post (\<lambda>us e. True) ok bytes lastb c True c1"
        by (rule message_post_tag [where e = "At_tag tag" and k = k]) (use Tag True parse_end_tag in simp_all)
      with Tag(2,3) True show ?thesis
        by (auto simp: SkipMessage.simps)
    next
      case False
      have c1: "coded_ok ok lastb c1" "0 \<le> ci_recursion_depth c1" "length (avail bytes lastb c1) < n"
        using movedD [OF Tag(4)] Tag(5,6) Suc.prems(2,4) by simp_all
      obtain b c2 where f: "SkipField n ops host tag c1 = Inr (b, c2)" "field_post (\<lambda>u. True) ok bytes lastb c1 tag b c2"
        using SkipField_law [OF Suc.IH c1(1,2) Tag(8) c1(3)] by blast
      show ?thesis
      proof (cases b)
        case b: True
        then have f': "field_post (\<lambda>u. True) ok bytes lastb c1 tag True c2"
          using f(2) by simp
        then obtain u j where u: "moved ok bytes lastb j c1 c2" "\<not> ci_legitimate_message_end c2"
          by (auto simp: field_post_def)
        have "\<exists>b c'. SkipMessage n ops host c2 = Inr (b, c') \<and> message_post (\<lambda>us e. True) ok bytes lastb c2 b c'"
          using movedD [OF u(1)] u(2) c1 by (intro Suc.IH) simp_all
        then obtain m c' where m: "SkipMessage n ops host c2 = Inr (m, c')" "message_post (\<lambda>us e. True) ok bytes lastb c2 m c'"
          by blast
        show ?thesis
          using message_post_next [OF Tag(1,2,4,6) f' m(2)] Tag(2,3) False f(1) b m(1)
          by (simp add: SkipMessage.simps)
      next
        case b: False
        then have "field_post (\<lambda>u. True) ok bytes lastb c1 tag False c2"
          using f(2) by simp
        from message_post_bad_field [OF Tag(1,2) False Tag(4) this] show ?thesis
          using Tag(2,3) False f(1) b by (auto simp: SkipMessage.simps)
      qed
    qed
  qed
qed simp

end

section \<open>Saving what is skipped\<close>

text \<open>
  The saving version leaves a well-formed writer, which on success has taken the items of what was parsed.
\<close>

definition saves_field ::
    "'t zero_copy_output \<Rightarrow> ('t CodedOutputStream \<Rightarrow> bool) \<Rightarrow> ('s \<Rightarrow> bool) \<Rightarrow> ('s \<Rightarrow> byte list) \<Rightarrow> ('s \<Rightarrow> byte list) \<Rightarrow>
      's CodedInputStream \<Rightarrow> 't CodedOutputStream \<Rightarrow> uint32 \<Rightarrow>
      (bool \<times> 's CodedInputStream \<times> 't CodedOutputStream) result \<Rightarrow> bool" where
  "saves_field oops wok ok bytes lastb c w tag r \<longleftrightarrow> (\<exists>b c' w'. r = Inr (b, c', w') \<and> wok w' \<and>
     field_post (\<lambda>u. put_items oops (unknown_items u) w = Inr w') ok bytes lastb c tag b c')"

definition saves_message ::
    "'t zero_copy_output \<Rightarrow> ('t CodedOutputStream \<Rightarrow> bool) \<Rightarrow> ('s \<Rightarrow> bool) \<Rightarrow> ('s \<Rightarrow> byte list) \<Rightarrow> ('s \<Rightarrow> byte list) \<Rightarrow>
      's CodedInputStream \<Rightarrow> 't CodedOutputStream \<Rightarrow>
      (bool \<times> 's CodedInputStream \<times> 't CodedOutputStream) result \<Rightarrow> bool" where
  "saves_message oops wok ok bytes lastb c w r \<longleftrightarrow> (\<exists>b c' w'. r = Inr (b, c', w') \<and> wok w' \<and>
     message_post (\<lambda>us e. put_items oops (concat (map unknown_items us) @ ending_items e) w = Inr w') ok bytes lastb c b c')"

lemma saves_Inr [simp]:
  "saves_field oops wok ok bytes lastb c w tag (Inr (b, c', w')) \<longleftrightarrow> wok w' \<and>
     field_post (\<lambda>u. put_items oops (unknown_items u) w = Inr w') ok bytes lastb c tag b c'"
  "saves_message oops wok ok bytes lastb c w (Inr (b, c', w')) \<longleftrightarrow> wok w' \<and>
     message_post (\<lambda>us e. put_items oops (concat (map unknown_items us) @ ending_items e) w = Inr w') ok bytes lastb c b c'"
  by (simp_all add: saves_field_def saves_message_def)

lemma saves_scalar:
  assumes put: "\<And>x w. wok w \<Longrightarrow> \<exists>w'. put_item oops x w = Inr w' \<and> wok w'" and w: "wok w"
    and r: "\<And>Q. (\<And>v. r = Some v \<Longrightarrow> Q (U v)) \<Longrightarrow> field_post Q ok bytes lastb c tag (r \<noteq> None) c'"
    and U: "\<And>v. unknown_items (U v) = [Varint32 tag, item v]"
  shows "saves_field oops wok ok bytes lastb c w tag
    (case r of
       None \<Rightarrow> Inr (False, c', w)
     | Some v \<Rightarrow> rbind (WriteVarint32 oops tag w) (\<lambda>w. rbind (put_item oops (item v) w) (\<lambda>w. Inr (True, c', w))))"
proof (cases r)
  case None
  then show ?thesis
    using w r [of "\<lambda>u. put_items oops (unknown_items u) w = Inr w"] by simp
next
  case (Some v)
  obtain w1 w2 where w2: "WriteVarint32 oops tag w = Inr w1" "put_item oops (item v) w1 = Inr w2" "wok w2"
    using put [OF w, of "Varint32 tag"] put by (metis put_item.simps(4))
  then show ?thesis
    using Some r [of "\<lambda>u. put_items oops (unknown_items u) w = Inr w2"] by (simp add: U)
qed

context zero_copy_source
begin

lemma saves_delimited:
  assumes put: "\<And>x w. wok w \<Longrightarrow> \<exists>w'. put_item oops x w = Inr w' \<and> wok w'" and w: "wok w"
    and t: "GetTagWireType tag = WIRETYPE_LENGTH_DELIMITED" and c: "coded_ok ok lastb c" "\<not> ci_legitimate_message_end c"
  shows "saves_field oops wok ok bytes lastb c w tag (SkipField_out n ops host oops tag c w)"
  using t c
proof (cases rule: delimited_length)
  case (1 c1)
  then show ?thesis
    using t w by (simp add: SkipField_out.simps)
next
  case (2 len k c1)
  let ?m = "nat (sint len)" and ?A = "avail bytes lastb c1"
  obtain w1 w2 where w2: "WriteVarint32 oops tag w = Inr w1" "WriteVarint32 oops len w1 = Inr w2" "wok w2"
    using put [OF w, of "Varint32 tag"] put by (metis put_item.simps(4))
  obtain b bs c' where s: "ReadString ops [] (sint len) c1 = Inr (b, bs, c')" "coded_ok ok lastb c'"
    "b = (0 \<le> sint len \<and> ?m \<le> length ?A)" "b \<Longrightarrow> bs = take ?m ?A" "b \<Longrightarrow> advanced ok bytes lastb ?m c1 c'"
  proof (cases "0 \<le> sint len")
    case True
    obtain c' where "ReadString ops [] (sint len) c1 = Inr (?m \<le> length ?A, take ?m ?A, c')"
      "advanced ok bytes lastb (min ?m (length ?A)) c1 c'"
      using ReadString_law [OF movedD(1) [OF 2(3)] True, of "[]"] by blast
    with True advanced_ok show thesis
      by (intro that [of "?m \<le> length ?A" "take ?m ?A" c']) (auto simp: min_def)
  next
    case False
    with movedD(1) [OF 2(3)] show thesis
      by (intro that [of False "[]" c1]) (simp_all add: ReadString_def)
  qed
  obtain w3 where w3: "WriteString oops bs w2 = Inr w3" "wok w3"
    using put [OF w2(3), of "Raw bs"] by (auto simp: WriteString_def)
  let ?w = "if b then w3 else w2"
  have "field_post (\<lambda>u. put_items oops (unknown_items u) w = Inr ?w) ok bytes lastb c tag b c'"
  proof (rule field_post_delimited [OF t 2(2-4) s(2,3)])
    assume b
    then have bs: "take ?m ?A = bs" "advanced ok bytes lastb ?m c1 c'" "length bs = ?m"
      using s(3,4,5) by simp_all
    then have len: "of_nat (length bs) = len"
      using \<open>b\<close> s(3) by simp
    show "moved ok bytes lastb ?m c1 c' \<and> \<not> ci_legitimate_message_end c'"
      using advanced_moved [OF bs(2)] bs(2) 2(5) by (simp add: advanced_def)
    show "put_items oops (unknown_items (UDelimited tag (take ?m ?A))) w = Inr ?w"
      unfolding bs(1) using \<open>b\<close> len w2 w3(1) by (simp add: WriteString_def)
  qed
  moreover have "SkipField_out n ops host oops tag c w = Inr (b, c', ?w)"
    using t 2(1) w2 w3(1) s(1) by (simp add: SkipField_out.simps)
  ultimately show ?thesis
    using w2(3) w3(2) by simp
qed

lemma SkipField_out_law:
  assumes put: "\<And>x w. wok w \<Longrightarrow> \<exists>w'. put_item oops x w = Inr w' \<and> wok w'" and w: "wok w"
    and M: "\<And>c w. coded_ok ok lastb c \<Longrightarrow> 0 \<le> ci_recursion_depth c \<Longrightarrow> \<not> ci_legitimate_message_end c \<Longrightarrow>
      length (avail bytes lastb c) < n \<Longrightarrow> wok w \<Longrightarrow>
      saves_message oops wok ok bytes lastb c w (SkipMessage_out n ops host oops c w)"
    and c: "coded_ok ok lastb c" "0 \<le> ci_recursion_depth c" "\<not> ci_legitimate_message_end c" "length (avail bytes lastb c) < n"
  shows "saves_field oops wok ok bytes lastb c w tag (SkipField_out n ops host oops tag c w)"
proof (cases "GetTagWireType tag")
  case WIRETYPE_VARINT
  obtain r c' where r: "ReadVarint64 ops c = Inr (r, c')"
    "\<And>Q. (\<And>v. r = Some v \<Longrightarrow> Q (UVarint tag v)) \<Longrightarrow> field_post Q ok bytes lastb c tag (r \<noteq> None) c'"
    using field_post_varint [OF WIRETYPE_VARINT c(1,3)] by blast
  show ?thesis
    using saves_scalar [where item = Varint64 and U = "UVarint tag", OF put w r(2)] r(1) WIRETYPE_VARINT
    by (cases r) (simp_all add: SkipField_out.simps)
next
  case WIRETYPE_FIXED64
  obtain r c' where r: "ReadLittleEndian64 ops host c = Inr (r, c')"
    "\<And>Q. (\<And>v. r = Some v \<Longrightarrow> Q (UFixed64 tag v)) \<Longrightarrow> field_post Q ok bytes lastb c tag (r \<noteq> None) c'"
    using field_post_fixed64 [OF WIRETYPE_FIXED64 c(1,3)] by blast
  show ?thesis
    using saves_scalar [where item = Fixed64 and U = "UFixed64 tag", OF put w r(2)] r(1) WIRETYPE_FIXED64
    by (cases r) (simp_all add: SkipField_out.simps)
next
  case WIRETYPE_LENGTH_DELIMITED
  then show ?thesis
    using saves_delimited [OF put w _ c(1,3)] by blast
next
  case WIRETYPE_START_GROUP
  obtain w1 where w1: "WriteVarint32 oops tag w = Inr w1" "wok w1"
    using put [OF w, of "Varint32 tag"] by auto
  obtain b c1 where i: "IncrementRecursionDepth c = (b, c1)"
    by (cases "IncrementRecursionDepth c")
  show ?thesis
  proof (cases b)
    case False
    with i show ?thesis
      using WIRETYPE_START_GROUP w1 field_post_no_group [OF WIRETYPE_START_GROUP c(1), of c1]
      by (simp add: SkipField_out.simps)
  next
    case True
    have c1: "coded_ok ok lastb c1" "0 \<le> ci_recursion_depth c1" "\<not> ci_legitimate_message_end c1" "length (avail bytes lastb c1) < n"
      using i c by (auto simp: IncrementRecursionDepth_def Let_def)
    obtain m c2 w2 where m: "SkipMessage_out n ops host oops c1 w1 = Inr (m, c2, w2)" "wok w2"
      "message_post (\<lambda>us e. put_items oops (concat (map unknown_items us) @ ending_items e) w1 = Inr w2) ok bytes lastb c1 m c2"
      using M [OF c1 w1(2)] unfolding saves_message_def by blast
    show ?thesis
      using i True m(1,2) w1(1) WIRETYPE_START_GROUP
        field_post_any_group [OF WIRETYPE_START_GROUP c(2) _ m(3), of "\<lambda>u. put_items oops (unknown_items u) w = Inr w2"]
      by (cases m) (auto simp: SkipField_out.simps Let_def)
  qed
next
  case WIRETYPE_FIXED32
  obtain r c' where r: "ReadLittleEndian32 ops host c = Inr (r, c')"
    "\<And>Q. (\<And>v. r = Some v \<Longrightarrow> Q (UFixed32 tag v)) \<Longrightarrow> field_post Q ok bytes lastb c tag (r \<noteq> None) c'"
    using field_post_fixed32 [OF WIRETYPE_FIXED32 c(1,3)] by blast
  show ?thesis
    using saves_scalar [where item = Fixed32 and U = "UFixed32 tag", OF put w r(2)] r(1) WIRETYPE_FIXED32
    by (cases r) (simp_all add: SkipField_out.simps)
qed (use c(1) w in \<open>simp_all add: SkipField_out.simps field_post_def parse_field_iff\<close>)

lemma SkipMessage_out_law:
  assumes put: "\<And>x w. wok w \<Longrightarrow> \<exists>w'. put_item oops x w = Inr w' \<and> wok w'"
    and "coded_ok ok lastb c" "0 \<le> ci_recursion_depth c" "\<not> ci_legitimate_message_end c" "length (avail bytes lastb c) < n"
    and "wok w"
  shows "saves_message oops wok ok bytes lastb c w (SkipMessage_out n ops host oops c w)"
  using assms(2-)
proof (induction n arbitrary: c w)
  case (Suc n)
  from Suc.prems(1,3) show ?case
  proof (cases rule: ReadTag_cases)
    case (End c')
    have "message_post (\<lambda>us e. put_items oops (concat (map unknown_items us) @ ending_items e) w = Inr w) ok bytes lastb c True c'"
      by (rule message_post_tag [where e = At_end and k = 0]) (use End parse_end in simp_all)
    with End(2) Suc.prems(5) show ?thesis
      by (simp add: SkipMessage_out.simps)
  next
    case (Bad c' k)
    have "message_post (\<lambda>us e. put_items oops (concat (map unknown_items us) @ ending_items e) w = Inr w) ok bytes lastb c True c'"
      by (rule message_post_tag [where e = Bad_tag and k = k]) (use Bad parse_bad in simp_all)
    with Bad(3) Suc.prems(5) show ?thesis
      by (simp add: SkipMessage_out.simps)
  next
    case (Tag c1 tag k)
    show ?thesis
    proof (cases "GetTagWireType tag = WIRETYPE_END_GROUP")
      case True
      obtain w1 where w1: "WriteVarint32 oops tag w = Inr w1" "wok w1"
        using put [OF Suc.prems(5), of "Varint32 tag"] by auto
      have "message_post (\<lambda>us e. put_items oops (concat (map unknown_items us) @ ending_items e) w = Inr w1) ok bytes lastb c True c1"
        by (rule message_post_tag [where e = "At_tag tag" and k = k]) (use Tag True parse_end_tag w1(1) in simp_all)
      with Tag(2,3) True w1 show ?thesis
        by (simp add: SkipMessage_out.simps)
    next
      case False
      have c1: "coded_ok ok lastb c1" "0 \<le> ci_recursion_depth c1" "length (avail bytes lastb c1) < n"
        using movedD [OF Tag(4)] Tag(5,6) Suc.prems(2,4) by simp_all
      obtain b c2 w2 where f: "SkipField_out n ops host oops tag c1 w = Inr (b, c2, w2)" "wok w2"
        "field_post (\<lambda>u. put_items oops (unknown_items u) w = Inr w2) ok bytes lastb c1 tag b c2"
        using SkipField_out_law [OF put Suc.prems(5) Suc.IH c1(1,2) Tag(8) c1(3)] unfolding saves_field_def by blast
      show ?thesis
      proof (cases b)
        case b: True
        then have f': "field_post (\<lambda>u. put_items oops (unknown_items u) w = Inr w2) ok bytes lastb c1 tag True c2"
          using f(3) by simp
        then obtain u j where u: "moved ok bytes lastb j c1 c2" "\<not> ci_legitimate_message_end c2"
          by (auto simp: field_post_def)
        have "saves_message oops wok ok bytes lastb c2 w2 (SkipMessage_out n ops host oops c2 w2)"
          using movedD [OF u(1)] u(2) c1 f(2) by (intro Suc.IH) simp_all
        then obtain m c' w' where m: "SkipMessage_out n ops host oops c2 w2 = Inr (m, c', w')" "wok w'"
          "message_post (\<lambda>us e. put_items oops (concat (map unknown_items us) @ ending_items e) w2 = Inr w') ok bytes lastb c2 m c'"
          unfolding saves_message_def by blast
        have "message_post (\<lambda>us e. put_items oops (concat (map unknown_items us) @ ending_items e) w = Inr w') ok bytes lastb c m c'"
          by (rule message_post_next [OF Tag(1,2,4,6) f' m(3)]) (simp add: put_items_append)
        then show ?thesis
          using Tag(2,3) False f(1) b m(1,2) by (simp add: SkipMessage_out.simps)
      next
        case b: False
        then have "field_post (\<lambda>u. put_items oops (unknown_items u) w = Inr w2) ok bytes lastb c1 tag False c2"
          using f(3) by simp
        from message_post_bad_field [OF Tag(1,2) False Tag(4) this] show ?thesis
          using Tag(2,3) False f(1,2) b by (simp add: SkipMessage_out.simps)
      qed
    qed
  qed
qed simp

end

end
