(* ===== verification/Wire_Skip_Props.thy ===== *)
theory Wire_Skip_Props
  imports Wire_Skip
begin

text \<open>
  What skipping promises: both versions accept the same messages, the saved bytes are never longer than the
  bytes skipped, and they hold the same unknown fields. Unknown values of enumerations are the exception.
\<close>

unbundle bit_operations_syntax

section \<open>Saved fields are no longer than the originals\<close>

lemma varint_loop_shortest:
  fixes w :: "'a::len word"
  assumes "7 < LENGTH('a)" and "unat w < 2 ^ (7 * k)" and "0 < k"
  shows "length (varint_loop w) \<le> k"
  using assms(2,3)
proof (induction w arbitrary: k rule: varint_loop.induct)
  case (1 w)
  show ?case
  proof (cases "w > 0x7F")
    case True
    then have "127 < unat w"
      unfolding word_less_nat_alt unat_7F [OF assms(1)] .
    with 1 obtain j where k: "k = Suc j" "0 < j"
      by (cases k; cases "k = 1") auto
    have "unat (drop_bit 7 w) < 2 ^ (7 * j)"
      using 1(2) by (simp add: k unat_shr less_mult_imp_div_less power_add mult.commute)
    then show ?thesis
      using 1(1) [OF True, of j] True k by (simp add: varint_loop.simps [of w])
  next
    case False
    then show ?thesis
      using 1(3) by (simp add: varint_loop.simps [of w])
  qed
qed

lemma varint_result_shortest:
  assumes "varint_result A = Some (w :: 'a::len word, k)" and "7 < LENGTH('a)"
  shows "length (varint_loop w) \<le> k"
proof -
  obtain g where "w = of_nat (varint_nat g)" "length g = k"
    using assms(1) by (auto simp: varint_result_def)
  then have "unat w \<le> varint_nat g"
    by (simp add: unat_of_nat)
  then have "unat w < 2 ^ (7 * k)"
    using varint_nat_bound [of g] \<open>length g = k\<close> by simp
  then show ?thesis
    using varint_loop_shortest [OF assms(2)] varint_result_length [OF assms(1)] by blast
qed

lemmas shortest_varints =
  varint_result_shortest [where 'a = 32, simplified] varint_result_shortest [where 'a = 64, simplified]

definition field_length :: "unknown \<Rightarrow> nat" where
  "field_length u = length (concat (map encode (unknown_items u)))"

definition message_length :: "unknown list \<Rightarrow> ending \<Rightarrow> nat" where
  "message_length us e = length (concat (map encode (concat (map unknown_items us) @ ending_items e)))"

lemma message_length_simps [simp]:
  "message_length (u # us) e = field_length u + message_length us e"
  "message_length [] e = length (concat (map encode (ending_items e)))"
  by (simp_all add: message_length_def field_length_def)

lemma parse_shortest:
  "parse_field d tag A u B \<Longrightarrow> length B \<le> length A \<and> field_length u + length B \<le> length (varint_loop tag) + length A"
  "parse_message d A us e B \<Longrightarrow> length B \<le> length A \<and> message_length us e + length B \<le> length A"
proof (induction rule: parse_field_parse_message.inducts)
  case (parse_varint tag A v k d)
  then show ?case
    using shortest_varints(2) [of A v k] varint_result_length [of A v k] by (simp add: field_length_def)
next
  case (parse_delimited tag A len k m d)
  have "length (take m (drop k A)) = m" "of_nat m = len"
    using parse_delimited.hyps(3-5) by simp_all
  then have "field_length (UDelimited tag (take m (drop k A))) = length (varint_loop tag) + length (varint_loop len) + m"
    by (simp add: field_length_def)
  then show ?case
    using parse_delimited.hyps(2,5) shortest_varints(1) [of A len k] by simp
next
  case (parse_group tag d A us B)
  then show ?case
    by (simp add: field_length_def message_length_def)
next
  case (parse_end_tag A tag k d)
  then show ?case
    using shortest_varints(1) [of A tag k] varint_result_length [of A tag k] by simp
next
  case (parse_next A tag k d u B us e C)
  have "length (varint_loop tag) \<le> k" "k \<le> length A"
    using shortest_varints(1) [OF parse_next.hyps(1)] varint_result_length [OF parse_next.hyps(1)] by simp_all
  then show ?case
    using parse_next.IH unfolding length_drop message_length_simps by linarith
qed (simp_all add: field_length_def)

section \<open>Saved fields parse again\<close>

lemma varint_again:
  "varint_result (varint_loop (t :: uint32) @ ys) = Some (t, length (varint_loop t))"
  "varint_result (varint_loop (v :: uint64) @ ys) = Some (v, length (varint_loop v))"
  by (simp_all add: varint_result_loops)

lemma parse_again:
  "parse_field d tag A u B \<Longrightarrow>
     \<exists>bs. concat (map encode (unknown_items u)) = varint_loop tag @ bs \<and> (\<forall>Y. parse_field d tag (bs @ Y) u Y)"
  "parse_message d A us e B \<Longrightarrow>
     (e = At_end \<longrightarrow> parse_message d (unknown_bytes us) us At_end []) \<and>
     (\<forall>t Y. e = At_tag t \<longrightarrow> parse_message d (unknown_bytes us @ varint_loop t @ Y) us e Y)"
proof (induction rule: parse_field_parse_message.inducts)
  case (parse_varint tag A v k d)
  have "parse_field d tag (varint_loop v @ Y) (UVarint tag v) Y" for Y
    using parse_field_parse_message.parse_varint [OF parse_varint.hyps(1) varint_again(2) [of v Y], of d] by simp
  then show ?case by simp
next
  case (parse_fixed64 tag A d)
  have "parse_field d tag (le_bytes 8 w @ Y) (UFixed64 tag w) Y" for w :: uint64 and Y
    using parse_field_parse_message.parse_fixed64 [OF parse_fixed64.hyps(1), of "le_bytes 8 w @ Y" d]
    by (simp add: le_word_le_bytes)
  then show ?case by simp
next
  case (parse_delimited tag A len k m d)
  let ?bs = "take m (drop k A)"
  have m: "length ?bs = m" "of_nat m = len"
    using parse_delimited.hyps(3-5) by simp_all
  have "parse_field d tag ((varint_loop len @ ?bs) @ Y) (UDelimited tag ?bs) Y" for Y
    using parse_field_parse_message.parse_delimited [OF parse_delimited.hyps(1) varint_again(1) [of len "?bs @ Y"]
        parse_delimited.hyps(3,4), of d] m(1) by simp
  then show ?case
    using m by (auto intro!: exI [of _ "varint_loop len @ ?bs"])
next
  case (parse_group tag d A us B)
  have "parse_field d tag ((unknown_bytes us @ varint_loop (group_end_tag tag)) @ Y) (UGroup tag us) Y" for Y
    using parse_group.IH parse_field_parse_message.parse_group [OF parse_group.hyps(1,2)] by simp
  then show ?case
    by (auto simp: unknown_bytes_def intro!: exI [of _ "unknown_bytes us @ varint_loop (group_end_tag tag)"])
next
  case (parse_fixed32 tag A d)
  have "parse_field d tag (le_bytes 4 w @ Y) (UFixed32 tag w) Y" for w :: uint32 and Y
    using parse_field_parse_message.parse_fixed32 [OF parse_fixed32.hyps(1), of "le_bytes 4 w @ Y" d]
    by (simp add: le_word_le_bytes)
  then show ?case by simp
next
  case (parse_end_tag A tag k d)
  then show ?case
    using parse_field_parse_message.parse_end_tag [OF varint_again(1) [of tag] parse_end_tag.hyps(2), of d]
    by (simp add: unknown_bytes_def)
next
  case (parse_next A tag k d u B us e C)
  obtain bs where bs: "concat (map encode (unknown_items u)) = varint_loop tag @ bs" "\<And>Y. parse_field d tag (bs @ Y) u Y"
    using parse_next.IH(1) by blast
  have u: "unknown_bytes (u # us) = varint_loop tag @ bs @ unknown_bytes us"
    using bs(1) by (simp add: unknown_bytes_def)
  have "parse_message d (varint_loop tag @ bs @ Z) (u # us) e Y" if "parse_message d Z us e Y" for Z Y
    by (rule parse_field_parse_message.parse_next [OF varint_again(1) parse_next.hyps(2) _ that]) (simp add: bs(2))
  then show ?case
    using parse_next.IH(2) unfolding u by auto
qed (auto simp: unknown_bytes_def intro: parse_field_parse_message.parse_end)

section \<open>The contract\<close>

inductive_simps parse_message_Cons: "parse_message d A (u # us) e B"

text \<open>
  C12. \<^verbatim>\<open>SkipMessage\<close> over any stream, with a bound above the number of available bytes, returns without a fault. It
  succeeds exactly if the available bytes parse as a message whose groups are nested no deeper than the recursion limit
  allows, each closed by its own end tag; it then stands behind the message, and \<^verbatim>\<open>LastTagWas\<close> and
  \<^verbatim>\<open>ConsumedEntireMessage\<close> tell how the message ended. The recursion depth is as before.
\<close>

theorem skip_message_parses:
  assumes "zero_copy_source ops ok bytes lastb gap" and "coded_ok ok lastb c" and "0 \<le> ci_recursion_depth c"
    and "\<not> ConsumedEntireMessage c" and "length (avail bytes lastb c) < n"
    and "A = avail bytes lastb c" and "d = ci_recursion_limit c - ci_recursion_depth c"
  shows "\<exists>b c'. SkipMessage n ops host c = Inr (b, c') \<and> coded_ok ok lastb c' \<and>
    b = (\<exists>us e B. parse_message d A us e B) \<and>
    (b \<longrightarrow> ci_recursion_depth c' = ci_recursion_depth c \<and>
      (\<exists>us e. parse_message d A us e (avail bytes lastb c') \<and> LastTagWas (ending_tag e) c' \<and>
        ConsumedEntireMessage c' = (e = At_end \<and> legitimate_end c')))"
proof -
  obtain b c' where s: "SkipMessage n ops host c = Inr (b, c')" "message_post (\<lambda>us e. True) ok bytes lastb c b c'"
    using zero_copy_source.SkipMessage_law [OF assms(1-3) _ assms(5)] assms(4) unfolding ConsumedEntireMessage_def by blast
  have d: "depth_left c = d"
    by (simp add: depth_left_def assms(7))
  show ?thesis
  proof (cases b)
    case True
    then obtain us e k where p: "parse_message d A us e (drop k A)" "moved ok bytes lastb k c c'"
      "ci_last_tag c' = ending_tag e" "ci_legitimate_message_end c' = (e = At_end \<and> legitimate_end c')"
      using s(2) unfolding message_post_def d assms(6) [symmetric] by auto
    then show ?thesis
      using s(1) True movedD [OF p(2)] assms(6) unfolding LastTagWas_def ConsumedEntireMessage_def by auto
  next
    case False
    then show ?thesis
      using s unfolding message_post_def d assms(6) [symmetric] by auto
  qed
qed

lemma noncanonical_varint:
  "varint_result [8, 0x85, 0] = Some (8 :: uint32, 1)" "varint_result [0x85, 0] = Some (5 :: uint64, 2)"
  by code_simp+

lemma noncanonical_message: "parse_message d [8, 0x85, 0] [UVarint 8 5] At_end []"
proof (rule parse_next [OF noncanonical_varint(1)])
  show "parse_field d 8 (drop 1 [8, 0x85, 0]) (UVarint 8 5) []"
    using parse_varint [OF _ noncanonical_varint(2), of 8 d] by (simp add: GetTagWireType_def kTagTypeMask_def kTagTypeBits_def)
qed (simp_all add: parse_end)

lemma noncanonical_iff:
  "parse_message d [8, 0x85, 0] us e B \<longleftrightarrow> us = [UVarint 8 5] \<and> e = At_end \<and> B = []"
  using noncanonical_message [of d] parse_unique(2) [OF noncanonical_message, of d us e B] by auto

theorem skip_message_parses_witness:
  "\<exists>c'. SkipMessage 4 array_input LittleEndian (CodedInputStream_array [8, 0x85, 0] 3) = Inr (True, c') \<and>
     avail array_bytes array_last c' = []"
proof -
  let ?c = "CodedInputStream_array [8, 0x85, 0] 3 :: ArrayInputStream CodedInputStream"
  have c: "coded_ok array_ok array_last ?c" "avail array_bytes array_last ?c = [8, 0x85, 0]"
    using flat_reader_ok [of "[8, 0x85, 0]"] by simp_all
  have r: "0 \<le> ci_recursion_depth ?c" "\<not> ConsumedEntireMessage ?c" "length (avail array_bytes array_last ?c) < 4"
    unfolding c(2) by (simp_all add: CodedInputStream_array_def ConsumedEntireMessage_def)
  show ?thesis
    using skip_message_parses [OF arr.zero_copy_source_axioms c(1) r c(2) [symmetric] refl, of LittleEndian]
    unfolding noncanonical_iff by auto
qed

lemma saved_message:
  assumes sink: "zero_copy_sink oops ook out held ogap cap" and w0: "writer_ok ook out held start w0" "\<not> co_had_error w0"
    and room: "length (written out w0) + length (avail bytes lastb c) \<le> cap (co_output w0)"
    and m: "message_post (\<lambda>us e. put_items oops (concat (map unknown_items us) @ ending_items e) w0 = Inr w) ok bytes lastb c True c'"
  shows "\<exists>us e E. parse_message (depth_left c) (avail bytes lastb c) us e (avail bytes lastb c') \<and>
    E = unknown_bytes us @ concat (map encode (ending_items e)) \<and> written out w = written out w0 @ E \<and>
    length E + length (avail bytes lastb c') \<le> length (avail bytes lastb c) \<and>
    (e = At_end \<longrightarrow> parse_message (depth_left c) E us At_end [])"
proof -
  obtain us e k where p: "parse_message (depth_left c) (avail bytes lastb c) us e (drop k (avail bytes lastb c))"
    "moved ok bytes lastb k c c'" "put_items oops (concat (map unknown_items us) @ ending_items e) w0 = Inr w"
    using m unfolding message_post_def by auto
  let ?E = "unknown_bytes us @ concat (map encode (ending_items e))"
  have E: "concat (map encode (concat (map unknown_items us) @ ending_items e)) = ?E"
    by (simp add: unknown_bytes_def)
  have a: "avail bytes lastb c' = drop k (avail bytes lastb c)"
    by (rule movedD(2) [OF p(2)])
  have len: "length ?E + length (drop k (avail bytes lastb c)) \<le> length (avail bytes lastb c)"
    using parse_shortest(2) [OF p(1)] unfolding message_length_def E by blast
  have "written out w = written out w0 @ ?E"
    using zero_copy_sink.put_items_law [OF sink w0(1), of "concat (map unknown_items us) @ ending_items e"]
      p(3) w0(2) len room unfolding E by auto
  then show ?thesis
    using p(1) len parse_again(2) [OF p(1)] unfolding a by (intro exI [of _ us] exI [of _ e] exI [of _ ?E]) auto
qed

text \<open>
  C11. The version of \<^verbatim>\<open>SkipMessage\<close> that saves what it skips, on any input stream and on any output stream with room for as many bytes as
  are available to read: it gives the same verdict as the plain one. If it succeeds, exactly the fields parsed
  and the tag that ended the message are saved, in their shortest encoding, in no more bytes than were skipped; and a
  message that ended with its input parses to the same fields when it is read from the saved bytes.
\<close>

theorem skip_saves_unknown:
  assumes "zero_copy_source ops ok bytes lastb gap" and "coded_ok ok lastb c" and "0 \<le> ci_recursion_depth c"
    and "\<not> ConsumedEntireMessage c" and "length (avail bytes lastb c) < n"
    and "zero_copy_sink oops ook out held ogap cap" and "ook s" and "length (out s) + length (avail bytes lastb c) \<le> cap s"
    and "A = avail bytes lastb c" and "d = ci_recursion_limit c - ci_recursion_depth c"
  shows "\<exists>w0 b c' w s'. CodedOutputStream_ctor oops s = Inr w0 \<and>
    SkipMessage_out n ops host oops c w0 = Inr (b, c', w) \<and> CodedOutputStream_dtor oops w = Inr s' \<and>
    b = (\<exists>us e B. parse_message d A us e B) \<and>
    (b \<longrightarrow> (\<exists>us e E. parse_message d A us e (avail bytes lastb c') \<and>
       E = unknown_bytes us @ concat (map encode (ending_items e)) \<and> out s' = out s @ E \<and>
       length E + length (avail bytes lastb c') \<le> length A \<and>
       (e = At_end \<longrightarrow> parse_message d E us At_end [])))"
proof -
  let ?wok = "writer_ok ook out held (length (out s))"
  obtain w0 where w0: "CodedOutputStream_ctor oops s = Inr w0" "?wok w0" "written out w0 = out s" "\<not> co_had_error w0"
    "cap (co_output w0) = cap s"
    using zero_copy_sink.ctor_law [OF assms(6,7)] by blast
  have put: "\<And>x w. ?wok w \<Longrightarrow> \<exists>w'. put_item oops x w = Inr w' \<and> ?wok w'"
    using zero_copy_sink.put_item_law [OF assms(6)] unfolding appends_def by blast
  have flag: "\<not> ci_legitimate_message_end c"
    using assms(4) by (simp add: ConsumedEntireMessage_def)
  obtain b c' w where s: "SkipMessage_out n ops host oops c w0 = Inr (b, c', w)" "?wok w"
    "message_post (\<lambda>us e. put_items oops (concat (map unknown_items us) @ ending_items e) w0 = Inr w) ok bytes lastb c b c'"
    using zero_copy_source.SkipMessage_out_law [OF assms(1) put assms(2,3) flag assms(5) w0(2), of host]
    unfolding saves_message_def by blast
  obtain s' where s': "CodedOutputStream_dtor oops w = Inr s'" "out s' = written out w"
    using zero_copy_sink.dtor_law [OF assms(6) s(2)] by blast
  have d: "depth_left c = d"
    by (simp add: depth_left_def assms(10))
  show ?thesis
  proof (cases b)
    case True
    then show ?thesis
      using saved_message [OF assms(6) w0(2,4) _ s(3) [unfolded True [THEN eqTrueI]]] w0 s(1) s' assms(8) d
      unfolding assms(9) [symmetric] by auto
  next
    case False
    then show ?thesis
      using w0(1) s s' unfolding message_post_def d assms(9) [symmetric] by auto
  qed
qed

theorem skip_saves_unknown_witness:
  "\<exists>w0 c' w s'. CodedOutputStream_ctor array_output (ArrayOutputStream_ctor (replicate 8 0) 8 1) = Inr w0 \<and>
     SkipMessage_out 4 array_input BigEndian array_output (CodedInputStream_array [8, 0x85, 0] 3) w0 = Inr (True, c', w) \<and>
     CodedOutputStream_dtor array_output w = Inr s' \<and> array_out s' = [8, 5]"
proof -
  let ?c = "CodedInputStream_array [8, 0x85, 0] 3 :: ArrayInputStream CodedInputStream"
  have c: "coded_ok array_ok array_last ?c" "avail array_bytes array_last ?c = [8, 0x85, 0]"
    using flat_reader_ok [of "[8, 0x85, 0]"] by simp_all
  have r: "0 \<le> ci_recursion_depth ?c" "\<not> ConsumedEntireMessage ?c" "length (avail array_bytes array_last ?c) < 4"
    unfolding c(2) by (simp_all add: CodedInputStream_array_def ConsumedEntireMessage_def)
  let ?s = "ArrayOutputStream_ctor (replicate 8 0) 8 1"
  have ok: "array_out_ok ?s"
    by (rule array_out_ctor(1)) (simp_all add: INT_MAX_def)
  have bytes: "unknown_bytes [UVarint 8 5] = [8, 5]"
    by (simp add: unknown_bytes_def varint_loop.simps)
  have room: "length (array_out ?s) + length (avail array_bytes array_last ?c) \<le> nat (ao_size ?s)"
    unfolding c(2) array_out_ctor(2) by (simp add: ArrayOutputStream_ctor_def)
  show ?thesis
    using skip_saves_unknown [OF arr.zero_copy_source_axioms c(1) r aout.zero_copy_sink_axioms ok room c(2) [symmetric] refl,
        of BigEndian]
    unfolding noncanonical_iff array_out_ctor(2) by (auto simp: bytes)
qed

text \<open>A field number taken for a tag.\<close>

lemma number_is_no_tag:
  assumes "0 < n" and "n < 2 ^ 29"
  shows "GetTagFieldNumber n = n div 8" and "n div 8 \<noteq> n" and "MakeTag n WIRETYPE_VARINT \<noteq> n"
proof -
  have div: "drop_bit 3 n = n div 8"
    by (simp add: drop_bit_eq_div)
  have n: "0 < unat n" "unat (n div 8) = unat n div 8"
    using assms(1) by (simp_all add: unat_gt_0 unat_div)
  have ne: "n div 8 \<noteq> n"
  proof
    assume "n div 8 = n"
    with n have "unat n div 8 = unat n" by simp
    with n(1) show False by simp
  qed
  have mk: "MakeTag n WIRETYPE_VARINT \<noteq> n"
  proof
    assume "MakeTag n WIRETYPE_VARINT = n"
    then have "GetTagFieldNumber n = take_bit 29 n"
      using GetTagFieldNumber_MakeTag [of n WIRETYPE_VARINT] by simp
    also have "\<dots> = n"
      using field_tag_parts(1) [OF assms(2)] GetTagFieldNumber_MakeTag [of n] by (simp add: field_tag_def)
    finally show False
      using ne div by (simp add: GetTagFieldNumber_def kTagTypeBits_def)
  qed
  show "GetTagFieldNumber n = n div 8" and "n div 8 \<noteq> n" and "MakeTag n WIRETYPE_VARINT \<noteq> n"
    using div ne mk by (simp_all add: GetTagFieldNumber_def kTagTypeBits_def)
qed

text \<open>
  C40. An unknown value of an enumeration is not saved as a field that can be read back: \<^verbatim>\<open>SkipUnknownEnum\<close> writes the field number where
  a tag belongs. The saved bytes start with a tag of another field number, namely an eighth of it, and of whatever wire
  type the lower bits of the number stand for; they never parse as the varint field that was skipped.
\<close>

theorem unknown_enum_misfiled:
  assumes "zero_copy_sink oops ook out held ogap cap" and "ook s" and "length (out s) + 15 \<le> cap s"
    and "0 < n" and "n < 2 ^ 29"
  shows "\<exists>w k s' E. CodedOutputStream_ctor oops s = Inr w \<and>
    CodedOutputStreamFieldSkipper_SkipUnknownEnum oops n v \<lparr>unknown_fields = w\<rparr> = Inr k \<and>
    CodedOutputStream_dtor oops (unknown_fields k) = Inr s' \<and> out s' = out s @ E \<and>
    tag_of E = n \<and> GetTagFieldNumber (tag_of E) = n div 8 \<and> n div 8 \<noteq> n \<and>
    (\<forall>d us e B. \<not> parse_message d E (UVarint (MakeTag n WIRETYPE_VARINT) (scast v) # us) e B)"
proof -
  let ?E = "varint_loop n @ varint_loop (scast v :: uint64)"
  obtain w where w: "CodedOutputStream_ctor oops s = Inr w" "writer_ok ook out held (length (out s)) w"
    "written out w = out s" "\<not> co_had_error w" "cap (co_output w) = cap s"
    using zero_copy_sink.ctor_law [OF assms(1,2)] by blast
  have room: "length (out s) + length ?E \<le> cap s"
    using assms(3) length_varint_loop_max(1) [of "scast v"] length_varint_loop_max(2) [of n] by simp
  obtain w' where w': "put_items oops [Varint32 n, Varint64 (scast v)] w = Inr w'"
    "writer_ok ook out held (length (out s)) w'" "written out w' = out s @ ?E"
    using zero_copy_sink.put_items_law [OF assms(1) w(2), of "[Varint32 n, Varint64 (scast v)]"] w(3-5) room by auto
  have k: "CodedOutputStreamFieldSkipper_SkipUnknownEnum oops n v \<lparr>unknown_fields = w\<rparr> = Inr \<lparr>unknown_fields = w'\<rparr>"
    using w'(1) by (auto simp: CodedOutputStreamFieldSkipper_SkipUnknownEnum_def rbind_eq_Inr)
  obtain s' where s': "CodedOutputStream_dtor oops w' = Inr s'" "out s' = out s @ ?E"
    using zero_copy_sink.dtor_law [OF assms(1) w'(2)] w'(3) by auto
  have tag: "varint_result ?E = Some (n, length (varint_loop n))"
    by (rule varint_again(1))
  have "\<not> parse_message d ?E (UVarint (MakeTag n WIRETYPE_VARINT) (scast v) # us) e B" for d us e B
    using tag number_is_no_tag(3) [OF assms(4,5)] by (auto simp: parse_message_Cons elim: parse_field_cases)
  then show ?thesis
    using w(1) k s' tag_of_Some [OF tag] number_is_no_tag(1,2) [OF assms(4,5)]
    by (intro exI [of _ w] exI [of _ "\<lparr>unknown_fields = w'\<rparr>"] exI [of _ s'] exI [of _ ?E]) simp
qed

theorem unknown_enum_misfiled_witness:
  "\<exists>w k s' E. CodedOutputStream_ctor array_output (ArrayOutputStream_ctor (replicate 16 0) 16 4) = Inr w \<and>
     CodedOutputStreamFieldSkipper_SkipUnknownEnum array_output 9 3 \<lparr>unknown_fields = w\<rparr> = Inr k \<and>
     CodedOutputStream_dtor array_output (unknown_fields k) = Inr s' \<and> array_out s' = E \<and> GetTagFieldNumber (tag_of E) = 1"
proof -
  have ok: "array_out_ok (ArrayOutputStream_ctor (replicate 16 0) 16 4)"
    by (rule array_out_ctor(1)) (simp_all add: INT_MAX_def)
  show ?thesis
    using unknown_enum_misfiled [OF aout.zero_copy_sink_axioms ok, of 9 3] unfolding array_out_ctor(2)
    by (auto simp: ArrayOutputStream_ctor_def)
qed

end
