(* ===== verification/Atomic_Int.thy ===== *)
theory Atomic_Int
  imports Airnet_Prelude
begin

text \<open>
  Atomic integers (\<^verbatim>\<open>src/common/base/atomic.h\<close>). Each member makes exactly one call of a
  \<^verbatim>\<open>__sync\<close> builtin, which is one atomic step on the shared word; an interleaving of members is thus
  a sequence of calls. The builtins wrap around; the addition that \<^verbatim>\<open>add_and_get\<close> makes on the value
  returned is an ordinary one, undefined when it overflows a signed type.
\<close>

datatype signedness = Signed | Unsigned

record 'a AtomicIntegerT =
  at_value :: 'a

definition AtomicIntegerT_ctor :: "('a::len word) AtomicIntegerT" where
  "AtomicIntegerT_ctor = \<lparr>at_value = 0\<rparr>"

text \<open>The three builtins, each giving the old value.\<close>

definition sync_val_compare_and_swap :: "'a::len word \<Rightarrow> 'a word \<Rightarrow> 'a word AtomicIntegerT \<Rightarrow> 'a word \<times> 'a word AtomicIntegerT" where
  "sync_val_compare_and_swap oldval newval a = (at_value a, if at_value a = oldval then a\<lparr>at_value := newval\<rparr> else a)"

definition sync_fetch_and_add :: "'a::len word \<Rightarrow> 'a word AtomicIntegerT \<Rightarrow> 'a word \<times> 'a word AtomicIntegerT" where
  "sync_fetch_and_add x a = (at_value a, a\<lparr>at_value := at_value a + x\<rparr>)"

definition sync_lock_test_and_set :: "'a::len word \<Rightarrow> 'a word AtomicIntegerT \<Rightarrow> 'a word \<times> 'a word AtomicIntegerT" where
  "sync_lock_test_and_set x a = (at_value a, a\<lparr>at_value := x\<rparr>)"

definition atomic_get :: "'a::len word AtomicIntegerT \<Rightarrow> 'a word \<times> 'a word AtomicIntegerT" where
  "atomic_get a = sync_val_compare_and_swap 0 0 a"

definition get_and_add :: "'a::len word \<Rightarrow> 'a word AtomicIntegerT \<Rightarrow> 'a word \<times> 'a word AtomicIntegerT" where
  "get_and_add x a = sync_fetch_and_add x a"

definition add_and_get :: "signedness \<Rightarrow> 'a::len word \<Rightarrow> 'a word AtomicIntegerT \<Rightarrow> ('a word \<times> 'a word AtomicIntegerT) result" where
  "add_and_get sg x a =
     (let (old, a') = get_and_add x a in
      if sg = Signed \<and> sint (old + x) \<noteq> sint old + sint x then Inl UndefinedBehaviour else Inr (old + x, a'))"

definition increment_and_get :: "signedness \<Rightarrow> 'a::len word AtomicIntegerT \<Rightarrow> ('a word \<times> 'a word AtomicIntegerT) result" where
  "increment_and_get sg a = add_and_get sg 1 a"

definition decrement_and_get :: "signedness \<Rightarrow> 'a::len word AtomicIntegerT \<Rightarrow> ('a word \<times> 'a word AtomicIntegerT) result" where
  "decrement_and_get sg a = add_and_get sg (- 1) a"

definition atomic_add :: "'a::len word \<Rightarrow> 'a word AtomicIntegerT \<Rightarrow> 'a word AtomicIntegerT" where
  "atomic_add x a = snd (get_and_add x a)"

definition increment :: "signedness \<Rightarrow> 'a::len word AtomicIntegerT \<Rightarrow> 'a word AtomicIntegerT result" where
  "increment sg a = rbind (increment_and_get sg a) (\<lambda>(_, a). Inr a)"

definition decrement :: "signedness \<Rightarrow> 'a::len word AtomicIntegerT \<Rightarrow> 'a word AtomicIntegerT result" where
  "decrement sg a = rbind (decrement_and_get sg a) (\<lambda>(_, a). Inr a)"

definition get_and_set :: "'a::len word \<Rightarrow> 'a word AtomicIntegerT \<Rightarrow> 'a word \<times> 'a word AtomicIntegerT" where
  "get_and_set newValue a = sync_lock_test_and_set newValue a"

section \<open>Tickets\<close>

text \<open>The values that a sequence of \<open>n\<close> increments returns, by whichever threads.\<close>

primrec tickets :: "nat \<Rightarrow> 'a::len word AtomicIntegerT \<Rightarrow> ('a word list \<times> 'a word AtomicIntegerT) result" where
  "tickets 0 a = Inr ([], a)"
| "tickets (Suc n) a =
     rbind (increment_and_get Unsigned a) (\<lambda>(t, a). rbind (tickets n a) (\<lambda>(ts, a). Inr (t # ts, a)))"

lemma increment_and_get_unsigned:
  "increment_and_get Unsigned a = Inr (at_value a + 1, \<lparr>at_value = at_value a + 1\<rparr>)"
  by (simp add: increment_and_get_def add_and_get_def get_and_add_def sync_fetch_and_add_def)

lemma tickets_eq:
  "tickets n a = Inr (map (\<lambda>i. at_value a + of_nat (Suc i)) [0..<n], \<lparr>at_value = at_value a + of_nat n\<rparr>)"
proof (induction n arbitrary: a)
  case 0
  then show ?case by simp
next
  case (Suc n)
  have "map (\<lambda>i. at_value a + of_nat (Suc i)) [0..<Suc n] =
      (at_value a + 1) # map (\<lambda>i. at_value a + 1 + of_nat (Suc i)) [0..<n]"
    by (simp add: map_upt_Suc algebra_simps del: upt_Suc)
  then show ?case
    by (simp add: increment_and_get_unsigned Suc algebra_simps del: upt_Suc)
qed

text \<open>
  Fewer increments than the type has values return pairwise different tickets, in whatever order
  threads make them, and the counter ends at their number; reading the counter does not change it.
\<close>

theorem tickets_distinct:
  assumes "n \<le> 2 ^ LENGTH('a)"
  shows "\<exists>ts. tickets n (a :: 'a::len word AtomicIntegerT) = Inr (ts, \<lparr>at_value = at_value a + of_nat n\<rparr>) \<and>
    distinct ts \<and> length ts = n \<and> atomic_get a = (at_value a, a)"
proof -
  have "inj_on (\<lambda>i. at_value a + of_nat (Suc i) :: 'a word) {0..<n}"
  proof (rule inj_onI)
    fix i j
    assume ij: "i \<in> {0..<n}" "j \<in> {0..<n}" "at_value a + of_nat (Suc i) = (at_value a + of_nat (Suc j) :: 'a word)"
    then have "(of_nat i :: 'a word) = of_nat j"
      by simp
    then show "i = j"
      using ij(1,2) assms by (simp add: of_nat_inverse [of i] word_of_nat_eq_iff take_bit_nat_eq_self)
  qed
  then show ?thesis
    by (auto simp: tickets_eq distinct_map atomic_get_def sync_val_compare_and_swap_def)
qed

text \<open>At the largest signed value the increment is undefined.\<close>

lemma increment_signed_overflow:
  "increment_and_get Signed \<lparr>at_value = 0x7FFFFFFF :: int32\<rparr> = Inl UndefinedBehaviour"
  by (simp add: increment_and_get_def add_and_get_def get_and_add_def sync_fetch_and_add_def)

end
