(* ===== verification/Singleton.thy ===== *)
theory Singleton
  imports Airnet_Prelude
begin

text \<open>
  The singleton template (\<^verbatim>\<open>src/singleton.h\<close>): the module-wide lock, and the life of the function-local
  static object, which is constructed by the first access and destroyed once at exit.
\<close>

record 'a Singleton =
  sg_lock :: bool
  sg_object :: "'a option" \<comment> \<open>the static \<^verbatim>\<open>t\<close>, once constructed\<close>
  sg_is_destroyed :: bool

definition Singleton_init :: "'a Singleton" where
  "Singleton_init = \<lparr>sg_lock = False, sg_object = None, sg_is_destroyed = False\<rparr>"

definition singleton_lock :: "'a Singleton \<Rightarrow> 'a Singleton" where
  "singleton_lock s = s\<lparr>sg_lock := True\<rparr>"

definition singleton_unlock :: "'a Singleton \<Rightarrow> 'a Singleton" where
  "singleton_unlock s = s\<lparr>sg_lock := False\<rparr>"

definition is_locked :: "'a Singleton \<Rightarrow> bool" where
  "is_locked s = sg_lock s"

definition is_destroyed :: "'a Singleton \<Rightarrow> bool" where
  "is_destroyed s = sg_is_destroyed s"

definition SingletonWrapper_dtor :: "'a Singleton \<Rightarrow> 'a Singleton" where
  "SingletonWrapper_dtor s = s\<lparr>sg_is_destroyed := True\<rparr>"

definition get_instance :: "'a \<Rightarrow> 'a Singleton \<Rightarrow> ('a \<times> 'a Singleton) result" where
  "get_instance fresh s =
     (let t = (case sg_object s of None \<Rightarrow> fresh | Some t \<Rightarrow> t);
          s = s\<lparr>sg_object := Some t\<rparr> in
      rbind (ensure (\<not> sg_is_destroyed s) AssertFailed) (\<lambda>_. Inr (t, s)))"

definition get_mutable_instance :: "'a \<Rightarrow> 'a Singleton \<Rightarrow> ('a \<times> 'a Singleton) result" where
  "get_mutable_instance fresh s = rbind (ensure (\<not> is_locked s) AssertFailed) (\<lambda>_. get_instance fresh s)"

definition get_const_instance :: "'a \<Rightarrow> 'a Singleton \<Rightarrow> ('a \<times> 'a Singleton) result" where
  "get_const_instance fresh s = get_instance fresh s"

text \<open>Two accesses see the same object, whatever a second construction would have made.\<close>

lemma get_instance_unique:
  "get_instance f1 s = Inr (t, s1) \<Longrightarrow> get_instance f2 s1 = Inr (t, s1)"
  by (auto simp: get_instance_def Let_def split: if_splits option.splits)

text \<open>A locked module refuses mutable access only; after the destructor every access aborts.\<close>

lemma singleton_lock_refuses:
  "get_mutable_instance f (singleton_lock s) = Inl AssertFailed"
  "\<not> is_destroyed s \<Longrightarrow> \<exists>t s'. get_const_instance f (singleton_lock s) = Inr (t, s')"
  "get_const_instance f (SingletonWrapper_dtor s) = Inl AssertFailed"
  "get_mutable_instance f (SingletonWrapper_dtor s) = Inl AssertFailed"
  by (simp_all add: get_mutable_instance_def get_const_instance_def get_instance_def singleton_lock_def is_locked_def
      is_destroyed_def SingletonWrapper_dtor_def Let_def)

end
