(* ===== verification/Server_Main.thy ===== *)
theory Server_Main
  imports Airnet_Prelude
begin

text \<open>
  The program (\<^verbatim>\<open>src/main.cpp\<close>, \<^verbatim>\<open>src/global_init.cc\<close>) and the queue entry of received messages
  (\<^verbatim>\<open>src/queue_msg_type.h\<close>). What the operating system does is a parameter: the status of the
  \<^verbatim>\<open>touch\<close> command, the characters that \<^verbatim>\<open>getopt\<close> returns, and for every second spent waiting whether
  SIGINT arrived in it.
\<close>

section \<open>Queue entries\<close>

record 'm QueuedRecvMsg =
  sendback_sid :: int
  msg_ptr :: "'m option"

definition QueuedRecvMsg_default :: "'m QueuedRecvMsg" where
  "QueuedRecvMsg_default = \<lparr>sendback_sid = - 1, msg_ptr = None\<rparr>"

definition QueuedRecvMsg_ctor :: "int \<Rightarrow> 'm option \<Rightarrow> 'm QueuedRecvMsg" where
  "QueuedRecvMsg_ctor sendbackSid msgPtr = \<lparr>sendback_sid = sendbackSid, msg_ptr = msgPtr\<rparr>"

section \<open>Start and stop\<close>

datatype signal_action = DefaultAction | SigbusHandler | IntHandler

record signal_state =
  sig_int :: signal_action
  sig_bus :: signal_action
  sig_block :: "string list" \<comment> \<open>the signals that the process blocks\<close>

text \<open>
  \<^verbatim>\<open>InitSignalProcMask\<close> puts SIGALRM into a local signal set that it never installs; only the handler of
  SIGBUS takes effect, which ends the process with status 0. The function is not called from anywhere.
\<close>

definition sigbus_handler :: "int \<Rightarrow> int" where
  "sigbus_handler _ = 0"

definition InitSignalProcMask :: "signal_state \<Rightarrow> int \<times> signal_state" where
  "InitSignalProcMask s = (let set = [] @ [''SIGALRM''] in (0, s\<lparr>sig_bus := SigbusHandler\<rparr>))"

definition InitServer :: int where
  "InitServer = 0"

definition StopServer :: int where
  "StopServer = 0"

text \<open>What the process prints and calls, in order.\<close>

datatype main_event =
  PrintBye | PrintNotWritable | PrintVersion | PrintUsage string | PrintInitError int | PrintStopError int
| ShutdownProtobufLibrary

datatype outcome = Exit int "main_event list" | Running "main_event list"

definition int_handler :: "main_event list \<Rightarrow> bool \<times> main_event list" where
  "int_handler ev = (True, ev @ [PrintBye])"

definition usage :: "string \<Rightarrow> main_event" where
  "usage name = PrintUsage (''Usage: '' @ name @ '' [-v] [-h] [configurefile]'')"

text \<open>The waiting loop, over the seconds for which the behaviour of the user is given.\<close>

primrec wait_loop :: "bool \<Rightarrow> bool list \<Rightarrow> main_event list \<Rightarrow> bool \<times> main_event list" where
  "wait_loop don [] ev = (don, ev)"
| "wait_loop don (sigint # ss) ev =
     (if don then (don, ev)
      else let (don, ev) = (if sigint then int_handler ev else (don, ev)) in wait_loop don ss ev)"

definition main :: "string \<Rightarrow> int \<Rightarrow> char list \<Rightarrow> bool list \<Rightarrow> signal_state \<Rightarrow> outcome \<times> signal_state" where
  "main name touch_status opts seconds s =
     (let s = s\<lparr>sig_int := IntHandler\<rparr> in
      if touch_status \<noteq> 0 then (Exit (- 1) [PrintNotWritable], s)
      else case opts of
        opt # _ \<Rightarrow> (if opt = CHR ''v'' then Exit 0 [PrintVersion] else Exit 0 [usage name], s)
      | [] \<Rightarrow>
          let ret = InitServer in
          if ret \<noteq> 0 then (Exit ret [PrintInitError ret], s)
          else
            let (don, ev) = wait_loop False seconds [] in
            if \<not> don then (Running ev, s)
            else
              let ret = StopServer in
              if ret \<noteq> 0 then (Exit ret (ev @ [PrintStopError ret]), s)
              else (Exit 0 (ev @ [ShutdownProtobufLibrary]), s))"

lemma wait_loop_don [simp]: "wait_loop True ss ev = (True, ev)"
  by (cases ss) simp_all

lemma wait_loop_eq: "wait_loop False ss ev = (if True \<in> set ss then (True, ev @ [PrintBye]) else (False, ev))"
  by (induction ss) (auto simp: int_handler_def)

text \<open>
  Started without options on a writable file system, the server runs until the first SIGINT, and then
  shuts protocol buffers down and exits with status 0.
\<close>

lemma main_runs_until_sigint:
  "fst (main name 0 [] seconds s) =
     (if True \<in> set seconds then Exit 0 [PrintBye, ShutdownProtobufLibrary] else Running [])"
  by (simp add: main_def InitServer_def StopServer_def wait_loop_eq)

end
