(* ===== verification/Spec2Isabelle.thy ===== *)
theory Spec2Isabelle
  imports Codec_Stream Double_Guard RWLock_Queue Coded_Roundtrip Session_Stream Timer_Queue Wire_Skip_Props Atomic_Int Singleton Server_Main
begin

text \<open>
  \<^bold>\<open>The program.\<close> airnet is a C++ server library: threads share locks and queues (\<^verbatim>\<open>src/src/common/base\<close>),
  protocol buffer messages are framed, checked and dispatched by type (\<^verbatim>\<open>src/src/common/net\<close>), and a session
  sends and receives them over a TCP connection of the bundled reactor library muduo
  (\<^verbatim>\<open>src/3rd_party/muduo\<close>), with the message encoding of the bundled protocol buffers (\<^verbatim>\<open>src/3rd_party/pkg/protobuf-2.6.1\<close>).
  \<^verbatim>\<open>src/src/main.cpp\<close> starts the server and waits for SIGINT.

  \<^bold>\<open>How code is modelled.\<close> A class is a record, a method a function of the record (named like the method,
  with the class in front where the name alone would clash), and everything that can go wrong is a value:
  \<open>fault\<close> in \<open>Airnet_Prelude\<close> lists failed assertions, accesses out of bounds, exceptions, null and dangling
  pointers, undefined behaviour and loops that do not end, and an operation returns \<open>fault + result\<close>.
  Machine integers are words of their width wherever they can wrap. Memory behind pointers is an explicit
  byte list or heap. Threads are interleavings of atomic steps: a critical section, a system call, an
  access to a shared word. Code outside the sources, and what the operating system answers, is a parameter:
  the message library (\<open>message_lib\<close>, \<open>message_types\<close>), the results of \<^verbatim>\<open>read\<close> and \<^verbatim>\<open>write\<close>, the allocator,
  user callbacks, signals.

  \<^bold>\<open>The theories.\<close>
  \<^item> \<open>Airnet_Prelude\<close>: faults, results and their bind, byte memory.
  \<^item> \<open>Endian_Ex\<close>, \<open>StringPiece\<close>: \<^verbatim>\<open>endian_ex.h\<close>, \<^verbatim>\<open>stringpiece.h\<close>; byte order on both kinds of host, comparison
    operators as lexicographic order.
  \<^item> \<open>Buffer_Spec\<close>, \<open>Buffer\<close>: the locale \<open>byte_buffer\<close> (a byte string with room behind and headroom in front) and
    \<^verbatim>\<open>buffer.h\<close>, which is shown to implement it; growth, compaction, integers in network order, line ends.
  \<^item> \<open>Codec_Proto\<close>, \<open>Codec_Stream\<close>: \<^verbatim>\<open>codec_proto.cpp\<close>; every stream of frames, cut anywhere, gives back the
    messages, and arbitrary bytes never make the parser fail or read outside the buffer.
  \<^item> \<open>Dispatcher\<close>: \<^verbatim>\<open>dispatcher_proto.h\<close>; type safety.
  \<^item> \<open>Mutex\<close>, \<open>Double_Guard\<close>, \<open>RWLock\<close>, \<open>RWLock_Queue\<close>: \<^verbatim>\<open>current_thread.h\<close>, \<^verbatim>\<open>mutex.h\<close>, \<^verbatim>\<open>condition.h\<close>, \<^verbatim>\<open>rwlock.h\<close>,
    \<^verbatim>\<open>rwlock_queue.h\<close>; exclusion, freedom from deadlock, and the races of the read-locked queue.
  \<^item> \<open>Monitor\<close>, \<open>Blocking_Queue\<close>: threads running methods under one mutex with conditions, as a step relation with the
    locale \<open>monitor\<close>, and \<^verbatim>\<open>blocking_queue.h\<close> as an instance.
  \<^item> \<open>Atomic_Int\<close>, \<open>Singleton\<close>, \<open>Server_Main\<close>: \<^verbatim>\<open>atomic.h\<close>, \<^verbatim>\<open>singleton.h\<close>, \<^verbatim>\<open>main.cpp\<close>, \<^verbatim>\<open>global_init.cc\<close>,
    \<^verbatim>\<open>queue_msg_type.h\<close>.
  \<^item> \<open>Varint\<close>, \<open>Zero_Copy_Input\<close>, \<open>Coded_Input\<close> with \<open>Coded_Input_Spec\<close>, \<open>Coded_Input_Reads\<close>,
    \<open>Coded_Input_Laws\<close>, \<open>Coded_Input_Limits\<close>, \<open>Coded_Input_Props\<close>, \<open>Zero_Copy_Output\<close>,
    \<open>Coded_Output\<close>, \<open>Coded_Roundtrip\<close>: the varints, zero-copy streams and coded streams of protocol buffers. The locales
    \<open>zero_copy_source\<close> and \<open>zero_copy_sink\<close> are the documented contracts of the stream classes; the array, string,
    limiting and concatenating streams are shown to keep them, and the readers and writers are verified over every
    stream that does.
  \<^item> \<open>Wire_Format\<close>, \<open>Wire_Fields\<close>, \<open>Wire_Skip\<close>, \<open>Wire_Skip_Props\<close>: \<^verbatim>\<open>wire_format_lite.h\<close>, \<^verbatim>\<open>wire_format_lite_inl.h\<close>,
    \<^verbatim>\<open>wire_format_lite.cc\<close> over the coded streams; tags, the zigzag code, fields of every scalar type, and skipping
    unknown fields against a grammar of messages (\<open>parse_message\<close>).
  \<^item> \<open>Channel_Poller\<close>, \<open>Event_Loop\<close>, \<open>Timer_Queue\<close>, \<open>Tcp_Connection\<close>: muduo's channels over epoll, its loop with the
    functor queue, its timers and its connections.
  \<^item> \<open>Session\<close>, \<open>Session_Stream\<close>: \<^verbatim>\<open>session.cpp\<close>, \<^verbatim>\<open>protobuf_session.cpp\<close>; flow control, and the way of
    messages through a session.
  \<^item> This theory: the composition of session, connection, codec and dispatcher.

  \<^bold>\<open>What is shown.\<close> For each component: its invariant is kept by every operation, and what the operations do
  on every branch; refinement of an abstract description (\<open>buffer_refines_fifo\<close>, \<open>coded_reads_refine\<close>,
  \<open>coded_writes_refine\<close>, \<open>skip_message_parses\<close>, \<open>epoll_interest_exact\<close>); round trips (\<open>codec_stream_roundtrip\<close>, \<open>coded_round_trip\<close>,
  \<open>wire_fields_round_trip\<close>, \<open>skip_saves_unknown\<close>, \<open>network_integers_roundtrip\<close>, \<open>session_end_to_end\<close>); safety over all interleavings (\<open>blocking_queue_fifo\<close>,
  \<open>double_guard_no_deadlock\<close>, \<open>no_lost_wakeup\<close>, \<open>tcp_stream_integrity\<close>, \<open>timer_queue_safe\<close>). Several theorems
  describe defects: they say precisely in which situation the code fails (\<open>putAll_lost_wakeup\<close>,
  \<open>rwlock_queue_two_consumers\<close>, \<open>parse_negative_size\<close>, \<open>hangup_after_close_aborts\<close>,
  \<open>session_resume_after_close_aborts\<close>, \<open>unknown_enum_misfiled\<close> and others).

  \<^bold>\<open>Loops and bounds.\<close> Loops are structural recursions or functions with a measure (\<open>ParseMessages\<close>: the readable
  bytes decrease). Loops over streams that might return empty blocks are partial functions; that they return is part of
  the laws, since the contracts give a measure (\<open>gap\<close>) that decreases with every empty block. The theorems on
  frames assume less than \<open>2 ^ 62\<close> bytes in one stream, which is below the largest vector. The destructor of
  \<open>RWLock\<close> is modelled with the two rounds after which its outcome is fixed (\<open>RWLock_dtor_loop_rounds\<close>). Skipping takes a
  bound on the tags it reads; every bound above the number of available bytes is enough, since each tag takes a byte.

  \<^bold>\<open>Not modelled.\<close> \<^verbatim>\<open>session_manager.h\<close>, \<^verbatim>\<open>netio_if.h\<close> and \<^verbatim>\<open>net_server.h\<close> only declare. Of muduo: connecting and
  accepting sockets, threads, logging, files and examples; the clock and \<^verbatim>\<open>epoll_wait\<close> are the
  environment. Of protocol buffers: descriptors, reflection, generated messages, text format and the compiler; the
  codec and the dispatcher take them as parameters. Of the wire format: the readers of repeated and packed fields,
  which depend on the capacity of \<^verbatim>\<open>RepeatedField\<close>, and the functions that call methods of a message; of the streams: the
  copying adaptors and the file streams, which wrap system calls. googletest is not part of the server.
\<close>

section \<open>From a session to the handlers of its peer\<close>

text \<open>The handling of received bytes: the codec fills the packet list, the dispatcher gets each packet.\<close>

definition receive ::
    "endian \<Rightarrow> ('m, 'd) message_lib \<Rightarrow> ('c \<Rightarrow> Buffer \<Rightarrow> ErrorCode \<Rightarrow> 'c \<times> Buffer) \<Rightarrow> 'c \<Rightarrow> ('m, 'e, 't) message_types \<Rightarrow>
     ('e, 't, 'k) ProtobufDispatcher \<Rightarrow> byte list list \<Rightarrow> ('m, 't, 'k) invocation result list result" where
  "receive e lib cb conn types disp chunks =
     rbind Buffer_ctor (\<lambda>buf.
     rbind (feed e lib cb conn buf [] chunks) (\<lambda>(rc, conn, buf, packets).
       Inr (map (\<lambda>m. onProtobufMessage types disp (Some m)) packets)))"


lemma sendInLoop_all:
  assumes "tc_state (el_user l) = kConnected" "\<not> isWriting (tc_channel (el_user l))" "tc_outputBuffer (el_user l) = []"
    "\<not> sk_fin (tc_socket (el_user l))" "tc_writeCompleteCallback (el_user l) = None" "length data \<le> n"
  shows "sendInLoop (Wrote n) data l = Inr (upd_conn (\<lambda>c. c\<lparr>tc_socket := (tc_socket c)\<lparr>sk_sent := sk_sent (tc_socket c) @ data\<rparr>\<rparr>) l)"
  using assms by (simp add: sendInLoop_def direct_write_def sockets_write_def Let_def upd_conn_def)


end
